(* ===== verification/Kernel_Prelude.thy ===== *)
theory Kernel_Prelude
  imports Main "HOL-Library.Word"
begin

text \<open>
  Shared ground of the development: the machine types of the C sources, the way a handler
  of a driver ends (a return value or a kernel fault, with the state at that point), the
  user/kernel copy primitives, little-endian images of the structures that cross the
  system-call boundary, and the generic list and word lemmas the component theories use.
\<close>

unbundle bit_operations_syntax

section \<open>Machine types and error numbers\<close>

text \<open>
  Signed C integers that are only stored and compared for equality are kept as words and
  read through \<open>sint\<close> where the code compares them with \<open><\<close>; return codes of
  handlers are \<open>int\<close> values, a negative one being an error number.
\<close>

type_synonym byte = "8 word"
type_synonym u32 = "32 word"
type_synonym s32 = "32 word"
type_synonym u64 = "64 word"

abbreviation EINVAL :: int where "EINVAL \<equiv> 22"
abbreviation EAGAIN :: int where "EAGAIN \<equiv> 11"

named_theorems image_simps \<open>lengths and round trips of byte images\<close>
named_theorems run_simps \<open>sequencing of kernel commands\<close>

section \<open>How a handler ends\<close>

text \<open>
  A handler either returns (\<open>Ret\<close>) or runs into a fault of the C abstract machine or of
  the kernel (\<open>Oops\<close>); both carry the state that was reached, so that what was
  already changed, and which locks were held, stays visible.
\<close>

datatype fault =
    NullDeref
  | UseAfterFree
  | OutOfBounds
  | DivideError
  | SelfDeadlock
  | UnlockUnheld
  | PageFault

datatype ('a, 's) outcome = Ret 'a 's | Oops fault 's

fun state_of :: "('a, 's) outcome \<Rightarrow> 's" where
  "state_of (Ret a s) = s"
| "state_of (Oops e s) = s"

fun returns :: "('a, 's) outcome \<Rightarrow> bool" where
  "returns (Ret a s) = True"
| "returns (Oops e s) = False"

type_synonym ('a, 's) cmd = "'s \<Rightarrow> ('a, 's) outcome"

definition bnd :: "('a, 's) cmd \<Rightarrow> ('a \<Rightarrow> ('b, 's) cmd) \<Rightarrow> ('b, 's) cmd" where
  "bnd m f s = (case m s of Ret a s' \<Rightarrow> f a s' | Oops e s' \<Rightarrow> Oops e s')"

definition ret :: "'a \<Rightarrow> ('a, 's) cmd" where
  "ret a s = Ret a s"

definition crash :: "fault \<Rightarrow> ('a, 's) cmd" where
  "crash e s = Oops e s"

definition upd :: "('s \<Rightarrow> 's) \<Rightarrow> (unit, 's) cmd" where
  "upd f s = Ret () (f s)"

definition look :: "('s \<Rightarrow> 'a) \<Rightarrow> ('a, 's) cmd" where
  "look f s = Ret (f s) s"

lemmas cmd_defs [run_simps] = bnd_def ret_def crash_def upd_def look_def

lemma bnd_ret_left: "bnd (ret a) f = f a"
  by (simp add: fun_eq_iff run_simps)

lemma bnd_ret_right: "bnd m ret = m"
  by (simp add: fun_eq_iff run_simps split: outcome.split)

lemma bnd_assoc: "bnd (bnd m f) g = bnd m (\<lambda>a. bnd (f a) g)"
  by (simp add: fun_eq_iff run_simps split: outcome.split)

section \<open>Spin locks\<close>

text \<open>
  The state of a driver that takes spin locks extends \<open>locked\<close>, the set of locks the
  running thread holds. Taking a lock twice hangs the processor, releasing a lock that is
  not held breaks it.
\<close>

record 'l locked =
  held :: "'l set"

definition spin_lock :: "'l \<Rightarrow> (unit, ('l, 'z) locked_scheme) cmd" where
  "spin_lock l s = (if l \<in> held s then Oops SelfDeadlock s else Ret () (s\<lparr>held := insert l (held s)\<rparr>))"

definition spin_unlock :: "'l \<Rightarrow> (unit, ('l, 'z) locked_scheme) cmd" where
  "spin_unlock l s = (if l \<in> held s then Ret () (s\<lparr>held := held s - {l}\<rparr>) else Oops UnlockUnheld s)"

lemmas lock_defs [run_simps] = spin_lock_def spin_unlock_def

section \<open>Little-endian images\<close>

definition le32 :: "32 word \<Rightarrow> byte list" where
  "le32 w = map (\<lambda>i. ucast (drop_bit (8 * i) w)) [0, 1, 2, 3]"

definition of_le32 :: "byte list \<Rightarrow> 32 word" where
  "of_le32 bs =
     ucast (bs ! 0) OR push_bit 8 (ucast (bs ! 1)) OR push_bit 16 (ucast (bs ! 2))
       OR push_bit 24 (ucast (bs ! 3))"

definition le64 :: "64 word \<Rightarrow> byte list" where
  "le64 w = le32 (ucast w) @ le32 (ucast (drop_bit 32 w))"

definition of_le64 :: "byte list \<Rightarrow> 64 word" where
  "of_le64 bs = ucast (of_le32 (take 4 bs)) OR push_bit 32 (ucast (of_le32 (drop 4 bs)))"

lemma length_le32 [simp, image_simps]: "length (le32 w) = 4"
  by (simp add: le32_def)

lemma length_le64 [simp, image_simps]: "length (le64 w) = 8"
  by (simp add: le64_def)

lemma of_le32_le32 [simp, image_simps]: "of_le32 (le32 w) = w"
proof (rule bit_word_eqI)
  fix n
  assume n: "n < LENGTH(32)"
  then consider "n < 8" | "8 \<le> n" "n < 16" | "16 \<le> n" "n < 24" | "24 \<le> n" "n < 32"
    by fastforce
  then show "bit (of_le32 (le32 w)) n = bit w n"
    by cases (auto simp: of_le32_def le32_def bit_simps)
qed

lemma of_le64_le64 [simp, image_simps]: "of_le64 (le64 w) = w"
proof (rule bit_word_eqI)
  fix n
  assume n: "n < LENGTH(64)"
  then show "bit (of_le64 (le64 w)) n = bit w n"
    by (cases "n < 32") (auto simp: of_le64_def le64_def bit_simps)
qed

section \<open>Copying between user and kernel space\<close>

text \<open>
  Both primitives return the number of bytes they could not copy.
  \<open>copy_from_user\<close> fills the bytes it could not read with zeroes, \<open>copy_to_user\<close>
  leaves the bytes it could not write alone. The number of failing bytes is decided by the
  page tables of the caller and is an argument of every definition below.
\<close>

definition copy_from_user :: "nat \<Rightarrow> nat \<Rightarrow> byte list \<Rightarrow> byte list" where
  "copy_from_user n failed src = take (n - failed) src @ replicate (n - length (take (n - failed) src)) 0"

definition copy_to_user :: "nat \<Rightarrow> byte list \<Rightarrow> nat \<Rightarrow> byte list \<Rightarrow> byte list" where
  "copy_to_user off src failed um =
     (let w = take (length src - failed) src
      in take off um @ w @ drop (off + length w) um)"

lemma length_copy_from_user [simp, image_simps]:
  "length (copy_from_user n failed src) = n"
  by (simp add: copy_from_user_def)

lemma copy_from_user_all [simp, image_simps]:
  "n \<le> length src \<Longrightarrow> copy_from_user n 0 src = take n src"
  by (simp add: copy_from_user_def)

lemma length_copy_to_user [simp, image_simps]:
  "off + length src \<le> length um \<Longrightarrow> length (copy_to_user off src failed um) = length um"
  by (simp add: copy_to_user_def Let_def)

lemma copy_to_user_nth:
  assumes "off + length src \<le> length um" and "i < length um"
  shows "copy_to_user off src 0 um ! i =
    (if off \<le> i \<and> i < off + length src then src ! (i - off) else um ! i)"
  using assms by (auto simp: copy_to_user_def Let_def nth_append min_def)

lemma copy_to_user_window:
  assumes "off + length src \<le> length um"
  shows "take (length src) (drop off (copy_to_user off src 0 um)) = src"
  using assms by (auto simp: copy_to_user_def Let_def)

lemma copy_to_user_frame:
  assumes "off + length src \<le> length um"
    and "off' + n \<le> off \<or> off + length src \<le> off'" and "off' + n \<le> length um"
  shows "take n (drop off' (copy_to_user off src 0 um)) = take n (drop off' um)"
  using assms by (intro nth_equalityI) (auto simp: copy_to_user_nth)

section \<open>ioctl numbers\<close>

text \<open>
  The command numbers are built by the \<open>_IOC\<close> macro: direction in bits 30-31, size of
  the argument in bits 16-29, magic character in bits 8-15, ordinal in bits 0-7.
\<close>

definition IOC :: "u32 \<Rightarrow> u32 \<Rightarrow> u32 \<Rightarrow> u32 \<Rightarrow> u32" where
  "IOC dir ty nr sz = push_bit 30 dir OR push_bit 16 sz OR push_bit 8 ty OR nr"

abbreviation IOW :: "char \<Rightarrow> u32 \<Rightarrow> u32 \<Rightarrow> u32" where
  "IOW ty nr sz \<equiv> IOC 1 (of_char ty) nr sz"

abbreviation IOR :: "char \<Rightarrow> u32 \<Rightarrow> u32 \<Rightarrow> u32" where
  "IOR ty nr sz \<equiv> IOC 2 (of_char ty) nr sz"

abbreviation IOWR :: "char \<Rightarrow> u32 \<Rightarrow> u32 \<Rightarrow> u32" where
  "IOWR ty nr sz \<equiv> IOC 3 (of_char ty) nr sz"

section \<open>Resources a character-device module registers\<close>

datatype kres = Region | ClassObj | DevStruct | CdevReg | DevNode

section \<open>Ring arithmetic\<close>

lemma mod_add_neq:
  fixes a d N :: nat
  assumes "0 < d" and "d < N"
  shows "a mod N \<noteq> (a + d) mod N"
proof
  assume "a mod N = (a + d) mod N"
  then have "N dvd (a + d) - a"
    by (metis le_add1 mod_eq_dvd_iff_nat)
  with assms show False by (simp add: nat_dvd_not_less)
qed

lemma ring_predecessor: "n < N \<Longrightarrow> (Suc n mod N + (N - 1)) mod N = n" for n N :: nat
  by (cases "Suc n = N") auto

text \<open>After \<open>n\<close> entries the slot of every entry still in the ring is that of a recent one.\<close>

lemma ring_slot_of:
  fixes i n N :: nat
  assumes "i < min n N"
  shows "\<exists>j < min n N. (n - Suc j) mod N = i"
proof -
  let ?q = "(n - Suc i) mod N"
  have q: "?q < N" "?q \<le> n - Suc i" using assms by (auto intro: mod_less_eq_dividend)
  have "n - Suc i = N * ((n - Suc i) div N) + ?q" by simp
  then have "n - Suc ?q = N * ((n - Suc i) div N) + i" using assms q(2) by linarith
  then have "(n - Suc ?q) mod N = i" using assms by simp
  moreover have "?q < n" using q(2) assms by linarith
  ultimately show ?thesis using q(1) by (intro exI [of _ ?q]) simp
qed

lemma slot_in_use:
  fixes j n N :: nat
  assumes "j < min n N"
  shows "(n - Suc j) mod N < min n N"
proof (cases "n \<le> N")
  case True
  with assms show ?thesis by simp
next
  case False
  with assms show ?thesis by simp
qed

section \<open>Widening a signed integer\<close>

lemma sint_nonneg:
  assumes "0 \<le> sint (c :: s32)"
  shows "sint c = uint c"
proof -
  have "\<not> bit c 31"
    using assms by (simp add: sint_uint signed_take_bit_nonnegative_iff bit_uint_iff)
  moreover from this have "bit c n \<Longrightarrow> n < 31" for n
    using bit_imp_le_length [of c n] by (cases "n = 31") auto
  ultimately show ?thesis
    by (intro bit_eqI) (force simp: sint_uint bit_signed_take_bit_iff bit_uint_iff min_def)
qed

lemma scast_nonneg: "0 \<le> sint (c :: s32) \<Longrightarrow> (scast c :: u64) = ucast c"
  by (simp add: scast_eq sint_nonneg)

section \<open>List lemmas\<close>

lemma distinct_concat_hashed:
  assumes "\<And>b. b < length xss \<Longrightarrow> distinct (xss ! b)"
    and "\<And>b x. b < length xss \<Longrightarrow> x \<in> set (xss ! b) \<Longrightarrow> h x = b"
  shows "distinct (concat xss)"
  using assms
proof (induction xss rule: rev_induct)
  case Nil
  then show ?case by simp
next
  case (snoc ys xss)
  have IH: "distinct (concat xss)"
  proof (rule snoc.IH)
    fix b
    assume b: "b < length xss"
    with snoc.prems(1) [of b] show "distinct (xss ! b)" by (simp add: nth_append)
    fix x
    assume "x \<in> set (xss ! b)"
    with b snoc.prems(2) [of b x] show "h x = b" by (simp add: nth_append)
  qed
  have "h x \<noteq> length xss" if "x \<in> set (concat xss)" for x
  proof -
    from that obtain b where "b < length xss" "x \<in> set (xss ! b)"
      by (metis in_set_conv_nth set_concat UN_E)
    with snoc.prems(2) [of b x] show ?thesis by (auto simp: nth_append)
  qed
  moreover have "h x = length xss" if "x \<in> set ys" for x
    using snoc.prems(2) [of "length xss" x] that by simp
  moreover have "distinct ys"
    using snoc.prems(1) [of "length xss"] by simp
  ultimately show ?case using IH by auto
qed

lemma concat_update_mset_length:
  assumes "b < length xss"
  shows "length (concat (xss[b := ys])) + length (xss ! b) = length (concat xss) + length ys"
  using assms
proof (induction xss arbitrary: b)
  case (Cons x xss)
  then show ?case by (cases b) auto
qed simp

lemma distinct_words_bound:
  fixes xs :: "('a :: len) word list"
  assumes "distinct xs"
  shows "length xs \<le> 2 ^ LENGTH('a)"
proof -
  have "length xs = card (set xs)"
    using assms by (simp add: distinct_card)
  also have "\<dots> \<le> card (UNIV :: 'a word set)"
    by (rule card_mono) simp_all
  finally show ?thesis by (simp add: card_word)
qed

text \<open>Finding the image of an element in the concatenation of images of equal length.\<close>

lemma chunk_nth:
  assumes "\<And>x. length (f x) = k" and "i < length xs"
  shows "take k (drop (k * i) (concat (map f xs))) = f (xs ! i)"
  using assms(2)
proof (induction xs arbitrary: i)
  case (Cons x xs)
  then show ?case using assms(1) by (cases i) auto
qed simp

lemma length_chunks: "(\<And>x. length (f x) = k) \<Longrightarrow> length (concat (map f xs)) = k * length xs"
  by (induction xs) auto

lemma distinct_delete_nth: "distinct xs \<Longrightarrow> distinct (take i xs @ drop (Suc i) xs)"
  by (simp add: set_take_disj_set_drop_if_distinct)

lemma set_delete_nth: "set (take i xs @ drop (Suc i) xs) \<subseteq> set xs"
  by (auto dest: in_set_takeD in_set_dropD)

lemma map_update_same: "i < length l \<Longrightarrow> f x = f (l ! i) \<Longrightarrow> map f (l[i := x]) = map f l"
  by (metis list_update_id map_update nth_map)

text \<open>Updating and unlinking the first list element that satisfies a test.\<close>

fun update_first :: "('a \<Rightarrow> bool) \<Rightarrow> ('a \<Rightarrow> 'a) \<Rightarrow> 'a list \<Rightarrow> 'a list" where
  "update_first P f [] = []"
| "update_first P f (x # xs) = (if P x then f x # xs else x # update_first P f xs)"

fun remove_first :: "('a \<Rightarrow> bool) \<Rightarrow> 'a list \<Rightarrow> 'a list" where
  "remove_first P [] = []"
| "remove_first P (x # xs) = (if P x then xs else x # remove_first P xs)"

lemma map_update_first:
  "(\<And>x. P x \<Longrightarrow> g (f x) = g x) \<Longrightarrow> map g (update_first P f xs) = map g xs"
  by (induction xs) auto

lemma update_first_id: "update_first P id xs = xs"
  by (induction xs) auto

lemma length_update_first [simp]: "length (update_first P f xs) = length xs"
  by (induction xs) auto

lemma set_remove_first: "set (remove_first P xs) \<subseteq> set xs"
  by (induction xs) auto

lemma find_update_first_same:
  "(\<And>x. P x \<Longrightarrow> P (f x)) \<Longrightarrow> find P (update_first P f xs) = map_option f (find P xs)"
  by (induction xs) auto

lemma find_update_first_other:
  "(\<And>x. P x \<Longrightarrow> \<not> Q x \<and> \<not> Q (f x)) \<Longrightarrow> find Q (update_first P f xs) = find Q xs"
  by (induction xs) auto

lemma find_remove_first_other:
  "(\<And>x. P x \<Longrightarrow> \<not> Q x) \<Longrightarrow> find Q (remove_first P xs) = find Q xs"
  by (induction xs) auto

lemma find_remove_first_same:
  "distinct (map g xs) \<Longrightarrow> find (\<lambda>x. g x = k) (remove_first (\<lambda>x. g x = k) xs) = None"
  by (induction xs) (auto simp: find_None_iff image_iff)

lemma distinct_remove_first:
  "distinct (map g xs) \<Longrightarrow> distinct (map g (remove_first P xs))"
  by (induction xs) (use set_remove_first in fastforce)+

lemma length_remove_first:
  "find P xs \<noteq> None \<Longrightarrow> Suc (length (remove_first P xs)) = length xs"
  by (induction xs) auto

lemma update_first_absent: "find P xs = None \<Longrightarrow> update_first P f xs = xs"
  by (induction xs) (auto split: if_splits)

lemma remove_first_absent: "find P xs = None \<Longrightarrow> remove_first P xs = xs"
  by (induction xs) (auto split: if_splits)

lemma in_set_update_first:
  "y \<in> set (update_first P f xs) \<Longrightarrow> y \<in> set xs \<or> (\<exists>x. find P xs = Some x \<and> y = f x)"
  by (induction xs) (auto split: if_splits)

lemma find_unique:
  "distinct (map fst xs) \<Longrightarrow> (k, v) \<in> set xs \<Longrightarrow> find (\<lambda>c. fst c = k) xs = Some (k, v)"
  by (induction xs) (auto simp: rev_image_eqI)

lemma find_in_set: "find P xs = Some x \<Longrightarrow> x \<in> set xs \<and> P x"
  by (induction xs) (auto split: if_splits)

end
