(* ===== verification/Contracts.thy ===== *)
theory Contracts
  imports Kernel_Prelude
begin

text \<open>
  The interfaces the components of the repository offer to their users, as locales: a
  key-value store addressed through a single write operation (the hash-table driver), a
  table of handles owned by processes (the barrier registry), a
  ring of fixed size that keeps the most recent entries (the probe records of mprobe and
  the distance samples of the HC-SR04 drivers), and a step relation that simulates an
  abstract one (the barrier). What a user of such a component can rely on is proved here,
  once; the component theories interpret the locales on their own definitions.
\<close>

section \<open>A key-value store in which writing zero deletes\<close>

locale kv_store =
  fixes wr :: "'s \<Rightarrow> 'k \<Rightarrow> ('v :: zero) \<Rightarrow> 's"
    and lk :: "'s \<Rightarrow> 'k \<Rightarrow> 'v option"
    and invar :: "'s \<Rightarrow> bool"
  assumes wr_invar: "invar s \<Longrightarrow> invar (wr s k v)"
    and lk_wr: "invar s \<Longrightarrow> lk (wr s k v) = (lk s)(k := (if v = 0 then None else Some v))"
begin

definition wr_all :: "'s \<Rightarrow> ('k \<times> 'v) list \<Rightarrow> 's" where
  "wr_all s kvs = fold (\<lambda>(k, v) s. wr s k v) kvs s"

lemma wr_all_invar: "invar s \<Longrightarrow> invar (wr_all s kvs)"
  unfolding wr_all_def
  by (induction kvs arbitrary: s) (auto simp: wr_invar)

lemma lk_wr_same: "invar s \<Longrightarrow> lk (wr s k v) k = (if v = 0 then None else Some v)"
  by (simp add: lk_wr)

lemma lk_wr_other: "invar s \<Longrightarrow> k \<noteq> k' \<Longrightarrow> lk (wr s k v) k' = lk s k'"
  by (simp add: lk_wr)

lemma lk_wr_commute:
  "invar s \<Longrightarrow> k \<noteq> k' \<Longrightarrow> lk (wr (wr s k v) k' v') = lk (wr (wr s k' v') k v)"
  by (auto simp: lk_wr wr_invar)

text \<open>After any sequence of writes a key holds what the last write to it said.\<close>

lemma lk_wr_all:
  assumes "invar s"
  shows "lk (wr_all s kvs) k =
    (case map_of (rev kvs) k of
       None \<Rightarrow> lk s k | Some v \<Rightarrow> if v = 0 then None else Some v)"
  using assms
proof (induction kvs arbitrary: s)
  case Nil
  then show ?case by (simp add: wr_all_def)
next
  case (Cons kv kvs)
  obtain k' v' where [simp]: "kv = (k', v')" by (cases kv)
  have "lk (wr_all s (kv # kvs)) k = lk (wr_all (wr s k' v') kvs) k"
    by (simp add: wr_all_def)
  also have "\<dots> = (case map_of (rev kvs) k of
      None \<Rightarrow> lk (wr s k' v') k | Some v \<Rightarrow> if v = 0 then None else Some v)"
    using Cons.prems by (intro Cons.IH) (simp add: wr_invar)
  finally show ?case
    using Cons.prems by (simp add: map_add_def lk_wr split: option.splits)
qed

end

section \<open>A ring that keeps the most recent entries\<close>

locale ring_log =
  fixes size_of :: "'s \<Rightarrow> nat"
    and slot :: "'s \<Rightarrow> nat \<Rightarrow> 'a"
    and nxt :: "'s \<Rightarrow> nat"
    and push :: "'a \<Rightarrow> 's \<Rightarrow> 's"
    and invar :: "'s \<Rightarrow> bool"
  assumes push_invar: "invar s \<Longrightarrow> invar (push x s)"
    and push_size: "invar s \<Longrightarrow> size_of (push x s) = size_of s"
    and nxt_less: "invar s \<Longrightarrow> nxt s < size_of s"
    and nxt_push: "invar s \<Longrightarrow> nxt (push x s) = Suc (nxt s) mod size_of s"
    and slot_push:
      "invar s \<Longrightarrow> i < size_of s \<Longrightarrow> slot (push x s) i = (if i = nxt s then x else slot s i)"
begin

abbreviation push_all :: "'a list \<Rightarrow> 's \<Rightarrow> 's" where
  "push_all xs s \<equiv> fold push xs s"

lemma push_all_invar: "invar s \<Longrightarrow> invar (push_all xs s)"
  by (induction xs arbitrary: s) (auto simp: push_invar)

lemma push_all_size: "invar s \<Longrightarrow> size_of (push_all xs s) = size_of s"
  by (induction xs arbitrary: s) (auto simp: push_invar push_size)

lemma nxt_push_all: "invar s \<Longrightarrow> nxt (push_all xs s) = (nxt s + length xs) mod size_of s"
proof (induction xs arbitrary: s)
  case Nil
  then show ?case by (simp add: nxt_less)
next
  case (Cons x xs)
  then show ?case
    by (simp add: push_invar push_size nxt_push mod_simps)
qed

text \<open>
  The entry pushed \<open>j + 1\<close> entries before the end is found \<open>j + 1\<close> slots behind
  the write position, as long as it has not been overwritten.
\<close>

lemma slot_push_all:
  assumes "invar s" and "j < length xs" and "j < size_of s"
  shows "slot (push_all xs s) ((nxt s + (length xs - Suc j)) mod size_of s) = rev xs ! j"
  using assms
proof (induction xs arbitrary: j rule: rev_induct)
  case Nil
  then show ?case by simp
next
  case (snoc x xs)
  let ?t = "push_all xs s"
  let ?N = "size_of s"
  have t: "invar ?t" "size_of ?t = ?N" "nxt ?t = (nxt s + length xs) mod ?N"
    using snoc.prems by (simp_all add: push_all_invar push_all_size nxt_push_all)
  have N: "0 < ?N" using snoc.prems by linarith
  show ?case
  proof (cases j)
    case 0
    then show ?thesis using t N by (simp add: slot_push)
  next
    case (Suc i)
    let ?p = "(nxt s + (length xs - Suc i)) mod ?N"
    have i: "i < length xs" "Suc i < ?N" using snoc.prems Suc by auto
    have "nxt s + (length xs - Suc i) + Suc i = nxt s + length xs" using i by simp
    then have ne: "?p \<noteq> nxt ?t"
      using mod_add_neq [of "Suc i" ?N "nxt s + (length xs - Suc i)"] t i by simp
    have "slot (push x ?t) ?p = slot ?t ?p"
      using ne t N by (simp add: slot_push)
    also have "\<dots> = rev xs ! i"
      using snoc.IH [of i] snoc.prems i by simp
    finally show ?thesis using Suc by simp
  qed
qed

text \<open>A slot the pushes have not come to yet keeps what it held.\<close>

lemma slot_unwritten:
  "invar s \<Longrightarrow> nxt s + length xs \<le> i \<Longrightarrow> i < size_of s \<Longrightarrow> slot (push_all xs s) i = slot s i"
proof (induction xs arbitrary: s)
  case (Cons x xs)
  have "nxt (push x s) = Suc (nxt s)" using Cons.prems by (simp add: nxt_push)
  with Cons.IH [of "push x s"] Cons.prems show ?case
    by (simp add: push_invar push_size slot_push)
qed simp

lemma newest_push:
  "invar s \<Longrightarrow> slot (push x s) ((nxt (push x s) + (size_of s - 1)) mod size_of s) = x"
proof -
  assume s: "invar s"
  then have "nxt s < size_of s" by (rule nxt_less)
  then have "(Suc (nxt s) mod size_of s + (size_of s - 1)) mod size_of s = nxt s"
    by (rule ring_predecessor)
  with s show ?thesis by (simp add: nxt_push slot_push nxt_less)
qed

end

section \<open>A table of handles, each owned by a process\<close>

text \<open>
  A handle is allocated for an owner and is valid until that owner frees it; using it
  changes what it stands for and nothing else. An operation that does not complete is
  \<open>None\<close>.
\<close>

datatype ('o, 'x, 'u, 'h) table_op = Alloc 'o 'x | Use 'u 'o 'h | Free 'o 'h

fun actor :: "('o, 'x, 'u, 'h) table_op \<Rightarrow> 'o" where
  "actor (Alloc o' x) = o'"
| "actor (Use u o' h) = o'"
| "actor (Free o' h) = o'"

locale handle_table =
  fixes alloc :: "'o \<Rightarrow> 'x \<Rightarrow> 's \<Rightarrow> ('h \<times> 's) option"
    and use :: "'u \<Rightarrow> 'o \<Rightarrow> 'h \<Rightarrow> 's \<Rightarrow> 's option"
    and free :: "'o \<Rightarrow> 'h \<Rightarrow> 's \<Rightarrow> 's option"
    and tbl :: "'s \<Rightarrow> 'p \<times> 'h \<Rightarrow> 'v option"
    and own :: "'o \<Rightarrow> 'p"
    and invar :: "'s \<Rightarrow> bool"
  assumes alloc_law: "invar s \<Longrightarrow> alloc o' x s = Some (h, s') \<Longrightarrow>
      invar s' \<and> tbl s (own o', h) = None \<and> (\<exists>v. tbl s' = (tbl s)((own o', h) \<mapsto> v))"
    and use_law: "invar s \<Longrightarrow> use u o' h s = Some s' \<Longrightarrow>
      invar s' \<and> tbl s (own o', h) \<noteq> None \<and> (\<exists>v. tbl s' = (tbl s)((own o', h) \<mapsto> v))"
    and free_law: "invar s \<Longrightarrow> free o' h s = Some s' \<Longrightarrow>
      invar s' \<and> tbl s (own o', h) \<noteq> None \<and> tbl s' = (tbl s)((own o', h) := None)"
begin

fun exec :: "('o, 'x, 'u, 'h) table_op \<Rightarrow> 's \<Rightarrow> 's option" where
  "exec (Alloc o' x) s = map_option snd (alloc o' x s)"
| "exec (Use u o' h) s = use u o' h s"
| "exec (Free o' h) s = free o' h s"

fun exec_all :: "('o, 'x, 'u, 'h) table_op list \<Rightarrow> 's \<Rightarrow> 's option" where
  "exec_all [] s = Some s"
| "exec_all (op # ops) s = Option.bind (exec op s) (exec_all ops)"

lemma exec_effect:
  assumes "invar s" and "exec op s = Some s'"
  shows "invar s' \<and> (\<exists>h v. tbl s' = (tbl s)((own (actor op), h) := v)
    \<and> (v = None \<longrightarrow> op = Free (actor op) h))"
proof (cases op)
  case (Alloc o' x)
  with assms obtain h where "alloc o' x s = Some (h, s')" by auto
  with Alloc alloc_law [OF assms(1) this] show ?thesis by auto
next
  case (Use u o' h)
  with assms use_law [OF assms(1), of u o' h s'] show ?thesis by auto
next
  case (Free o' h)
  with assms free_law [OF assms(1), of o' h s'] show ?thesis by auto
qed

lemma exec_keeps: "invar s \<Longrightarrow> exec op s = Some s' \<Longrightarrow> invar s'"
  using exec_effect by blast

lemma exec_other:
  "invar s \<Longrightarrow> exec op s = Some s' \<Longrightarrow> own (actor op) \<noteq> p \<Longrightarrow> tbl s' (p, h) = tbl s (p, h)"
  using exec_effect [of s op s'] by auto

lemma exec_live:
  assumes "invar s" and "exec op s = Some s'" and "tbl s (p, h) \<noteq> None"
    and "\<And>o'. op = Free o' h \<Longrightarrow> own o' \<noteq> p"
  shows "tbl s' (p, h) \<noteq> None"
proof -
  obtain h' v where e: "tbl s' = (tbl s)((own (actor op), h') := v)"
    "v = None \<longrightarrow> op = Free (actor op) h'"
    using exec_effect [OF assms(1,2)] by blast
  show ?thesis using assms(3) assms(4) [of "actor op"] e by auto
qed

text \<open>The operations of other owners are invisible.\<close>

lemma isolation:
  "invar s \<Longrightarrow> exec_all ops s = Some s' \<Longrightarrow> \<forall>op \<in> set ops. own (actor op) \<noteq> p \<Longrightarrow>
    invar s' \<and> tbl s' (p, h) = tbl s (p, h)"
proof (induction ops arbitrary: s)
  case (Cons op ops)
  then obtain t where t: "exec op s = Some t" "exec_all ops t = Some s'"
    by (auto simp: bind_eq_Some_conv)
  with Cons show ?case using exec_keeps exec_other by (metis list.set_intros)
qed simp

text \<open>A handle stays valid until its owner frees it.\<close>

lemma live_until_freed:
  "invar s \<Longrightarrow> exec_all ops s = Some s' \<Longrightarrow> tbl s (p, h) \<noteq> None \<Longrightarrow>
    \<forall>o'. own o' = p \<longrightarrow> Free o' h \<notin> set ops \<Longrightarrow> invar s' \<and> tbl s' (p, h) \<noteq> None"
proof (induction ops arbitrary: s)
  case (Cons op ops)
  then obtain t where t: "exec op s = Some t" "exec_all ops t = Some s'"
    by (auto simp: bind_eq_Some_conv)
  have "tbl t (p, h) \<noteq> None"
    using Cons.prems t by (intro exec_live [of s op t p h]) auto
  with Cons t exec_keeps show ?case by (metis list.set_intros(2))
qed simp

text \<open>A new handle differs from all handles of the owner that are valid.\<close>

lemma alloc_fresh:
  assumes "invar s" and "alloc o' x s = Some (h, t)" and "exec_all ops t = Some s'"
    and "\<forall>o''. own o'' = own o' \<longrightarrow> Free o'' h \<notin> set ops"
    and "alloc o2 x2 s' = Some (h2, s2)" and "own o2 = own o'"
  shows "h2 \<noteq> h"
proof -
  have "invar t" "tbl t (own o', h) \<noteq> None" using alloc_law [OF assms(1,2)] by auto
  then have "invar s'" "tbl s' (own o', h) \<noteq> None"
    using live_until_freed [OF _ assms(3) _ assms(4)] by auto
  with alloc_law [OF _ assms(5)] assms(6) show ?thesis by auto
qed

end

section \<open>A step relation that simulates an abstract machine\<close>

text \<open>
  Every concrete step from a state that satisfies the invariant is matched by an abstract
  step or leaves the abstraction unchanged.
\<close>

locale simulation =
  fixes init :: "'c \<Rightarrow> bool"
    and cstep :: "'c \<Rightarrow> 'c \<Rightarrow> bool"
    and ainit :: "'a \<Rightarrow> bool"
    and astep :: "'a \<Rightarrow> 'a \<Rightarrow> bool"
    and abs :: "'c \<Rightarrow> 'a"
    and inv :: "'c \<Rightarrow> bool"
  assumes inv_init: "init s \<Longrightarrow> inv s"
    and inv_step: "inv s \<Longrightarrow> cstep s t \<Longrightarrow> inv t"
    and abs_init: "init s \<Longrightarrow> ainit (abs s)"
    and abs_step: "inv s \<Longrightarrow> cstep s t \<Longrightarrow> astep (abs s) (abs t) \<or> abs t = abs s"
begin

lemma inv_reachable: "cstep\<^sup>*\<^sup>* s t \<Longrightarrow> init s \<Longrightarrow> inv t"
  by (induction rule: rtranclp_induct) (auto simp: inv_init intro: inv_step)

lemma simulates: "cstep\<^sup>*\<^sup>* s t \<Longrightarrow> init s \<Longrightarrow> astep\<^sup>*\<^sup>* (abs s) (abs t)"
proof (induction rule: rtranclp_induct)
  case base
  show ?case by simp
next
  case (step t u)
  then have "inv t" by (auto intro: inv_reachable)
  then have "astep (abs t) (abs u) \<or> abs u = abs t" using step(2) by (rule abs_step)
  with step show ?case by auto
qed

lemma transfer_invariant:
  assumes I0: "\<And>a. ainit a \<Longrightarrow> P a" and I1: "\<And>a b. P a \<Longrightarrow> astep a b \<Longrightarrow> P b"
    and "init s" and "cstep\<^sup>*\<^sup>* s t"
  shows "P (abs t)"
proof -
  have "astep\<^sup>*\<^sup>* (abs s) (abs t)" using assms(4,3) by (rule simulates)
  then show ?thesis
    by (induction rule: rtranclp_induct) (use I0 I1 abs_init assms(3) in blast)+
qed

end

end
