(* ===== verification/Ht530.thy ===== *)
theory Ht530
  imports Contracts
begin

text \<open>
  The hash-table driver \<open>general_driver/ht530.c\<close>: the table and its size counter, the
  file operations (open, release, read, write, ioctl, fsync, flock), module load and
  unload. The hash function of the kernel (\<open>hash_min\<close>) is a parameter; all the driver
  relies on is that it returns a bucket number (\<open>hash_ok\<close>). The invariant \<open>ht_inv\<close>
  and the abstraction \<open>ht_map\<close> show that the table is a finite map from keys to
  non-zero data.
\<close>

section \<open>Data\<close>

record ht_object =
  key :: s32
  data :: s32

record ht530 =
  ht530_tbl :: "ht_object list list"
  cur_size :: u64
  for_mprobe_test1 :: s32
  for_mprobe_test2 :: s32
  resources :: "kres set"

abbreviation HT530_HT_BITS :: nat where "HT530_HT_BITS \<equiv> 7"
abbreviation BUCKET_SIZE :: nat where "BUCKET_SIZE \<equiv> 128"

definition ALL_DUMP :: u32 where "ALL_DUMP = IOWR (CHR ''D'') 1 8"
definition HASH_DUMP :: u32 where "HASH_DUMP = IOWR (CHR ''D'') 2 8"
definition RET_CUR_SIZE :: u32 where "RET_CUR_SIZE = IOWR (CHR ''D'') 3 8"

text \<open>The eight-byte image of a \<open>ht_object_t\<close> and its inverse.\<close>

definition bytes_of_obj :: "ht_object \<Rightarrow> byte list" where
  "bytes_of_obj x = le32 (key x) @ le32 (data x)"

definition obj_of_bytes :: "byte list \<Rightarrow> ht_object" where
  "obj_of_bytes bs = \<lparr>key = of_le32 (take 4 bs), data = of_le32 (drop 4 bs)\<rparr>"

section \<open>Lookup\<close>

definition find_the_bucket :: "(s32 \<Rightarrow> nat \<Rightarrow> nat) \<Rightarrow> ht530 \<Rightarrow> s32 \<Rightarrow> nat option" where
  "find_the_bucket hash_min st k =
     (let h = hash_min k HT530_HT_BITS
      in if ht530_tbl st ! h = [] then None else Some h)"

text \<open>\<open>hlist_for_each_entry\<close> with an early return: position of the first match.\<close>

fun hlist_scan :: "s32 \<Rightarrow> ht_object list \<Rightarrow> nat option" where
  "hlist_scan k [] = None"
| "hlist_scan k (x # xs) = (if key x = k then Some 0 else map_option Suc (hlist_scan k xs))"

text \<open>A node pointer is the pair of its bucket and its position in that bucket.\<close>

definition find_the_node ::
  "(s32 \<Rightarrow> nat \<Rightarrow> nat) \<Rightarrow> ht530 \<Rightarrow> s32 \<Rightarrow> nat option \<Rightarrow> (nat \<times> nat) option" where
  "find_the_node hash_min st k bucket =
     (case (case bucket of None \<Rightarrow> find_the_bucket hash_min st k | Some b \<Rightarrow> Some b) of
        None \<Rightarrow> None
      | Some b \<Rightarrow> map_option (Pair b) (hlist_scan k (ht530_tbl st ! b)))"

section \<open>File operations\<close>

definition ht530_open :: "(int, ht530) cmd" where
  "ht530_open st = Ret 0 (st\<lparr>for_mprobe_test1 := 0x12345, for_mprobe_test2 := 0x54321\<rparr>)"

definition ht530_release :: "(int, ht530) cmd" where
  "ht530_release st = Ret 0 st"

definition ht530_fsync :: "(int, ht530) cmd" where
  "ht530_fsync st = Ret 0 st"

definition ht530_flock :: "(int, ht530) cmd" where
  "ht530_flock st = Ret 0 st"

text \<open>
  \<open>f1\<close> and \<open>f2\<close> are the numbers of bytes the two copies failed on. The last copy
  takes \<open>count\<close> bytes from the eight-byte pair at the end of the node.
\<close>

definition ht530_read ::
  "(s32 \<Rightarrow> nat \<Rightarrow> nat) \<Rightarrow> byte list \<Rightarrow> nat \<Rightarrow> nat \<Rightarrow> nat \<Rightarrow> (int \<times> byte list, ht530) cmd" where
  "ht530_read hash_min buf count f1 f2 st =
     (let uitem = obj_of_bytes (copy_from_user 8 f1 buf) in
      if 0 > int f1 then Ret (- EINVAL, buf) st
      else case find_the_node hash_min st (key uitem) None of
        None \<Rightarrow> Ret (- EINVAL, buf) st
      | Some (b, i) \<Rightarrow>
          if 8 < count then Oops OutOfBounds st
          else
            let buf' = copy_to_user 0 (take count (bytes_of_obj (ht530_tbl st ! b ! i))) f2 buf in
            if 0 > int f2 then Ret (- EINVAL, buf') st
            else Ret (int count - int f2, buf') st)"

definition hash_add :: "(s32 \<Rightarrow> nat \<Rightarrow> nat) \<Rightarrow> s32 \<Rightarrow> ht_object \<Rightarrow> ht530 \<Rightarrow> ht530" where
  "hash_add hash_min k node st =
     (let h = hash_min k HT530_HT_BITS
      in st\<lparr>ht530_tbl := (ht530_tbl st)[h := node # ht530_tbl st ! h]\<rparr>)"

definition hash_del :: "nat \<times> nat \<Rightarrow> ht530 \<Rightarrow> ht530" where
  "hash_del p st =
     (let (b, i) = p; l = ht530_tbl st ! b
      in st\<lparr>ht530_tbl := (ht530_tbl st)[b := take i l @ drop (Suc i) l]\<rparr>)"

definition set_pair :: "nat \<times> nat \<Rightarrow> ht_object \<Rightarrow> ht530 \<Rightarrow> ht530" where
  "set_pair p x st =
     (let (b, i) = p
      in st\<lparr>ht530_tbl := (ht530_tbl st)[b := (ht530_tbl st ! b)[i := x]]\<rparr>)"

text \<open>The second half of \<open>ht530_write\<close>: store the data, or delete the node on data 0.\<close>

definition ht530_store :: "ht_object \<Rightarrow> nat \<times> nat \<Rightarrow> (int, ht530) cmd" where
  "ht530_store uitem p st =
     (if data uitem \<noteq> 0 then Ret 0 (set_pair p uitem st)
      else Ret 0 ((hash_del p st)\<lparr>cur_size := cur_size st - 1\<rparr>))"

text \<open>
  \<open>kmalloc\<close> is the outcome of the allocation: \<open>None\<close> for a null pointer, else the
  uninitialised contents of the new node, which is linked before its pair is written.
\<close>

definition ht530_write ::
  "(s32 \<Rightarrow> nat \<Rightarrow> nat) \<Rightarrow> ht_object option \<Rightarrow> byte list \<Rightarrow> nat \<Rightarrow> (int, ht530) cmd" where
  "ht530_write hash_min kmalloc buf f1 st =
     (let uitem = obj_of_bytes (copy_from_user 8 f1 buf) in
      if 0 > int f1 then Ret (- EINVAL) st
      else case find_the_node hash_min st (key uitem) None of
        None \<Rightarrow>
          if data uitem = 0 then Ret 0 st
          else (case kmalloc of
              None \<Rightarrow> Oops NullDeref st
            | Some node \<Rightarrow>
                ht530_store uitem (hash_min (key uitem) HT530_HT_BITS, 0)
                  ((hash_add hash_min (key uitem) node st)\<lparr>cur_size := cur_size st + 1\<rparr>))
      | Some p \<Rightarrow> ht530_store uitem p st)"

text \<open>\<open>bzero\<close> of \<open>ht530_kernel.h\<close>; \<open>None\<close> when it would run past the object.\<close>

fun bzero :: "byte list \<Rightarrow> nat \<Rightarrow> byte list option" where
  "bzero t 0 = Some t"
| "bzero [] (Suc n) = None"
| "bzero (b # t) (Suc n) = map_option (Cons 0) (bzero t n)"

text \<open>\<open>ALL_DUMP\<close>: one copy per node, each to the next slot of the user's array.\<close>

fun dump_objs :: "(nat \<Rightarrow> nat) \<Rightarrow> nat \<Rightarrow> ht_object list \<Rightarrow> byte list \<Rightarrow> byte list" where
  "dump_objs fs i [] um = um"
| "dump_objs fs i (x # xs) um =
     dump_objs fs (Suc i) xs (copy_to_user (8 * i) (bytes_of_obj x) (fs i) um)"

text \<open>
  \<open>um\<close> is the user memory at the ioctl argument. \<open>HASH_DUMP\<close> clears the kernel's own
  copy of the request and copies the nodes of the bucket into that kernel copy, a local
  variable; nothing is written to user memory. A negative bucket number passes the test
  and the list is read from outside the table.
\<close>

definition ht530_unlocked_ioctl ::
  "u32 \<Rightarrow> byte list \<Rightarrow> nat \<Rightarrow> (nat \<Rightarrow> nat) \<Rightarrow> (int \<times> byte list, ht530) cmd" where
  "ht530_unlocked_ioctl req1 um f1 fs st =
     (let dump_set = copy_from_user 68 f1 um; n = sint (of_le32 (take 4 dump_set)) in
      if 0 > int f1 then Ret (- EINVAL, um) st
      else if req1 = HASH_DUMP \<and> n \<ge> int BUCKET_SIZE then Ret (- EINVAL, um) st
      else if req1 = HASH_DUMP \<and> n < 0 then Oops OutOfBounds st
      else if req1 = RET_CUR_SIZE then Ret (0, copy_to_user 0 (le64 (cur_size st)) (fs 0) um) st
      else if req1 = ALL_DUMP then Ret (0, dump_objs fs 0 (concat (ht530_tbl st)) um) st
      else Ret (0, um) st)"

section \<open>Module load and unload\<close>

definition ht530_init :: "int \<Rightarrow> bool \<Rightarrow> int \<Rightarrow> (int, ht530) cmd" where
  "ht530_init region_ret kmalloc_ok cdev_ret st =
     (let st1 = st\<lparr>ht530_tbl := replicate BUCKET_SIZE [], cur_size := 0\<rparr> in
      if 0 > region_ret then Ret (- EINVAL) st1
      else let st2 = st1\<lparr>resources := resources st1 \<union> {Region, ClassObj}\<rparr> in
      if \<not> kmalloc_ok then Oops NullDeref st2
      else let st3 = st2\<lparr>resources := resources st2 \<union> {DevStruct}\<rparr> in
      if cdev_ret \<noteq> 0 then Ret cdev_ret st3
      else Ret 0 (st3\<lparr>resources := resources st3 \<union> {CdevReg, DevNode}\<rparr>))"

text \<open>
  \<open>hash_for_each_safe\<close> with \<open>hash_del\<close> and \<open>kfree\<close>: every bucket loses its head node
  until it is empty; the freed nodes are collected in the order they are freed.
\<close>

fun free_bucket :: "ht_object list \<Rightarrow> ht_object list \<Rightarrow> ht_object list \<times> ht_object list" where
  "free_bucket freed [] = (freed, [])"
| "free_bucket freed (x # xs) = free_bucket (freed @ [x]) xs"

fun free_buckets ::
  "ht_object list \<Rightarrow> ht_object list list \<Rightarrow> ht_object list \<times> ht_object list list" where
  "free_buckets freed [] = (freed, [])"
| "free_buckets freed (b # bs) =
     (let (freed1, b') = free_bucket freed b; (freed2, bs') = free_buckets freed1 bs
      in (freed2, b' # bs'))"

definition ht530_exit :: "(ht_object list, ht530) cmd" where
  "ht530_exit st =
     (let (freed, tbl) =
        (if list_all (\<lambda>b. b = []) (ht530_tbl st) then ([], ht530_tbl st)
         else free_buckets [] (ht530_tbl st))
      in Ret freed (st\<lparr>ht530_tbl := tbl,
           resources := resources st - {Region, DevNode, CdevReg, DevStruct, ClassObj}\<rparr>))"

section \<open>What the table stands for\<close>

text \<open>The one fact about the kernel's hash function that the driver needs.\<close>

definition hash_ok :: "(s32 \<Rightarrow> nat \<Rightarrow> nat) \<Rightarrow> bool" where
  "hash_ok hash_min \<longleftrightarrow> (\<forall>k. hash_min k HT530_HT_BITS < BUCKET_SIZE)"

text \<open>
  Well-formed tables: 128 buckets, every node in the bucket of its key, no key twice in a
  bucket, no node with data 0, and the counter equal to the number of nodes.
\<close>

definition bucket_ok :: "(s32 \<Rightarrow> nat \<Rightarrow> nat) \<Rightarrow> nat \<Rightarrow> ht_object list \<Rightarrow> bool" where
  "bucket_ok hash_min b l \<longleftrightarrow>
     list_all (\<lambda>x. hash_min (key x) HT530_HT_BITS = b \<and> data x \<noteq> 0) l \<and> distinct (map key l)"

definition ht_inv :: "(s32 \<Rightarrow> nat \<Rightarrow> nat) \<Rightarrow> ht530 \<Rightarrow> bool" where
  "ht_inv hash_min st \<longleftrightarrow>
     length (ht530_tbl st) = BUCKET_SIZE
     \<and> list_all (\<lambda>b. bucket_ok hash_min b (ht530_tbl st ! b)) [0..<BUCKET_SIZE]
     \<and> cur_size st = of_nat (length (concat (ht530_tbl st)))"

definition ht_map :: "(s32 \<Rightarrow> nat \<Rightarrow> nat) \<Rightarrow> ht530 \<Rightarrow> s32 \<Rightarrow> s32 option" where
  "ht_map hash_min st k =
     map_of (map (\<lambda>x. (key x, data x)) (ht530_tbl st ! hash_min k HT530_HT_BITS)) k"

lemma ht_invI:
  assumes "length (ht530_tbl st) = BUCKET_SIZE"
    and "\<And>b. b < BUCKET_SIZE \<Longrightarrow> bucket_ok hm b (ht530_tbl st ! b)"
    and "cur_size st = of_nat (length (concat (ht530_tbl st)))"
  shows "ht_inv hm st"
  using assms by (simp add: ht_inv_def list_all_iff)

lemma ht_invD:
  assumes "ht_inv hm st"
  shows "length (ht530_tbl st) = BUCKET_SIZE"
    and "b < BUCKET_SIZE \<Longrightarrow> bucket_ok hm b (ht530_tbl st ! b)"
    and "cur_size st = of_nat (length (concat (ht530_tbl st)))"
  using assms by (auto simp: ht_inv_def list_all_iff)

lemma hash_okD: "hash_ok hm \<Longrightarrow> hm k HT530_HT_BITS < BUCKET_SIZE"
  by (simp add: hash_ok_def)

lemma length_bytes_of_obj [simp, image_simps]: "length (bytes_of_obj x) = 8"
  by (simp add: bytes_of_obj_def)

lemma obj_of_bytes_of_obj [simp, image_simps]: "obj_of_bytes (bytes_of_obj x) = x"
  by (simp add: obj_of_bytes_def bytes_of_obj_def)

section \<open>Searching a bucket\<close>

lemma hlist_scan_None [simp]: "hlist_scan k l = None \<longleftrightarrow> k \<notin> key ` set l"
  by (induction l) auto

lemma hlist_scan_Some:
  "hlist_scan k l = Some i \<Longrightarrow> i < length l \<and> key (l ! i) = k"
  by (induction l arbitrary: i) (auto split: if_splits)

lemma find_the_node_None:
  "find_the_node hm st k None = None \<longleftrightarrow> ht_map hm st k = None"
  by (auto simp: find_the_node_def find_the_bucket_def Let_def ht_map_def map_of_eq_None_iff
      image_image)

lemma find_the_node_Some:
  assumes "find_the_node hm st k None = Some (b, i)"
  shows "b = hm k HT530_HT_BITS" and "i < length (ht530_tbl st ! b)"
    and "key (ht530_tbl st ! b ! i) = k"
  using assms
  by (auto simp: find_the_node_def find_the_bucket_def Let_def dest: hlist_scan_Some
      split: if_splits)

lemma map_of_nth_distinct:
  assumes "distinct (map key l)" and "i < length l"
  shows "map_of (map (\<lambda>x. (key x, data x)) l) (key (l ! i)) = Some (data (l ! i))"
  using assms by (intro map_of_is_SomeI) (auto simp: comp_def)

lemma ht_map_find:
  assumes inv: "ht_inv hm st" and ok: "hash_ok hm"
    and p: "find_the_node hm st k None = Some (b, i)"
  shows "ht_map hm st k = Some (data (ht530_tbl st ! b ! i))"
proof -
  note f = find_the_node_Some [OF p]
  have "bucket_ok hm b (ht530_tbl st ! b)"
    using f(1) ok by (intro ht_invD(2) [OF inv]) (simp add: hash_okD)
  then have "distinct (map key (ht530_tbl st ! b))" by (simp add: bucket_ok_def)
  from map_of_nth_distinct [OF this f(2)] f show ?thesis by (simp add: ht_map_def)
qed

section \<open>Replacing one bucket\<close>

definition put_bucket :: "nat \<Rightarrow> ht_object list \<Rightarrow> u64 \<Rightarrow> ht530 \<Rightarrow> ht530" where
  "put_bucket b l c st = st\<lparr>ht530_tbl := (ht530_tbl st)[b := l], cur_size := c\<rparr>"

lemma put_bucket_inv:
  assumes inv: "ht_inv hm st" and b: "b < BUCKET_SIZE" and l: "bucket_ok hm b l"
    and c: "c + of_nat (length (ht530_tbl st ! b)) = cur_size st + of_nat (length l)"
  shows "ht_inv hm (put_bucket b l c st)"
proof (rule ht_invI)
  note d = ht_invD [OF inv]
  show "length (ht530_tbl (put_bucket b l c st)) = BUCKET_SIZE"
    using d by (simp add: put_bucket_def)
  show "bucket_ok hm b' (ht530_tbl (put_bucket b l c st) ! b')" if "b' < BUCKET_SIZE" for b'
    using that d l by (cases "b' = b") (simp_all add: put_bucket_def)
  have "of_nat (length (concat ((ht530_tbl st)[b := l])) + length (ht530_tbl st ! b))
      = (of_nat (length (concat (ht530_tbl st)) + length l) :: u64)"
    using b d(1) by (subst concat_update_mset_length) simp_all
  with c d(3) have "c = of_nat (length (concat ((ht530_tbl st)[b := l])))"
    by (metis add_right_cancel of_nat_add)
  then show "cur_size (put_bucket b l c st) =
      of_nat (length (concat (ht530_tbl (put_bucket b l c st))))"
    by (simp add: put_bucket_def)
qed

abbreviation pairs :: "ht_object list \<Rightarrow> s32 \<rightharpoonup> s32" where
  "pairs l \<equiv> map_of (map (\<lambda>x. (key x, data x)) l)"

lemma put_bucket_map:
  assumes "ht_inv hm st" and "hm k HT530_HT_BITS < BUCKET_SIZE"
    and "pairs l = (pairs (ht530_tbl st ! hm k HT530_HT_BITS))(k := v)"
  shows "ht_map hm (put_bucket (hm k HT530_HT_BITS) l c st) = (ht_map hm st)(k := v)"
proof
  fix k'
  show "ht_map hm (put_bucket (hm k HT530_HT_BITS) l c st) k' = ((ht_map hm st)(k := v)) k'"
    using ht_invD(1) [OF assms(1)] assms(2,3)
    by (cases "hm k' HT530_HT_BITS = hm k HT530_HT_BITS") (auto simp: ht_map_def put_bucket_def)
qed

text \<open>The three bucket updates a write can make keep the bucket well formed.\<close>

lemma bucket_ok_insert:
  "bucket_ok hm b l \<Longrightarrow> hm (key x) HT530_HT_BITS = b \<Longrightarrow> data x \<noteq> 0 \<Longrightarrow> key x \<notin> key ` set l
   \<Longrightarrow> bucket_ok hm b (x # l)"
  by (simp add: bucket_ok_def)

lemma bucket_ok_update:
  "bucket_ok hm b l \<Longrightarrow> i < length l \<Longrightarrow> key x = key (l ! i) \<Longrightarrow> data x \<noteq> 0
   \<Longrightarrow> bucket_ok hm b (l[i := x])"
  by (auto simp: bucket_ok_def list_all_iff map_update_same
      dest!: set_update_subset_insert [THEN subsetD])

lemma bucket_ok_delete:
  "bucket_ok hm b l \<Longrightarrow> bucket_ok hm b (take i l @ drop (Suc i) l)"
  using set_delete_nth [of i l] distinct_delete_nth [of "map key l" i]
  by (auto simp: bucket_ok_def list_all_iff take_map drop_map)

lemma map_of_update_nth:
  assumes "distinct (map key l)" and "i < length l" and "key x = key (l ! i)"
  shows "map_of (map (\<lambda>x. (key x, data x)) (l[i := x])) =
    (map_of (map (\<lambda>x. (key x, data x)) l))(key x \<mapsto> data x)"
  using assms
proof (induction l arbitrary: i)
  case (Cons y l)
  show ?case
  proof (cases i)
    case 0
    with Cons.prems show ?thesis by (auto simp: fun_eq_iff)
  next
    case (Suc j)
    with Cons.prems have "key (l ! j) \<noteq> key y" by (metis distinct.simps(2) length_Cons
          length_map list.simps(9) not_less_eq nth_map nth_mem)
    with Suc Cons.prems Cons.IH [of j] show ?thesis by (auto simp: fun_eq_iff)
  qed
qed simp

lemma map_of_delete_nth:
  assumes "distinct (map key l)" and "i < length l"
  shows "map_of (map (\<lambda>x. (key x, data x)) (take i l @ drop (Suc i) l)) =
    (map_of (map (\<lambda>x. (key x, data x)) l))(key (l ! i) := None)"
  using assms
proof (induction l arbitrary: i)
  case (Cons y l)
  show ?case
  proof (cases i)
    case 0
    with Cons.prems show ?thesis
      by (auto simp: fun_eq_iff map_of_eq_None_iff image_image)
  next
    case (Suc j)
    with Cons.prems have "key (l ! j) \<noteq> key y" by (metis distinct.simps(2) length_Cons
          length_map list.simps(9) not_less_eq nth_map nth_mem)
    with Suc Cons.prems Cons.IH [of j] show ?thesis by (auto simp: fun_eq_iff)
  qed
qed simp

section \<open>What a write does\<close>

text \<open>
  The state a complete write (no failing byte, memory available) leaves, by case: nothing
  to delete, insertion at the head of the bucket, update in place, removal.
\<close>

lemma write_absent_zero:
  assumes "ht_map hm st (key x) = None" and "data x = 0"
  shows "ht530_write hm km (bytes_of_obj x) 0 st = Ret 0 st"
  using assms by (simp add: ht530_write_def Let_def find_the_node_None [THEN iffD2])

lemma write_insert:
  assumes inv: "ht_inv hm st" and ok: "hash_ok hm"
    and "ht_map hm st (key x) = None" and "data x \<noteq> 0"
  shows "ht530_write hm (Some node) (bytes_of_obj x) 0 st =
    Ret 0 (put_bucket (hm (key x) HT530_HT_BITS)
      (x # ht530_tbl st ! hm (key x) HT530_HT_BITS) (cur_size st + 1) st)"
proof -
  have "find_the_node hm st (key x) None = None"
    using assms(3) by (simp add: find_the_node_None)
  moreover have "hm (key x) HT530_HT_BITS < length (ht530_tbl st)"
    using hash_okD [OF ok] ht_invD(1) [OF inv] by simp
  ultimately show ?thesis
    using assms(4)
    by (simp add: ht530_write_def Let_def ht530_store_def set_pair_def hash_add_def put_bucket_def)
qed

lemma write_update:
  assumes "find_the_node hm st (key x) None = Some (b, i)" and "data x \<noteq> 0"
  shows "ht530_write hm km (bytes_of_obj x) 0 st =
    Ret 0 (put_bucket b ((ht530_tbl st ! b)[i := x]) (cur_size st) st)"
  using assms by (simp add: ht530_write_def Let_def ht530_store_def set_pair_def put_bucket_def)

lemma write_delete:
  assumes "find_the_node hm st (key x) None = Some (b, i)" and "data x = 0"
  shows "ht530_write hm km (bytes_of_obj x) 0 st =
    Ret 0 (put_bucket b (take i (ht530_tbl st ! b) @ drop (Suc i) (ht530_tbl st ! b))
      (cur_size st - 1) st)"
  using assms by (simp add: ht530_write_def Let_def ht530_store_def hash_del_def put_bucket_def)

text \<open>Every one of these states is well formed and holds the updated map.\<close>

definition write_ok :: "(s32 \<Rightarrow> nat \<Rightarrow> nat) \<Rightarrow> ht530 \<Rightarrow> ht_object \<Rightarrow> ht530 \<Rightarrow> bool" where
  "write_ok hm st x st' \<longleftrightarrow> ht_inv hm st'
     \<and> ht_map hm st' = (ht_map hm st)(key x := (if data x = 0 then None else Some (data x)))"

lemma insert_ok:
  assumes inv: "ht_inv hm st" and ok: "hash_ok hm"
    and abs: "ht_map hm st (key x) = None" and nz: "data x \<noteq> 0"
  shows "write_ok hm st x (put_bucket (hm (key x) HT530_HT_BITS)
    (x # ht530_tbl st ! hm (key x) HT530_HT_BITS) (cur_size st + 1) st)"
proof -
  let ?h = "hm (key x) HT530_HT_BITS"
  let ?l = "ht530_tbl st ! ?h"
  have h: "?h < BUCKET_SIZE" using ok by (rule hash_okD)
  have "key x \<notin> key ` set ?l"
    using abs by (auto simp: ht_map_def map_of_eq_None_iff image_image)
  with ht_invD(2) [OF inv h] nz have "bucket_ok hm ?h (x # ?l)"
    by (intro bucket_ok_insert) auto
  with inv h nz show ?thesis
    by (auto simp: write_ok_def intro!: put_bucket_inv put_bucket_map)
qed

lemma update_ok:
  assumes inv: "ht_inv hm st" and ok: "hash_ok hm"
    and p: "find_the_node hm st (key x) None = Some (b, i)" and nz: "data x \<noteq> 0"
  shows "write_ok hm st x (put_bucket b ((ht530_tbl st ! b)[i := x]) (cur_size st) st)"
proof -
  note f = find_the_node_Some [OF p]
  have h: "b < BUCKET_SIZE" using f(1) ok by (simp add: hash_okD)
  have b: "bucket_ok hm b (ht530_tbl st ! b)" using inv h by (rule ht_invD)
  then have "pairs ((ht530_tbl st ! b)[i := x]) = (pairs (ht530_tbl st ! b))(key x \<mapsto> data x)"
    using f by (intro map_of_update_nth) (auto simp: bucket_ok_def)
  with inv h b f nz show ?thesis
    by (auto simp: write_ok_def intro!: put_bucket_inv put_bucket_map bucket_ok_update)
qed

lemma delete_ok:
  assumes inv: "ht_inv hm st" and ok: "hash_ok hm"
    and p: "find_the_node hm st (key x) None = Some (b, i)" and z: "data x = 0"
  shows "write_ok hm st x (put_bucket b
    (take i (ht530_tbl st ! b) @ drop (Suc i) (ht530_tbl st ! b)) (cur_size st - 1) st)"
    (is "write_ok hm st x (put_bucket b ?l' _ st)")
proof -
  note f = find_the_node_Some [OF p]
  have h: "b < BUCKET_SIZE" using f(1) ok by (simp add: hash_okD)
  have b: "bucket_ok hm b (ht530_tbl st ! b)" using inv h by (rule ht_invD)
  then have m: "pairs ?l' = (pairs (ht530_tbl st ! b))(key x := None)"
    using f map_of_delete_nth [of "ht530_tbl st ! b" i] by (simp add: bucket_ok_def)
  have "length (ht530_tbl st ! b) = Suc (length ?l')" using f by simp
  then have "ht_inv hm (put_bucket b ?l' (cur_size st - 1) st)"
    using inv h b by (intro put_bucket_inv bucket_ok_delete) simp_all
  with inv h m f z show ?thesis
    by (auto simp: write_ok_def simp del: map_append intro!: put_bucket_map)
qed

text \<open>One write, summed up: it returns 0, keeps the invariant and updates the map.\<close>

lemma write_spec:
  assumes inv: "ht_inv hm st" and ok: "hash_ok hm"
  shows "\<exists>st'. ht530_write hm (Some node) (bytes_of_obj x) 0 st = Ret 0 st' \<and> write_ok hm st x st'"
proof (cases "find_the_node hm st (key x) None")
  case None
  then have abs: "ht_map hm st (key x) = None" by (simp add: find_the_node_None)
  show ?thesis
  proof (cases "data x = 0")
    case True
    with abs inv show ?thesis by (auto simp: write_absent_zero write_ok_def fun_upd_idem)
  next
    case False
    from write_insert [OF inv ok abs False] insert_ok [OF inv ok abs False] show ?thesis by blast
  qed
next
  case (Some p)
  then obtain b i where p: "find_the_node hm st (key x) None = Some (b, i)" by (cases p) auto
  show ?thesis
    using write_delete [OF p] delete_ok [OF inv ok p] write_update [OF p] update_ok [OF inv ok p]
    by (cases "data x = 0") blast+
qed

section \<open>The driver as a key-value store\<close>

text \<open>A configuration fixes the hash function and the junk a fresh node contains.\<close>

type_synonym ht_cfg = "((s32 \<Rightarrow> nat \<Rightarrow> nat) \<times> ht_object) \<times> ht530"

fun drv_write :: "ht_cfg \<Rightarrow> s32 \<Rightarrow> s32 \<Rightarrow> ht_cfg" where
  "drv_write ((hm, node), st) k v =
     ((hm, node), state_of (ht530_write hm (Some node) (bytes_of_obj \<lparr>key = k, data = v\<rparr>) 0 st))"

fun drv_lookup :: "ht_cfg \<Rightarrow> s32 \<Rightarrow> s32 option" where
  "drv_lookup ((hm, node), st) = ht_map hm st"

fun drv_inv :: "ht_cfg \<Rightarrow> bool" where
  "drv_inv ((hm, node), st) \<longleftrightarrow> hash_ok hm \<and> ht_inv hm st"

interpretation ht: kv_store drv_write drv_lookup drv_inv
proof
  fix c :: ht_cfg and k v
  obtain hm node st where c: "c = ((hm, node), st)" by (metis prod.collapse)
  assume "drv_inv c"
  then obtain st' where w:
    "ht530_write hm (Some node) (bytes_of_obj \<lparr>key = k, data = v\<rparr>) 0 st = Ret 0 st'"
    "write_ok hm st \<lparr>key = k, data = v\<rparr> st'" "hash_ok hm"
    using write_spec [of hm st node "\<lparr>key = k, data = v\<rparr>"] c by auto
  show "drv_inv (drv_write c k v)" using w by (simp add: c write_ok_def)
  show "drv_lookup (drv_write c k v) = (drv_lookup c)(k := (if v = 0 then None else Some v))"
    using w by (simp add: c write_ok_def)
qed

text \<open>A list of writes, made one after the other through the device.\<close>

fun ht530_writes ::
  "(s32 \<Rightarrow> nat \<Rightarrow> nat) \<Rightarrow> ht_object \<Rightarrow> (s32 \<times> s32) list \<Rightarrow> ht530 \<Rightarrow> ht530" where
  "ht530_writes hm node [] st = st"
| "ht530_writes hm node ((k, v) # kvs) st =
     ht530_writes hm node kvs
       (state_of (ht530_write hm (Some node) (bytes_of_obj \<lparr>key = k, data = v\<rparr>) 0 st))"

lemma ht530_writes_wr_all:
  "((hm, node), ht530_writes hm node kvs st) = ht.wr_all ((hm, node), st) kvs"
  by (induction kvs arbitrary: st) (auto simp: ht.wr_all_def)

lemma writes_inv: "hash_ok hm \<Longrightarrow> ht_inv hm st \<Longrightarrow> ht_inv hm (ht530_writes hm node kvs st)"
  using ht.wr_all_invar [of "((hm, node), st)" kvs] by (simp add: ht530_writes_wr_all [symmetric])

lemma writes_map:
  assumes "hash_ok hm" and "ht_inv hm st"
  shows "ht_map hm (ht530_writes hm node kvs st) k =
    (case map_of (rev kvs) k of
       None \<Rightarrow> ht_map hm st k | Some v \<Rightarrow> if v = 0 then None else Some v)"
  using ht.lk_wr_all [of "((hm, node), st)" kvs k] assms
  by (simp add: ht530_writes_wr_all [symmetric] split: option.split)

lemma read_spec:
  assumes inv: "ht_inv hm st" and ok: "hash_ok hm"
  shows "ht530_read hm (bytes_of_obj x) 8 0 0 st =
    (case ht_map hm st (key x) of
       None \<Rightarrow> Ret (- EINVAL, bytes_of_obj x) st
     | Some d \<Rightarrow> Ret (8, bytes_of_obj \<lparr>key = key x, data = d\<rparr>) st)"
proof (cases "find_the_node hm st (key x) None")
  case None
  then have "ht_map hm st (key x) = None" by (simp add: find_the_node_None)
  with None show ?thesis by (simp add: ht530_read_def Let_def)
next
  case (Some p)
  then obtain b i where p: "find_the_node hm st (key x) None = Some (b, i)" by (cases p) auto
  have "ht530_tbl st ! b ! i = \<lparr>key = key x, data = data (ht530_tbl st ! b ! i)\<rparr>"
    using find_the_node_Some(3) [OF p] by simp
  with p ht_map_find [OF inv ok p] show ?thesis
    by (simp add: ht530_read_def Let_def copy_to_user_def)
qed

lemma init_inv:
  assumes "ht530_init r m c st = Ret v st'" and "hash_ok hm"
  shows "ht_inv hm st'" and "ht_map hm st' = Map.empty"
proof -
  have t: "ht530_tbl st' = replicate BUCKET_SIZE []" "cur_size st' = 0"
    using assms(1) by (auto simp: ht530_init_def Let_def split: if_splits)
  then show "ht_inv hm st'" by (simp add: ht_inv_def bucket_ok_def list_all_iff)
  show "ht_map hm st' = Map.empty"
    using hash_okD [OF assms(2)] by (simp add: fun_eq_iff ht_map_def t)
qed

section \<open>Dumping the table\<close>

lemma length_dump_objs [simp]:
  "8 * (i + length xs) \<le> length um \<Longrightarrow> length (dump_objs fs i xs um) = length um"
  by (induction fs i xs um rule: dump_objs.induct) simp_all

lemma dump_objs_frame:
  assumes "8 * (i + length xs) \<le> length um" and "j < i"
  shows "take 8 (drop (8 * j) (dump_objs (\<lambda>_. 0) i xs um)) = take 8 (drop (8 * j) um)"
  using assms
proof (induction xs arbitrary: i um)
  case (Cons x xs)
  let ?um = "copy_to_user (8 * i) (bytes_of_obj x) 0 um"
  have "take 8 (drop (8 * j) (dump_objs (\<lambda>_. 0) (Suc i) xs ?um)) = take 8 (drop (8 * j) ?um)"
    using Cons.prems by (intro Cons.IH) simp_all
  also have "\<dots> = take 8 (drop (8 * j) um)"
    using Cons.prems by (intro copy_to_user_frame) simp_all
  finally show ?case by simp
qed simp

lemma dump_objs_nth:
  assumes "8 * (i + length xs) \<le> length um" and "j < length xs"
  shows "obj_of_bytes (take 8 (drop (8 * (i + j)) (dump_objs (\<lambda>_. 0) i xs um))) = xs ! j"
  using assms
proof (induction xs arbitrary: i j um)
  case (Cons x xs)
  let ?um = "copy_to_user (8 * i) (bytes_of_obj x) 0 um"
  show ?case
  proof (cases j)
    case 0
    have "take 8 (drop (8 * i) (dump_objs (\<lambda>_. 0) (Suc i) xs ?um)) = take 8 (drop (8 * i) ?um)"
      using Cons.prems by (intro dump_objs_frame) simp_all
    also have "\<dots> = bytes_of_obj x"
      using copy_to_user_window [of "8 * i" "bytes_of_obj x" um] Cons.prems by simp
    finally show ?thesis using 0 by simp
  next
    case (Suc k)
    with Cons.prems Cons.IH [of "Suc i" ?um k] show ?thesis by simp
  qed
qed simp

lemma concat_keys_distinct:
  assumes "ht_inv hm st"
  shows "distinct (map key (concat (ht530_tbl st)))"
proof -
  have "bucket_ok hm b (ht530_tbl st ! b)" if "b < length (ht530_tbl st)" for b
    using ht_invD(1,2) [OF assms] that by simp
  then have "distinct (concat (map (map key) (ht530_tbl st)))"
    by (intro distinct_concat_hashed [where h = "\<lambda>k. hm k HT530_HT_BITS"])
       (auto simp: bucket_ok_def list_all_iff)
  then show ?thesis by (simp add: map_concat)
qed

lemma cur_size_exact:
  assumes "ht_inv hm st"
  shows "unat (cur_size st) = length (concat (ht530_tbl st))"
proof -
  have "length (concat (ht530_tbl st)) \<le> 2 ^ 32"
    using distinct_words_bound [OF concat_keys_distinct [OF assms]] by simp
  then show ?thesis
    using ht_invD(3) [OF assms] by (simp add: unat_of_nat)
qed

lemma pairs_concat:
  assumes "ht_inv hm st" and "hash_ok hm"
  shows "pairs (concat (ht530_tbl st)) = ht_map hm st"
proof
  fix k
  let ?b = "hm k HT530_HT_BITS"
  have d: "distinct (map fst (map (\<lambda>x. (key x, data x)) (concat (ht530_tbl st))))"
    using concat_keys_distinct [OF assms(1)] by (simp add: comp_def)
  have b: "?b < length (ht530_tbl st)" "bucket_ok hm ?b (ht530_tbl st ! ?b)"
    using ht_invD(1,2) [OF assms(1)] hash_okD [OF assms(2)] by simp_all
  have in_b: "x \<in> set (ht530_tbl st ! ?b)" if x: "x \<in> set (concat (ht530_tbl st))" "key x = k" for x
  proof -
    from x obtain b' where "b' < length (ht530_tbl st)" "x \<in> set (ht530_tbl st ! b')"
      by (metis in_set_conv_nth set_concat UN_E)
    with ht_invD(1,2) [OF assms(1)] x show ?thesis by (force simp: bucket_ok_def list_all_iff)
  qed
  show "pairs (concat (ht530_tbl st)) k = ht_map hm st k"
  proof (cases "pairs (ht530_tbl st ! ?b) k")
    case None
    then have "k \<notin> key ` set (concat (ht530_tbl st))"
      using in_b by (auto simp: map_of_eq_None_iff image_image)
    then have "pairs (concat (ht530_tbl st)) k = None"
      by (auto simp: map_of_eq_None_iff image_image)
    with None show ?thesis by (simp add: ht_map_def)
  next
    case (Some d)
    from map_of_SomeD [OF this]
    obtain x where "x \<in> set (ht530_tbl st ! ?b)" "key x = k" "data x = d" by auto
    with b(1) have "(k, d) \<in> set (map (\<lambda>x. (key x, data x)) (concat (ht530_tbl st)))"
      by (auto intro!: image_eqI [where x = x] bexI [where x = "ht530_tbl st ! ?b"])
    with d Some show ?thesis by (simp add: ht_map_def)
  qed
qed

section \<open>Unloading\<close>

lemma free_bucket_eq [simp]: "free_bucket freed l = (freed @ l, [])"
  by (induction freed l rule: free_bucket.induct) simp_all

lemma free_buckets_eq [simp]:
  "free_buckets freed bs = (freed @ concat bs, replicate (length bs) [])"
  by (induction freed bs rule: free_buckets.induct) simp_all

lemma all_empty_replicate: "list_all (\<lambda>b. b = []) bs \<Longrightarrow> bs = replicate (length bs) [] \<and> concat bs = []"
  by (induction bs) auto

lemma exit_spec:
  "ht530_exit st = Ret (concat (ht530_tbl st))
     (st\<lparr>ht530_tbl := replicate (length (ht530_tbl st)) [], resources := {}\<rparr>)"
proof -
  have r: "resources st - {Region, DevNode, CdevReg, DevStruct, ClassObj} = {}"
    using kres.exhaust by blast
  show ?thesis
    using all_empty_replicate [of "ht530_tbl st"]
    by (auto simp: ht530_exit_def Let_def r)
qed

lemma bzero_eq: "bzero t n = (if n \<le> length t then Some (replicate n 0 @ drop n t) else None)"
  by (induction t n rule: bzero.induct) auto

lemmas ht530_cmds = ALL_DUMP_def HASH_DUMP_def RET_CUR_SIZE_def IOC_def

section \<open>Properties\<close>

text \<open>A concrete hash function and an empty table, for the instances below.\<close>

definition mod_hash :: "s32 \<Rightarrow> nat \<Rightarrow> nat" where
  "mod_hash k bits = unat k mod 2 ^ bits"

definition empty_ht :: ht530 where
  "empty_ht = \<lparr>ht530_tbl = replicate BUCKET_SIZE [], cur_size = 0, for_mprobe_test1 = 0,
     for_mprobe_test2 = 0, resources = {}\<rparr>"

lemma mod_hash_ok: "hash_ok mod_hash"
  by (simp add: hash_ok_def mod_hash_def)

lemma empty_ht_inv: "ht_inv hm empty_ht"
  by (simp add: ht_inv_def empty_ht_def bucket_ok_def list_all_iff)

text \<open>
  (C3) A complete write through the device returns 0, keeps the table well formed, and
  changes the map the table stands for in exactly one place: writing data 0 removes the
  key, writing other data binds the key to it.
\<close>

theorem ht530_write_refines_map:
  assumes "hash_ok hash_min" and "ht_inv hash_min st"
  shows "\<exists>st'. ht530_write hash_min (Some node) (bytes_of_obj x) 0 st = Ret 0 st'
    \<and> ht_inv hash_min st'
    \<and> ht_map hash_min st' =
        (ht_map hash_min st)(key x := (if data x = 0 then None else Some (data x)))"
  using write_spec [OF assms(2,1), of node x] by (auto simp: write_ok_def)

text \<open>
  (C4) After any sequence of writes a read of a key returns all eight bytes of the pair
  with the data of the last write to that key; a key whose last write was a deletion gives
  \<open>-EINVAL\<close> and leaves the user's buffer alone.
\<close>

theorem ht530_read_last_write:
  assumes "hash_ok hash_min" and "ht_inv hash_min st"
    and "map_of (rev kvs) k = Some v"
  shows "ht530_read hash_min (bytes_of_obj \<lparr>key = k, data = d\<rparr>) 8 0 0
      (ht530_writes hash_min node kvs st) =
    (if v = 0
     then Ret (- EINVAL, bytes_of_obj \<lparr>key = k, data = d\<rparr>) (ht530_writes hash_min node kvs st)
     else Ret (8, bytes_of_obj \<lparr>key = k, data = v\<rparr>) (ht530_writes hash_min node kvs st))"
  using read_spec [OF writes_inv [OF assms(1,2)] assms(1)] writes_map [OF assms(1,2)] assms(3)
  by simp

text \<open>
  \<open>RET_CUR_SIZE\<close> reports exactly the number of stored objects, and \<open>ALL_DUMP\<close>
  into an array of that many objects fills it with the contents of the table: the array
  read back is, as a map, the map the table stands for, and no key occurs twice.
\<close>

lemma ht530_dump_complete:
  assumes "hash_ok hash_min" and "ht_inv hash_min st" and "8 \<le> length um0"
  shows "\<exists>um1. ht530_unlocked_ioctl RET_CUR_SIZE um0 0 (\<lambda>_. 0) st = Ret (0, um1) st
    \<and> (\<forall>um n. n = unat (of_le64 (take 8 um1)) \<longrightarrow> 8 * n \<le> length um \<longrightarrow>
         (\<exists>um' objs. ht530_unlocked_ioctl ALL_DUMP um 0 (\<lambda>_. 0) st = Ret (0, um') st
           \<and> objs = map (\<lambda>i. obj_of_bytes (take 8 (drop (8 * i) um'))) [0..<n]
           \<and> length um' = length um \<and> distinct (map key objs)
           \<and> map_of (map (\<lambda>x. (key x, data x)) objs) = ht_map hash_min st))"
proof -
  let ?xs = "concat (ht530_tbl st)"
  let ?um1 = "copy_to_user 0 (le64 (cur_size st)) 0 um0"
  have n: "unat (of_le64 (take 8 ?um1)) = length ?xs"
    using copy_to_user_window [of 0 "le64 (cur_size st)" um0] assms(3) cur_size_exact [OF assms(2)]
    by simp
  have objs_eq: "map (\<lambda>i. obj_of_bytes (take 8 (drop (8 * i) (dump_objs (\<lambda>_. 0) 0 ?xs um))))
      [0..<length ?xs] = ?xs" if "8 * length ?xs \<le> length um" for um
    using that dump_objs_nth [of 0 ?xs um] by (intro nth_equalityI) auto
  have size: "ht530_unlocked_ioctl RET_CUR_SIZE um0 0 (\<lambda>_. 0) st = Ret (0, ?um1) st"
    by (simp add: ht530_unlocked_ioctl_def Let_def ht530_cmds)
  have dump: "ht530_unlocked_ioctl ALL_DUMP um 0 (\<lambda>_. 0) st = Ret (0, dump_objs (\<lambda>_. 0) 0 ?xs um) st"
    for um by (simp add: ht530_unlocked_ioctl_def Let_def ht530_cmds)
  from concat_keys_distinct [OF assms(2)] pairs_concat [OF assms(2,1)] show ?thesis
    by (intro exI [of _ ?um1]) (auto simp: size dump n objs_eq simp del: map_map)
qed

text \<open>
  The size the driver is asked for by the reader is not checked against the size of a
  node: reading an existing key with a count above 8 copies bytes from beyond the node.
\<close>

lemma ht530_read_over_read:
  assumes "hash_ok hash_min" and "ht_inv hash_min st"
    and "ht_map hash_min st (key x) = Some d" and "8 < count"
  shows "ht530_read hash_min (bytes_of_obj x) count 0 f2 st = Oops OutOfBounds st"
proof -
  obtain p where "find_the_node hash_min st (key x) None = Some p"
    using assms(3) find_the_node_None [of hash_min st "key x"] by auto
  with assms(4) show ?thesis by (cases p) (simp add: ht530_read_def Let_def)
qed

text \<open>
  A write whose copy from user space fails on all eight bytes is not reported: the
  driver goes on with a zeroed request, which deletes key 0.
\<close>

lemma ht530_write_failed_copy_deletes_zero:
  "ht530_write hash_min km buf 8 st =
   ht530_write hash_min km (bytes_of_obj \<lparr>key = 0, data = 0\<rparr>) 0 st"
proof -
  have "obj_of_bytes (copy_from_user 8 8 buf) = \<lparr>key = 0, data = 0\<rparr>"
    by (simp add: copy_from_user_def obj_of_bytes_def of_le32_def)
  then show ?thesis by (simp add: ht530_write_def Let_def)
qed

text \<open>
  \<open>HASH_DUMP\<close> on every bucket number: numbers from 128 on are refused, negative
  ones read outside the table, and on a valid bucket the call succeeds but writes nothing
  to user memory.
\<close>

lemma ht530_hash_dump_behaviour:
  "ht530_unlocked_ioctl HASH_DUMP um 0 fs st =
    (let n = sint (of_le32 (take 4 (copy_from_user 68 0 um))) in
     if n \<ge> 128 then Ret (- EINVAL, um) st
     else if n < 0 then Oops OutOfBounds st
     else Ret (0, um) st)"
  by (simp add: ht530_unlocked_ioctl_def Let_def ht530_cmds)

text \<open>
  Loading the module, making any writes and unloading it again frees every node
  exactly once, leaves all buckets empty and gives back every kernel resource.
\<close>

lemma ht530_load_unload:
  assumes "hash_ok hash_min" and "0 \<le> region_ret"
  shows "\<exists>st1 st2 freed st3. ht530_init region_ret True 0 st = Ret 0 st1
    \<and> st2 = ht530_writes hash_min node kvs st1
    \<and> ht530_exit st2 = Ret freed st3
    \<and> length freed = unat (cur_size st2) \<and> distinct (map key freed)
    \<and> map_of (map (\<lambda>x. (key x, data x)) freed) = ht_map hash_min st2
    \<and> ht530_tbl st3 = replicate 128 [] \<and> resources st3 = {}"
proof -
  obtain st1 where st1: "ht530_init region_ret True 0 st = Ret 0 st1"
    using assms(2) by (simp add: ht530_init_def Let_def)
  define st2 where "st2 = ht530_writes hash_min node kvs st1"
  have inv: "ht_inv hash_min st2"
    using init_inv(1) [OF st1 assms(1)] assms(1) by (simp add: st2_def writes_inv)
  have "ht530_exit st2 = Ret (concat (ht530_tbl st2))
      (st2\<lparr>ht530_tbl := replicate 128 [], resources := {}\<rparr>)"
    using ht_invD(1) [OF inv] by (simp add: exit_spec)
  with st1 st2_def inv assms(1) show ?thesis
    by (auto simp: cur_size_exact concat_keys_distinct pairs_concat)
qed

text \<open>
  When \<open>cdev_add\<close> fails, \<open>ht530_init\<close> returns its error without undoing what
  it had acquired: the device region, the class and the device structure stay allocated.
\<close>

lemma ht530_init_error_leaks:
  assumes "0 \<le> region_ret" and "cdev_ret \<noteq> 0"
  shows "\<exists>st'. ht530_init region_ret True cdev_ret st = Ret cdev_ret st'
    \<and> resources st' = resources st \<union> {Region, ClassObj, DevStruct}"
  using assms by (auto simp: ht530_init_def Let_def)

section \<open>Instances\<close>

theorem ht530_write_refines_map_witness:
  "\<exists>st'. ht530_write mod_hash (Some \<lparr>key = 1, data = 1\<rparr>) (bytes_of_obj \<lparr>key = 5, data = 7\<rparr>) 0 empty_ht
      = Ret 0 st' \<and> ht_inv mod_hash st' \<and> ht_map mod_hash st' 5 = Some 7"
  using ht530_write_refines_map [OF mod_hash_ok empty_ht_inv, of "\<lparr>key = 1, data = 1\<rparr>" "\<lparr>key = 5, data = 7\<rparr>"]
  by auto

theorem ht530_read_last_write_witness:
  "\<exists>st. ht530_read mod_hash (bytes_of_obj \<lparr>key = 5, data = 0\<rparr>) 8 0 0 st =
     Ret (8, bytes_of_obj \<lparr>key = 5, data = 9\<rparr>) st"
  using ht530_read_last_write [OF mod_hash_ok empty_ht_inv, of "[(5, 7), (6, 1), (5, 9)]" 5 9 0
      "\<lparr>key = 1, data = 1\<rparr>"]
  by auto

lemma ht530_dump_complete_example:
  "\<exists>um1. ht530_unlocked_ioctl RET_CUR_SIZE (replicate 8 0) 0 (\<lambda>_. 0)
     (ht530_writes mod_hash \<lparr>key = 1, data = 1\<rparr> [(5, 7), (133, 8)] empty_ht) =
     Ret (0, um1) (ht530_writes mod_hash \<lparr>key = 1, data = 1\<rparr> [(5, 7), (133, 8)] empty_ht)"
  using ht530_dump_complete [OF mod_hash_ok writes_inv [OF mod_hash_ok empty_ht_inv],
      of "replicate 8 0" "\<lparr>key = 1, data = 1\<rparr>" "[(5, 7), (133, 8)]"]
  by auto

lemma ht530_read_over_read_example:
  "\<exists>st. ht530_read mod_hash (bytes_of_obj \<lparr>key = 5, data = 0\<rparr>) 100 0 0 st = Oops OutOfBounds st"
proof -
  let ?st = "ht530_writes mod_hash \<lparr>key = 1, data = 1\<rparr> [(5, 7)] empty_ht"
  have "ht_map mod_hash ?st (key \<lparr>key = 5, data = 0\<rparr>) = Some 7"
    using writes_map [OF mod_hash_ok empty_ht_inv, of "\<lparr>key = 1, data = 1\<rparr>" "[(5, 7)]" 5] by simp
  from ht530_read_over_read [OF mod_hash_ok writes_inv [OF mod_hash_ok empty_ht_inv] this, of 100 0]
  show ?thesis by auto
qed

lemma ht530_load_unload_example:
  "\<exists>st1 st2 freed st3. ht530_init 0 True 0 empty_ht = Ret 0 st1
    \<and> st2 = ht530_writes mod_hash \<lparr>key = 1, data = 1\<rparr> [(5, 7), (6, 8)] st1
    \<and> ht530_exit st2 = Ret freed st3 \<and> resources st3 = {}"
  using ht530_load_unload [OF mod_hash_ok, of 0 empty_ht "\<lparr>key = 1, data = 1\<rparr>" "[(5, 7), (6, 8)]"]
  by auto

lemma ht530_init_error_leaks_example:
  "\<exists>st'. ht530_init 0 True (- 12) empty_ht = Ret (- 12) st'
    \<and> resources st' = {Region, ClassObj, DevStruct}"
  using ht530_init_error_leaks [of 0 "- 12" empty_ht] by (simp add: empty_ht_def)

end
