(* ===== verification/Ht530_Test.thy ===== *)
theory Ht530_Test
  imports Ht530 "HOL-Library.Multiset"
begin

text \<open>
  The program \<open>general_driver/ht530-test.c\<close> on top of the driver of \<open>Ht530\<close>: four threads
  that fill the table and then add, delete and search at random, under three mutexes, and a
  main thread that creates them, joins them and prints a dump of the table. The program is a
  machine with one program counter per thread; every access to something shared (a mutex, a
  counter, the device, the output) is a step of its own and the steps of the threads
  interleave in any order. Shown: the bounds of the two counters, that no schedule runs
  for more than 2946 steps or gets stuck before the end, and what is printed.
\<close>

section \<open>State\<close>

text \<open>What a thread asks the driver for: \<open>ADD\<close> and \<open>DELETE\<close> write, \<open>SEARCH\<close> reads.\<close>

datatype req = Wr s32 s32 | Rd s32

abbreviation ADD :: "s32 \<Rightarrow> s32 \<Rightarrow> req" where "ADD k v \<equiv> Wr k v"
abbreviation DELETE :: "s32 \<Rightarrow> req" where "DELETE k \<equiv> Wr k 0"
abbreviation SEARCH :: "s32 \<Rightarrow> req" where "SEARCH k \<equiv> Rd k"

abbreviation (input) DO_ADD :: int where "DO_ADD \<equiv> 1"
abbreviation (input) DO_DELETE :: int where "DO_DELETE \<equiv> 2"
abbreviation (input) DO_SEARCH :: int where "DO_SEARCH \<equiv> 3"
abbreviation ThreadNum :: nat where "ThreadNum \<equiv> 4"

text \<open>
  Where a thread of \<open>thread_exec\<close> is. The flag of the \<open>Op\<close> positions says in which of the
  two loops the request was made. \<open>Killed\<close>: the kernel faulted in the middle of a call.
\<close>

datatype tpc =
    Unborn | Start
  | Fill_lock | Fill_test | Fill_inc | Fill_unlock | Fill_break
  | Later_lock | Later_test | Later_inc | Later_unlock | Later_return
  | Op_lock bool req | Op_call bool req | Op_unlock bool req ht_object | Op_print bool req ht_object
  | Finished | Killed

datatype mpc =
    Create nat | Join nat | Ask_size | Ask_dump u64 | Print u64 nat "byte list" | Main_done | Exited

text \<open>The lines the program prints.\<close>

datatype line =
    Fail_open | I_am_thread nat
  | Write_line s32 s32 | Delete_line s32 s32 | Read_line s32 s32
  | Current_size u64 | Dump_line nat s32 s32

record tsys =
  fd_ok :: bool
  dev :: ht530
  fill_cnt :: int
  later_cnt :: int
  fill_cnt_mtx :: "nat option"
  later_cnt_mtx :: "nat option"
  mtx :: "nat option"
  tpcs :: "tpc list"
  main_pc :: mpc
  out :: "line list"

text \<open>
  The kernel around the program: the hash function, the allocator (contents of a fresh node,
  or failure), and the memory \<open>malloc\<close> returns for the dump.
\<close>

record tenv =
  hash_of :: "s32 \<Rightarrow> nat \<Rightarrow> nat"
  kmalloc_of :: "ht_object option"
  malloc_of :: "nat \<Rightarrow> byte list"

section \<open>Steps of a thread\<close>

definition RAND_SCALE :: "nat \<Rightarrow> int \<Rightarrow> int \<Rightarrow> int" where
  "RAND_SCALE rand lo hi = int rand mod (hi + 1 - lo) + lo"

text \<open>The request of the later part: three calls of \<open>rand()\<close> at most.\<close>

definition later_act :: "nat \<times> nat \<times> nat \<Rightarrow> req option" where
  "later_act rs = (case rs of (r0, r1, r2) \<Rightarrow>
     let act = RAND_SCALE r0 DO_ADD DO_SEARCH; k = word_of_int (RAND_SCALE r1 1 200) in
     if act = DO_ADD then Some (ADD k (word_of_int (RAND_SCALE r2 1 200)))
     else if act = DO_DELETE then Some (DELETE k)
     else if act = DO_SEARCH then Some (SEARCH k)
     else None)"

text \<open>The object a request passes by reference, and the system call made with it.\<close>

fun req_obj :: "req \<Rightarrow> ht_object" where
  "req_obj (Wr k v) = \<lparr>key = k, data = v\<rparr>"
| "req_obj (Rd k) = \<lparr>key = k, data = 0\<rparr>"

text \<open>
  \<open>write(dev_fd, \<dots>)\<close> and \<open>read(dev_fd, \<dots>)\<close>: the object after the call. On a descriptor
  that is not open the call fails and changes nothing.
\<close>

fun dev_call :: "tenv \<Rightarrow> req \<Rightarrow> bool \<Rightarrow> (ht_object, ht530) cmd" where
  "dev_call env r False st = Ret (req_obj r) st"
| "dev_call env (Wr k v) True st =
     bnd (ht530_write (hash_of env) (kmalloc_of env) (bytes_of_obj (req_obj (Wr k v))) 0)
       (\<lambda>_. ret (req_obj (Wr k v))) st"
| "dev_call env (Rd k) True st =
     bnd (ht530_read (hash_of env) (bytes_of_obj (req_obj (Rd k))) 8 0 0)
       (\<lambda>(_, buf). ret (obj_of_bytes buf)) st"

definition op_line :: "req \<Rightarrow> ht_object \<Rightarrow> line" where
  "op_line r x =
     (case r of
        Wr _ _ \<Rightarrow> if data x = 0 then Delete_line (key x) (data x) else Write_line (key x) (data x)
      | Rd _ \<Rightarrow> Read_line (key x) (data x))"

definition goto_pc :: "nat \<Rightarrow> tpc \<Rightarrow> tsys \<Rightarrow> tsys" where
  "goto_pc t p s = s\<lparr>tpcs := (tpcs s)[t := p]\<rparr>"

abbreviation loop_head :: "bool \<Rightarrow> tpc" where
  "loop_head later \<equiv> (if later then Later_lock else Fill_lock)"

text \<open>
  One step of thread \<open>t\<close>; \<open>rs\<close> are the values \<open>rand()\<close> returns, should the step
  call it. \<open>None\<close>: the thread waits for a mutex, has not started or has ended.
\<close>

definition thread_exec :: "tenv \<Rightarrow> nat \<Rightarrow> nat \<times> nat \<times> nat \<Rightarrow> tsys \<Rightarrow> tsys option" where
  "thread_exec env t rs s =
    (case tpcs s ! t of
       Unborn \<Rightarrow> None
     | Start \<Rightarrow> Some (goto_pc t Fill_lock (s\<lparr>out := out s @ [I_am_thread (t + 1)]\<rparr>))
     | Fill_lock \<Rightarrow>
         if fill_cnt_mtx s \<noteq> None then None
         else Some (goto_pc t Fill_test (s\<lparr>fill_cnt_mtx := Some t\<rparr>))
     | Fill_test \<Rightarrow> Some (goto_pc t (if 200 \<le> fill_cnt s then Fill_break else Fill_inc) s)
     | Fill_break \<Rightarrow> Some (goto_pc t Later_lock (s\<lparr>fill_cnt_mtx := None\<rparr>))
     | Fill_inc \<Rightarrow> Some (goto_pc t Fill_unlock (s\<lparr>fill_cnt := fill_cnt s + 1\<rparr>))
     | Fill_unlock \<Rightarrow>
         (case rs of (_, r1, r2) \<Rightarrow>
            Some (goto_pc t (Op_lock False (ADD (word_of_int (RAND_SCALE r1 1 200))
                    (word_of_int (RAND_SCALE r2 1 200)))) (s\<lparr>fill_cnt_mtx := None\<rparr>)))
     | Later_lock \<Rightarrow>
         if later_cnt_mtx s \<noteq> None then None
         else Some (goto_pc t Later_test (s\<lparr>later_cnt_mtx := Some t\<rparr>))
     | Later_test \<Rightarrow> Some (goto_pc t (if 100 \<le> later_cnt s then Later_return else Later_inc) s)
     | Later_return \<Rightarrow> Some (goto_pc t Finished (s\<lparr>later_cnt_mtx := None\<rparr>))
     | Later_inc \<Rightarrow> Some (goto_pc t Later_unlock (s\<lparr>later_cnt := later_cnt s + 1\<rparr>))
     | Later_unlock \<Rightarrow>
         Some (goto_pc t (case later_act rs of None \<Rightarrow> Later_lock | Some r \<Rightarrow> Op_lock True r)
           (s\<lparr>later_cnt_mtx := None\<rparr>))
     | Op_lock l r \<Rightarrow>
         if mtx s \<noteq> None then None
         else Some (goto_pc t (Op_call l r) (s\<lparr>mtx := Some t\<rparr>))
     | Op_call l r \<Rightarrow>
         (case dev_call env r (fd_ok s) (dev s) of
            Ret x d \<Rightarrow> Some (goto_pc t (Op_unlock l r x) (s\<lparr>dev := d\<rparr>))
          | Oops e d \<Rightarrow> Some (goto_pc t Killed (s\<lparr>dev := d\<rparr>)))
     | Op_unlock l r x \<Rightarrow> Some (goto_pc t (Op_print l r x) (s\<lparr>mtx := None\<rparr>))
     | Op_print l r x \<Rightarrow>
         Some (goto_pc t (loop_head l) (s\<lparr>out := out s @ [op_line r x]\<rparr>))
     | Finished \<Rightarrow> None
     | Killed \<Rightarrow> None)"

section \<open>Steps of the main thread\<close>

text \<open>
  The loops of \<open>part1_execute\<close>: \<open>cret\<close> is what \<open>pthread_create\<close> returns; on an error the
  program exits with all its threads. Joining waits for the thread to end (a thread the
  kernel killed has ended, too).
\<close>

definition part1_execute :: "int \<Rightarrow> tsys \<Rightarrow> tsys option" where
  "part1_execute cret s =
    (case main_pc s of
       Create i \<Rightarrow>
         if i < ThreadNum then
           if 0 \<noteq> cret then Some (s\<lparr>main_pc := Exited\<rparr>)
           else Some (goto_pc i Start (s\<lparr>main_pc := Create (i + 1)\<rparr>))
         else Some (s\<lparr>main_pc := Join 0\<rparr>)
     | Join i \<Rightarrow>
         if i < ThreadNum then
           if tpcs s ! i \<in> {Finished, Killed} then Some (s\<lparr>main_pc := Join (i + 1)\<rparr>) else None
         else Some (s\<lparr>main_pc := Ask_size\<rparr>)
     | _ \<Rightarrow> None)"

text \<open>An \<open>ioctl\<close> on the descriptor: the memory at the argument after the call.\<close>

definition dev_ioctl :: "u32 \<Rightarrow> byte list \<Rightarrow> tsys \<Rightarrow> byte list" where
  "dev_ioctl req um s =
     (if fd_ok s then
        (case ht530_unlocked_ioctl req um 0 (\<lambda>_. 0) (dev s) of Ret (_, um') _ \<Rightarrow> um' | Oops _ _ \<Rightarrow> um)
      else um)"

text \<open>
  The rest of \<open>main\<close>: ask for the size, allocate, dump and print the records one by one.
\<close>

definition main_step :: "tenv \<Rightarrow> int \<Rightarrow> tsys \<Rightarrow> tsys option" where
  "main_step env cret s =
    (case main_pc s of
       Ask_size \<Rightarrow>
         (let hash_cur_size = of_le64 (dev_ioctl RET_CUR_SIZE (le64 0) s)
          in Some (s\<lparr>main_pc := Ask_dump hash_cur_size,
               out := out s @ [Current_size hash_cur_size]\<rparr>))
     | Ask_dump n \<Rightarrow>
         Some (s\<lparr>main_pc := Print n 0 (dev_ioctl ALL_DUMP (malloc_of env (8 * unat n)) s)\<rparr>)
     | Print n i dump_record \<Rightarrow>
         if i < unat n then
           (let x = obj_of_bytes (take 8 (drop (8 * i) dump_record))
            in Some (s\<lparr>main_pc := Print n (i + 1) dump_record,
                 out := out s @ [Dump_line i (key x) (data x)]\<rparr>))
         else Some (s\<lparr>main_pc := Main_done\<rparr>)
     | Main_done \<Rightarrow> None
     | Exited \<Rightarrow> None
     | _ \<Rightarrow> part1_execute cret s)"

text \<open>The start of \<open>main\<close>: the device is opened; a failure is reported and ignored.\<close>

definition test_start :: "bool \<Rightarrow> ht530 \<Rightarrow> tsys" where
  "test_start ok d =
     \<lparr>fd_ok = ok, dev = (if ok then state_of (ht530_open d) else d), fill_cnt = 0, later_cnt = 0,
      fill_cnt_mtx = None, later_cnt_mtx = None, mtx = None,
      tpcs = replicate ThreadNum Unborn, main_pc = Create 0,
      out = (if ok then [] else [Fail_open])\<rparr>"

text \<open>The program: a thread or the main thread makes a step; an exit stops all.\<close>

inductive test_step :: "tenv \<Rightarrow> tsys \<Rightarrow> tsys \<Rightarrow> bool" for env where
  thread: "main_pc s \<noteq> Exited \<Longrightarrow> t < ThreadNum \<Longrightarrow> thread_exec env t rs s = Some s' \<Longrightarrow>
    test_step env s s'"
| main: "main_step env cret s = Some s' \<Longrightarrow> test_step env s s'"

section \<open>Who holds which mutex\<close>

fun in_fill :: "tpc \<Rightarrow> bool" where
  "in_fill p \<longleftrightarrow> p \<in> {Fill_test, Fill_inc, Fill_unlock, Fill_break}"

fun in_later :: "tpc \<Rightarrow> bool" where
  "in_later p \<longleftrightarrow> p \<in> {Later_test, Later_inc, Later_unlock, Later_return}"

fun in_op :: "tpc \<Rightarrow> bool" where
  "in_op (Op_call l r) = True"
| "in_op (Op_unlock l r x) = True"
| "in_op _ = False"

fun in_loop2 :: "tpc \<Rightarrow> bool" where
  "in_loop2 (Op_lock l r) = l"
| "in_loop2 (Op_call l r) = l"
| "in_loop2 (Op_unlock l r x) = l"
| "in_loop2 (Op_print l r x) = l"
| "in_loop2 p \<longleftrightarrow> p \<in> {Fill_break, Later_lock, Later_test, Later_inc, Later_unlock,
     Later_return, Finished}"

text \<open>
  What holds of the shared variables while thread \<open>t\<close> is at \<open>p\<close>: it holds a mutex exactly
  in the sections the mutex guards, a counter about to be raised is below its limit, and a
  thread leaves a loop only when the counter of the loop is used up.
\<close>

definition pc_ok :: "tsys \<Rightarrow> nat \<Rightarrow> tpc \<Rightarrow> bool" where
  "pc_ok s t p \<longleftrightarrow>
     (in_fill p \<longleftrightarrow> fill_cnt_mtx s = Some t) \<and> (in_later p \<longleftrightarrow> later_cnt_mtx s = Some t)
     \<and> (in_op p \<longleftrightarrow> mtx s = Some t)
     \<and> (p = Fill_inc \<longrightarrow> fill_cnt s < 200) \<and> (in_loop2 p \<longrightarrow> fill_cnt s = 200)
     \<and> (p = Later_inc \<longrightarrow> later_cnt s < 100)
     \<and> (p \<in> {Later_return, Finished} \<longrightarrow> later_cnt s = 100) \<and> p \<noteq> Killed"

fun owner_ok :: "nat option \<Rightarrow> bool" where
  "owner_ok None = True"
| "owner_ok (Some t) \<longleftrightarrow> t < ThreadNum"

definition threads_ok :: "tsys \<Rightarrow> bool" where
  "threads_ok s \<longleftrightarrow> length (tpcs s) = ThreadNum
     \<and> (\<forall>t < ThreadNum. pc_ok s t (tpcs s ! t))
     \<and> owner_ok (fill_cnt_mtx s) \<and> owner_ok (later_cnt_mtx s) \<and> owner_ok (mtx s)
     \<and> 0 \<le> fill_cnt s \<and> fill_cnt s \<le> 200 \<and> 0 \<le> later_cnt s \<and> later_cnt s \<le> 100"

lemma threads_okI:
  assumes "length (tpcs s) = ThreadNum" and "\<And>t. t < ThreadNum \<Longrightarrow> pc_ok s t (tpcs s ! t)"
    and "owner_ok (fill_cnt_mtx s)" and "owner_ok (later_cnt_mtx s)" and "owner_ok (mtx s)"
    and "0 \<le> fill_cnt s" and "fill_cnt s \<le> 200" and "0 \<le> later_cnt s" and "later_cnt s \<le> 100"
  shows "threads_ok s"
  using assms by (simp add: threads_ok_def)

lemma threads_okD:
  assumes "threads_ok s"
  shows "length (tpcs s) = ThreadNum" and "t < ThreadNum \<Longrightarrow> pc_ok s t (tpcs s ! t)"
    and "owner_ok (fill_cnt_mtx s)" and "owner_ok (later_cnt_mtx s)" and "owner_ok (mtx s)"
    and "0 \<le> fill_cnt s" and "fill_cnt s \<le> 200" and "0 \<le> later_cnt s" and "later_cnt s \<le> 100"
  using assms by (simp_all add: threads_ok_def)

text \<open>The random numbers: in range, and the action is always one of the three.\<close>

lemma RAND_SCALE_range: "lo \<le> hi \<Longrightarrow> lo \<le> RAND_SCALE r lo hi \<and> RAND_SCALE r lo hi \<le> hi"
  using pos_mod_bound [of "hi + 1 - lo" "int r"] pos_mod_sign [of "hi + 1 - lo" "int r"]
  unfolding RAND_SCALE_def by linarith

lemma later_act_Some: "\<exists>r. later_act rs = Some r"
proof -
  obtain r0 r1 r2 where rs: "rs = (r0, r1, r2)" by (cases rs)
  have "RAND_SCALE r0 1 3 \<in> {1, 2, 3}" using RAND_SCALE_range [of 1 3 r0] by auto
  then show ?thesis by (auto simp: later_act_def rs Let_def)
qed

text \<open>The call into the driver does not fault as long as memory is available.\<close>

definition env_ok :: "tenv \<Rightarrow> bool" where
  "env_ok env \<longleftrightarrow> hash_ok (hash_of env) \<and> kmalloc_of env \<noteq> None
     \<and> (\<forall>n. length (malloc_of env n) = n)"

definition dev_effect :: "tenv \<Rightarrow> bool \<Rightarrow> req \<Rightarrow> ht530 \<Rightarrow> ht530" where
  "dev_effect env ok r d =
     (case r of
        Wr k v \<Rightarrow> if ok then ht530_writes (hash_of env) (the (kmalloc_of env)) [(k, v)] d else d
      | Rd _ \<Rightarrow> d)"

definition dev_answer :: "tenv \<Rightarrow> bool \<Rightarrow> req \<Rightarrow> ht530 \<Rightarrow> ht_object" where
  "dev_answer env ok r d =
     (case r of
        Wr k v \<Rightarrow> \<lparr>key = k, data = v\<rparr>
      | Rd k \<Rightarrow> \<lparr>key = k, data = (if ok then case ht_map (hash_of env) d k of None \<Rightarrow> 0 | Some v \<Rightarrow> v
                                 else 0)\<rparr>)"

lemma dev_call_spec:
  assumes "env_ok env" and "ht_inv (hash_of env) d"
  shows "dev_call env r ok d = Ret (dev_answer env ok r d) (dev_effect env ok r d)"
    and "ht_inv (hash_of env) (dev_effect env ok r d)"
proof -
  obtain node where env: "hash_ok (hash_of env)" "kmalloc_of env = Some node"
    using assms(1) by (auto simp: env_ok_def)
  note w = write_spec [OF assms(2) env(1), of node]
  show "dev_call env r ok d = Ret (dev_answer env ok r d) (dev_effect env ok r d)"
  proof (cases r)
    case (Wr k v)
    with env w [of "\<lparr>key = k, data = v\<rparr>"] show ?thesis
      by (cases ok) (auto simp: run_simps dev_answer_def dev_effect_def)
  next
    case (Rd k)
    with env read_spec [OF assms(2) env(1), of "\<lparr>key = k, data = 0\<rparr>"] show ?thesis
      by (cases ok) (auto simp: run_simps dev_answer_def dev_effect_def split: option.splits)
  qed
  show "ht_inv (hash_of env) (dev_effect env ok r d)"
    using assms(2) writes_inv [OF env(1) assms(2)]
    by (simp add: dev_effect_def del: ht530_writes.simps split: req.split)
qed

text \<open>
  A step of a thread is a move of its program counter together with a change of what is
  shared; \<open>moved\<close> reduces the invariant of the whole system to that of the moving thread
  and to what the others notice.
\<close>

lemma moved:
  assumes "threads_ok s" and "t < ThreadNum" and "tpcs s' = tpcs s"
    and "pc_ok s' t p"
    and "\<And>u. u < ThreadNum \<Longrightarrow> u \<noteq> t \<Longrightarrow> pc_ok s u (tpcs s ! u) \<Longrightarrow> pc_ok s' u (tpcs s ! u)"
    and "owner_ok (fill_cnt_mtx s')" and "owner_ok (later_cnt_mtx s')" and "owner_ok (mtx s')"
    and "0 \<le> fill_cnt s'" and "fill_cnt s' \<le> 200" and "0 \<le> later_cnt s'" and "later_cnt s' \<le> 100"
  shows "threads_ok (goto_pc t p s')"
proof (rule threads_okI)
  note d = threads_okD [OF assms(1)]
  show "pc_ok (goto_pc t p s') u (tpcs (goto_pc t p s') ! u)" if "u < ThreadNum" for u
    using assms(2-5) d that by (cases "u = t") (auto simp: goto_pc_def pc_ok_def)
qed (use assms(3,6-12) threads_okD(1) [OF assms(1)] in \<open>simp_all add: goto_pc_def\<close>)

lemmas thread_moves = thread_exec_def pc_ok_def

lemma threads_ok_step:
  assumes ok: "threads_ok s" and t: "t < ThreadNum" and env: "env_ok env"
    and inv: "ht_inv (hash_of env) (dev s)" and step: "thread_exec env t rs s = Some s'"
  shows "threads_ok s'"
proof -
  note d = threads_okD [OF ok]
  note p = d(2) [OF t]
  have c: "dev_call env r (fd_ok s) (dev s) =
      Ret (dev_answer env (fd_ok s) r (dev s)) (dev_effect env (fd_ok s) r (dev s))" for r
    using dev_call_spec(1) [OF env inv] .
  obtain ra where ra: "later_act rs = Some ra" using later_act_Some by blast
  show ?thesis
    using step p d(3-9) t ra
    by (cases "tpcs s ! t")
      (auto simp: thread_moves c split: if_splits prod.splits intro!: moved [OF ok t])
qed

section \<open>The main thread\<close>

definition main_ok :: "tsys \<Rightarrow> bool" where
  "main_ok s \<longleftrightarrow>
    (case main_pc s of
       Create i \<Rightarrow> i \<le> ThreadNum \<and> (\<forall>t < ThreadNum. tpcs s ! t = Unborn \<longleftrightarrow> i \<le> t)
     | Join i \<Rightarrow> i \<le> ThreadNum \<and> (\<forall>t < ThreadNum. tpcs s ! t \<noteq> Unborn) \<and> (\<forall>t < i. tpcs s ! t = Finished)
     | Exited \<Rightarrow> True
     | _ \<Rightarrow> \<forall>t < ThreadNum. tpcs s ! t = Finished)"

lemma main_ok_thread_step:
  assumes "main_ok s" and "t < ThreadNum" and "length (tpcs s) = ThreadNum"
    and "thread_exec env t rs s = Some s'"
  shows "main_ok s'" and "main_pc s' = main_pc s"
proof -
  have run: "tpcs s ! t \<noteq> Unborn" "tpcs s ! t \<noteq> Finished"
    using assms(4) by (auto simp: thread_exec_def)
  from assms(4) obtain q where q: "tpcs s' = (tpcs s)[t := q]" "q \<noteq> Unborn" "main_pc s' = main_pc s"
    by (auto simp: thread_exec_def goto_pc_def split: tpc.splits if_splits prod.splits
        option.splits outcome.splits)
  then show "main_pc s' = main_pc s" by simp
  show "main_ok s'"
    using assms(1-3) q run by (auto simp: main_ok_def nth_list_update split: mpc.splits)
qed

lemma threads_ok_main_step:
  assumes ok: "threads_ok s" and m: "main_ok s" and step: "main_step env cret s = Some s'"
  shows "threads_ok s'" and "main_ok s'"
proof -
  note d = threads_okD [OF ok]
  have same: "threads_ok (s\<lparr>main_pc := m', out := o'\<rparr>)" "threads_ok (s\<lparr>main_pc := m'\<rparr>)" for m' o'
    using ok by (simp_all add: threads_ok_def pc_ok_def)
  have new: "threads_ok (goto_pc i Start (s\<lparr>main_pc := m'\<rparr>))"
    if "tpcs s ! i = Unborn" "i < ThreadNum" for i m'
    using d(2) [OF that(2)] d(3-9) that by (intro moved [OF ok]) (auto simp: pc_ok_def)
  show "threads_ok s'"
    using step m new same
    by (auto simp: main_step_def part1_execute_def main_ok_def Let_def split: mpc.splits if_splits)
  show "main_ok s'"
    using step m d(1,2)
    by (auto simp: main_step_def part1_execute_def main_ok_def Let_def goto_pc_def pc_ok_def
        nth_list_update less_Suc_eq split: mpc.splits if_splits)
qed

section \<open>What the threads have written\<close>

text \<open>The range of the random keys, and the requests the program makes.\<close>

definition rand_words :: "s32 set" where
  "rand_words = word_of_int ` {1..200}"

fun req_ok :: "req \<Rightarrow> bool" where
  "req_ok (Wr k v) \<longleftrightarrow> k \<in> rand_words \<and> (v \<in> rand_words \<or> v = 0)"
| "req_ok (Rd k) \<longleftrightarrow> k \<in> rand_words"

text \<open>
  A list of writes \<open>ws\<close> explains an answer when it is what was written, or was found in the
  table, or comes from \<open>ws\<close>; \<open>d\<close> is the table at the start.
\<close>

definition known :: "tenv \<Rightarrow> ht530 \<Rightarrow> (s32 \<times> s32) list \<Rightarrow> s32 \<Rightarrow> s32 \<Rightarrow> bool" where
  "known env d ws k v \<longleftrightarrow> v = 0 \<or> (k, v) \<in> set ws \<or> ht_map (hash_of env) d k = Some v"

fun answer_ok :: "tenv \<Rightarrow> ht530 \<Rightarrow> (s32 \<times> s32) list \<Rightarrow> req \<Rightarrow> ht_object \<Rightarrow> bool" where
  "answer_ok env d ws (Wr k v) x \<longleftrightarrow> x = \<lparr>key = k, data = v\<rparr>"
| "answer_ok env d ws (Rd k) x \<longleftrightarrow> key x = k \<and> known env d ws k (data x)"

fun pos_ok :: "tenv \<Rightarrow> ht530 \<Rightarrow> (s32 \<times> s32) list \<Rightarrow> tpc \<Rightarrow> bool" where
  "pos_ok env d ws (Op_lock l r) = req_ok r"
| "pos_ok env d ws (Op_call l r) = req_ok r"
| "pos_ok env d ws (Op_unlock l r x) \<longleftrightarrow> req_ok r \<and> answer_ok env d ws r x"
| "pos_ok env d ws (Op_print l r x) \<longleftrightarrow> req_ok r \<and> answer_ok env d ws r x"
| "pos_ok env d ws _ = True"

fun line_ok :: "tenv \<Rightarrow> ht530 \<Rightarrow> (s32 \<times> s32) list \<Rightarrow> line \<Rightarrow> bool" where
  "line_ok env d ws (Read_line k v) = known env d ws k v"
| "line_ok env d ws _ = True"

text \<open>The writes that have reached the device: those printed and those about to be.\<close>

fun line_writes :: "line \<Rightarrow> (s32 \<times> s32) multiset" where
  "line_writes (Write_line k v) = {#(k, v)#}"
| "line_writes (Delete_line k v) = {#(k, v)#}"
| "line_writes _ = {#}"

fun req_writes :: "req \<Rightarrow> (s32 \<times> s32) multiset" where
  "req_writes (Wr k v) = {#(k, v)#}"
| "req_writes (Rd k) = {#}"

fun pending :: "tpc \<Rightarrow> (s32 \<times> s32) multiset" where
  "pending (Op_unlock l r x) = req_writes r"
| "pending (Op_print l r x) = req_writes r"
| "pending _ = {#}"

definition printed_writes :: "line list \<Rightarrow> (s32 \<times> s32) multiset" where
  "printed_writes ls = sum_list (map line_writes ls)"

definition history :: "tenv \<Rightarrow> ht530 \<Rightarrow> tsys \<Rightarrow> (s32 \<times> s32) list \<Rightarrow> bool" where
  "history env d s ws \<longleftrightarrow>
     dev s = (if fd_ok s then ht530_writes (hash_of env) (the (kmalloc_of env)) ws d else d)
     \<and> mset ws = printed_writes (out s) + sum_list (map pending (tpcs s))
     \<and> set ws \<subseteq> rand_words \<times> insert 0 rand_words
     \<and> (\<forall>t < length (tpcs s). pos_ok env d ws (tpcs s ! t)) \<and> (\<forall>l \<in> set (out s). line_ok env d ws l)"

lemma sum_list_update:
  fixes f :: "'a \<Rightarrow> 'b :: comm_monoid_add"
  shows "t < length xs \<Longrightarrow> sum_list (map f (xs[t := p])) + f (xs ! t) = sum_list (map f xs) + f p"
proof (induction xs arbitrary: t)
  case (Cons x xs)
  then show ?case by (cases t) (auto simp: ac_simps)
qed simp

lemma printed_writes_snoc [simp]: "printed_writes (ls @ [l]) = printed_writes ls + line_writes l"
  by (simp add: printed_writes_def)

lemma known_mono: "set ws \<subseteq> set ws' \<Longrightarrow> known env d ws k v \<Longrightarrow> known env d ws' k v"
  by (auto simp: known_def)

lemma answer_ok_mono: "set ws \<subseteq> set ws' \<Longrightarrow> answer_ok env d ws r x \<Longrightarrow> answer_ok env d ws' r x"
  using known_mono by (cases r) auto

lemma pos_ok_mono: "set ws \<subseteq> set ws' \<Longrightarrow> pos_ok env d ws p \<Longrightarrow> pos_ok env d ws' p"
  using answer_ok_mono by (cases p) auto

lemma line_ok_mono: "set ws \<subseteq> set ws' \<Longrightarrow> line_ok env d ws l \<Longrightarrow> line_ok env d ws' l"
  using known_mono by (cases l) auto

lemma op_line_ok:
  assumes "answer_ok env d ws r x"
  shows "line_ok env d ws (op_line r x)" and "line_writes (op_line r x) = req_writes r"
  using assms by (cases r; auto simp: op_line_def)+

lemma writes_snoc:
  "ht530_writes hm node (ws @ [w]) d = ht530_writes hm node [w] (ht530_writes hm node ws d)"
  by (induction hm node ws d rule: ht530_writes.induct) (cases w; simp)+

lemma rand_word: "word_of_int (RAND_SCALE r 1 200) \<in> rand_words"
  using RAND_SCALE_range [of 1 200 r] by (auto simp: rand_words_def)

lemma later_act_ok: "later_act rs = Some r \<Longrightarrow> req_ok r"
  by (auto simp: later_act_def Let_def rand_word split: prod.splits if_splits)

text \<open>The history after a move of one thread that prints at most one line.\<close>

lemma history_move:
  assumes h: "history env d s ws" and t: "t < length (tpcs s)" and p: "pos_ok env d ws p"
    and "tpcs s' = tpcs s" and "fd_ok s' = fd_ok s" and "dev s' = dev s"
    and "\<exists>ls. out s' = out s @ ls \<and> (\<forall>l \<in> set ls. line_ok env d ws l)
      \<and> printed_writes ls + pending p = pending (tpcs s ! t)"
  shows "history env d (goto_pc t p s') ws"
proof -
  obtain ls where l: "out s' = out s @ ls" "\<forall>l \<in> set ls. line_ok env d ws l"
    and m: "printed_writes ls + pending p = pending (tpcs s ! t)" using assms(7) by blast
  let ?A = "sum_list (map pending ((tpcs s)[t := p]))"
  let ?C = "sum_list (map pending (tpcs s))"
  have "printed_writes ls + ?A + pending p = ?A + pending (tpcs s ! t)"
    by (simp add: m [symmetric] ac_simps)
  also have "\<dots> = ?C + pending p" using t by (rule sum_list_update)
  finally have sums: "printed_writes ls + ?A = ?C" by simp
  have "printed_writes (out s') + ?A = printed_writes (out s) + ?C"
    using l(1) sums by (simp add: printed_writes_def ac_simps)
  then show ?thesis
    using h p l t assms(4-6) by (simp add: history_def goto_pc_def nth_list_update ball_Un)
qed

lemma known_lookup:
  assumes "env_ok env" and "ht_inv (hash_of env) d"
    and "ht_map (hash_of env) (ht530_writes (hash_of env) node ws d) k = Some v"
  shows "known env d ws k v"
proof -
  have "hash_ok (hash_of env)" using assms(1) by (simp add: env_ok_def)
  from writes_map [OF this assms(2), of node ws k] assms(3) show ?thesis
    by (auto simp: known_def split: option.splits if_splits dest!: map_of_SomeD)
qed

text \<open>The call of the driver by one thread.\<close>

lemma history_call:
  assumes h: "history env d s ws" and t: "t < length (tpcs s)" and env: "env_ok env"
    and d: "ht_inv (hash_of env) d" and r: "tpcs s ! t = Op_call l r" "req_ok r"
  shows "\<exists>ws'. history env d (goto_pc t (Op_unlock l r (dev_answer env (fd_ok s) r (dev s)))
    (s\<lparr>dev := dev_effect env (fd_ok s) r (dev s)\<rparr>)) ws'"
proof (cases r)
  case (Wr k v)
  let ?x = "\<lparr>key = k, data = v\<rparr>"
  have "sum_list (map pending ((tpcs s)[t := Op_unlock l r ?x])) = sum_list (map pending (tpcs s)) + {#(k, v)#}"
    using sum_list_update [OF t, of pending "Op_unlock l r ?x"] r Wr by simp
  moreover have "set ws \<subseteq> set (ws @ [(k, v)])" by auto
  ultimately have "history env d (goto_pc t (Op_unlock l r ?x)
      (s\<lparr>dev := dev_effect env (fd_ok s) r (dev s)\<rparr>)) (ws @ [(k, v)])"
    using h r t Wr pos_ok_mono [of ws "ws @ [(k, v)]"] line_ok_mono [of ws "ws @ [(k, v)]"]
    by (auto simp: history_def goto_pc_def nth_list_update dev_effect_def writes_snoc
        simp del: ht530_writes.simps)
  then show ?thesis using Wr by (auto simp: dev_answer_def)
next
  case (Rd k)
  let ?x = "dev_answer env (fd_ok s) r (dev s)"
  have "known env d ws k (data ?x)"
    using h known_lookup [OF env d] Rd
    by (auto simp: dev_answer_def history_def known_def split: option.splits)
  then have "pos_ok env d ws (Op_unlock l r ?x)" using r Rd by (simp add: dev_answer_def)
  with h t have "history env d (goto_pc t (Op_unlock l r ?x) (s\<lparr>dev := dev_effect env (fd_ok s) r (dev s)\<rparr>)) ws"
    using Rd r by (intro history_move [OF h]) (auto simp: dev_effect_def printed_writes_def)
  then show ?thesis by blast
qed

lemma history_inv:
  assumes "history env d s ws" and "env_ok env" and "ht_inv (hash_of env) d"
  shows "ht_inv (hash_of env) (dev s)"
  using assms writes_inv [of "hash_of env" d] by (auto simp: history_def env_ok_def)

lemma history_thread_step:
  assumes h: "history env d s ws" and t: "t < length (tpcs s)" and env: "env_ok env"
    and d: "ht_inv (hash_of env) d" and step: "thread_exec env t rs s = Some s'"
  shows "\<exists>ws'. history env d s' ws'"
proof (cases "\<exists>l r. tpcs s ! t = Op_call l r")
  case True
  then obtain l r where r: "tpcs s ! t = Op_call l r" by blast
  with h t have "req_ok r" by (auto simp: history_def dest!: spec [of _ t])
  from history_call [OF h t env d r this] r step dev_call_spec(1) [OF env history_inv [OF h env d]]
  show ?thesis by (simp add: thread_exec_def)
next
  case False
  have p: "pos_ok env d ws (tpcs s ! t)" using h t by (simp add: history_def)
  obtain ra where ra: "later_act rs = Some ra" "req_ok ra" using later_act_Some later_act_ok by blast
  show ?thesis
    using step p False ra op_line_ok [of env d ws]
    by (cases "tpcs s ! t")
      (auto simp: thread_exec_def rand_word printed_writes_def split: if_splits prod.splits
        intro!: exI [of _ ws] history_move [OF h t])
qed

text \<open>The size of the table is the number of keys; only 200 keys are ever used.\<close>

lemma cur_size_card:
  assumes "ht_inv hm st" and "hash_ok hm"
  shows "unat (cur_size st) = card (dom (ht_map hm st))"
proof -
  let ?xs = "concat (ht530_tbl st)"
  have "dom (ht_map hm st) = key ` set ?xs"
    by (simp add: pairs_concat [OF assms, symmetric] dom_map_of_conv_image_fst image_image)
  then have "card (dom (ht_map hm st)) = card (set (map key ?xs))" by simp
  also have "\<dots> = length ?xs" using distinct_card [OF concat_keys_distinct [OF assms(1)]] by simp
  finally show ?thesis using cur_size_exact [OF assms(1)] by simp
qed

definition table_ok :: "tenv \<Rightarrow> ht530 \<Rightarrow> bool" where
  "table_ok env d \<longleftrightarrow> ht_inv (hash_of env) d \<and> dom (ht_map (hash_of env) d) \<subseteq> rand_words"

lemma table_ok_size:
  assumes "table_ok env d" and "env_ok env"
  shows "unat (cur_size d) \<le> 200"
proof -
  have "card rand_words \<le> 200"
    unfolding rand_words_def by (rule order_trans [OF card_image_le]) simp_all
  moreover have "finite rand_words" by (simp add: rand_words_def)
  ultimately show ?thesis
    using assms cur_size_card [of "hash_of env" d] card_mono [of rand_words "dom (ht_map (hash_of env) d)"]
    by (auto simp: table_ok_def env_ok_def)
qed

lemma history_table_ok:
  assumes "history env d s ws" and "env_ok env" and "table_ok env d"
  shows "table_ok env (dev s)"
proof -
  have ok: "hash_ok (hash_of env)" "ht_inv (hash_of env) d" "dom (ht_map (hash_of env) d) \<subseteq> rand_words"
    using assms(2,3) by (simp_all add: env_ok_def table_ok_def)
  have ws: "set ws \<subseteq> rand_words \<times> insert 0 rand_words"
    using assms(1) by (simp add: history_def)
  have "k \<in> rand_words" if "ht_map (hash_of env) (dev s) k = Some v" for k v
  proof (cases "fd_ok s")
    case True
    with assms(1) that
    have "ht_map (hash_of env) (ht530_writes (hash_of env) (the (kmalloc_of env)) ws d) k = Some v"
      by (simp add: history_def)
    then show ?thesis
      using ws ok(3) by (subst (asm) writes_map [OF ok(1,2)])
        (auto split: option.splits if_splits dest!: map_of_SomeD)
  next
    case False
    with assms(1) that ok(3) show ?thesis by (auto simp: history_def)
  qed
  then show ?thesis
    using history_inv [OF assms(1,2) ok(2)] by (auto simp: table_ok_def)
qed

section \<open>What is printed\<close>

text \<open>Every turn of a loop prints one line: the turns taken are those printed and those under way.\<close>

fun line_ops :: "line \<Rightarrow> nat" where
  "line_ops (Write_line k v) = 1" | "line_ops (Delete_line k v) = 1" | "line_ops (Read_line k v) = 1"
| "line_ops _ = 0"

fun turn :: "tpc \<Rightarrow> nat" where
  "turn Fill_unlock = 1" | "turn Later_unlock = 1"
| "turn (Op_lock l r) = 1" | "turn (Op_call l r) = 1"
| "turn (Op_unlock l r x) = 1" | "turn (Op_print l r x) = 1"
| "turn _ = 0"

definition printed_ops :: "line list \<Rightarrow> nat" where
  "printed_ops ls = sum_list (map line_ops ls)"

definition count_ok :: "tsys \<Rightarrow> bool" where
  "count_ok s \<longleftrightarrow> int (printed_ops (out s) + sum_list (map turn (tpcs s))) = fill_cnt s + later_cnt s"

lemma printed_ops_snoc [simp]: "printed_ops (ls @ [l]) = printed_ops ls + line_ops l"
  by (simp add: printed_ops_def)

lemma line_ops_op_line [simp]: "line_ops (op_line r x) = 1"
  by (simp add: op_line_def split: req.split)

lemma count_move:
  assumes "count_ok s" and t: "t < length (tpcs s)" and "tpcs s' = tpcs s"
    and "int (printed_ops (out s') + turn p) - fill_cnt s' - later_cnt s' =
      int (printed_ops (out s) + turn (tpcs s ! t)) - fill_cnt s - later_cnt s"
  shows "count_ok (goto_pc t p s')"
  using assms sum_list_update [OF t, of turn p] by (simp add: count_ok_def goto_pc_def)

lemma count_ok_thread_step:
  assumes ok: "count_ok s" and t: "t < length (tpcs s)" and "thread_exec env t rs s = Some s'"
    and env: "env_ok env" and inv: "ht_inv (hash_of env) (dev s)"
  shows "count_ok s'"
proof -
  obtain ra where "later_act rs = Some ra" using later_act_Some by blast
  with assms(3) show ?thesis
    by (cases "tpcs s ! t")
      (auto simp: thread_exec_def dev_call_spec(1) [OF env inv] split: if_splits prod.splits
        intro!: count_move [OF ok t])
qed

text \<open>The table as the main thread sees it, and the lines of its dump.\<close>

definition objs :: "tsys \<Rightarrow> ht_object list" where
  "objs s = (if fd_ok s then concat (ht530_tbl (dev s)) else [])"

definition dump_lines :: "ht_object list \<Rightarrow> line list" where
  "dump_lines xs = map (\<lambda>i. Dump_line i (key (xs ! i)) (data (xs ! i))) [0..<length xs]"

definition dumped :: "tsys \<Rightarrow> u64 \<Rightarrow> nat \<Rightarrow> bool" where
  "dumped s n i \<longleftrightarrow> unat n = length (objs s) \<and> i \<le> unat n \<and>
     (\<exists>pre. out s = pre @ [Current_size n] @ take i (dump_lines (objs s)))"

definition dump_ok :: "tsys \<Rightarrow> bool" where
  "dump_ok s \<longleftrightarrow>
    (case main_pc s of
       Ask_dump n \<Rightarrow> dumped s n 0
     | Print n i rec \<Rightarrow> dumped s n i
         \<and> (\<forall>j < length (objs s). obj_of_bytes (take 8 (drop (8 * j) rec)) = objs s ! j)
     | Main_done \<Rightarrow> \<exists>n. dumped s n (unat n)
     | _ \<Rightarrow> True)"

lemma dev_ioctl_size:
  assumes "ht_inv hm (dev s)"
  shows "unat (of_le64 (dev_ioctl RET_CUR_SIZE (le64 0) s)) = length (objs s)"
  using cur_size_exact [OF assms]
  by (simp add: dev_ioctl_def ht530_unlocked_ioctl_def Let_def ht530_cmds objs_def copy_to_user_def)

lemma dev_ioctl_dump:
  assumes "length um = 8 * length (objs s)" and "j < length (objs s)"
  shows "obj_of_bytes (take 8 (drop (8 * j) (dev_ioctl ALL_DUMP um s))) = objs s ! j"
  using assms dump_objs_nth [of 0 "objs s" um j]
  by (auto simp: dev_ioctl_def ht530_unlocked_ioctl_def Let_def ht530_cmds objs_def split: if_splits)

lemma dumped_next:
  assumes "dumped s n i" and "i < unat n" and "x = objs s ! i"
  shows "dumped (s\<lparr>main_pc := m, out := out s @ [Dump_line i (key x) (data x)]\<rparr>) n (Suc i)"
proof -
  have "i < length (dump_lines (objs s))" using assms by (simp add: dumped_def dump_lines_def)
  then have "take (Suc i) (dump_lines (objs s)) = take i (dump_lines (objs s)) @ [Dump_line i (key x) (data x)]"
    using assms by (simp add: take_Suc_conv_app_nth dump_lines_def dumped_def)
  with assms(1,2) show ?thesis by (auto simp: dumped_def objs_def)
qed

lemma dump_ok_main_step:
  assumes "dump_ok s" and env: "env_ok env" and inv: "ht_inv (hash_of env) (dev s)"
    and step: "main_step env cret s = Some s'"
  shows "dump_ok s'"
proof -
  have same: "objs (s\<lparr>main_pc := m, out := o'\<rparr>) = objs s" "objs (s\<lparr>main_pc := m\<rparr>) = objs s" for m o'
    by (simp_all add: objs_def)
  have len: "length (malloc_of env n) = n" for n using env by (simp add: env_ok_def)
  show ?thesis
  proof (cases "main_pc s")
    case Ask_size
    with step dev_ioctl_size [OF inv] show ?thesis
      by (auto simp: main_step_def dump_ok_def dumped_def same Let_def)
  next
    case (Ask_dump n)
    with step assms(1) dev_ioctl_dump [of "malloc_of env (8 * unat n)" s] show ?thesis
      by (auto simp: main_step_def dump_ok_def dumped_def same len)
  next
    case (Print n i rec)
    show ?thesis
    proof (cases "i < unat n")
      case True
      with Print step assms(1) dumped_next [of s n i] show ?thesis
        by (auto simp: main_step_def dump_ok_def same Let_def dumped_def)
    next
      case False
      with Print assms(1) have "dumped (s\<lparr>main_pc := Main_done\<rparr>) n (unat n)"
        by (auto simp: dump_ok_def dumped_def same)
      with Print False step show ?thesis by (auto simp: main_step_def dump_ok_def)
    qed
  qed (use step in \<open>auto simp: main_step_def part1_execute_def dump_ok_def goto_pc_def split: if_splits\<close>)
qed

section \<open>The invariant of the program\<close>

definition test_inv :: "tenv \<Rightarrow> ht530 \<Rightarrow> tsys \<Rightarrow> bool" where
  "test_inv env d s \<longleftrightarrow> threads_ok s \<and> main_ok s \<and> (\<exists>ws. history env d s ws) \<and> count_ok s \<and> dump_ok s"

lemma test_inv_history:
  assumes "test_inv env d s" and "env_ok env" and "table_ok env d"
  shows "ht_inv (hash_of env) (dev s)" and "table_ok env (dev s)"
proof -
  obtain ws where "history env d s ws" using assms(1) by (auto simp: test_inv_def)
  from history_inv [OF this] history_table_ok [OF this] assms(2,3)
  show "ht_inv (hash_of env) (dev s)" and "table_ok env (dev s)" by (simp_all add: table_ok_def)
qed

lemma test_inv_start:
  assumes "table_ok env d"
  shows "test_inv env (dev (test_start ok d)) (test_start ok d)"
    and "table_ok env (dev (test_start ok d))"
proof -
  have pcs: "tpcs (test_start ok d) = replicate ThreadNum Unborn" by (simp add: test_start_def)
  show "table_ok env (dev (test_start ok d))"
    using assms by (auto simp: test_start_def ht530_open_def table_ok_def ht_inv_def ht_map_def dom_def)
  have "sum_list (map pending (replicate n Unborn)) = {#}" for n by (induction n) simp_all
  then have "history env (dev (test_start ok d)) (test_start ok d) []"
    unfolding history_def pcs by (simp add: test_start_def printed_writes_def)
  moreover have "threads_ok (test_start ok d)"
    by (rule threads_okI) (auto simp: test_start_def pc_ok_def)
  moreover have "main_ok (test_start ok d)" "count_ok (test_start ok d)" "dump_ok (test_start ok d)"
    by (auto simp: test_start_def main_ok_def count_ok_def dump_ok_def printed_ops_def)
  ultimately show "test_inv env (dev (test_start ok d)) (test_start ok d)"
    by (auto simp: test_inv_def)
qed

lemma main_step_history:
  assumes h: "history env d s ws" and c: "count_ok s" and m: "main_ok s"
    and len: "length (tpcs s) = ThreadNum" and step: "main_step env cret s = Some s'"
  shows "history env d s' ws" and "count_ok s'"
proof -
  have more: "history env d (s\<lparr>main_pc := q, out := out s @ [l]\<rparr>) ws"
      "count_ok (s\<lparr>main_pc := q, out := out s @ [l]\<rparr>)"
    if "line_writes l = {#}" "line_ok env d ws l" "line_ops l = 0" for q l
    using h c that by (auto simp: history_def count_ok_def)
  have silent: "history env d (s\<lparr>main_pc := q\<rparr>) ws" "count_ok (s\<lparr>main_pc := q\<rparr>)" for q
    using h c by (auto simp: history_def count_ok_def)
  have born: "history env d (goto_pc i Start (s\<lparr>main_pc := q\<rparr>)) ws"
      "count_ok (goto_pc i Start (s\<lparr>main_pc := q\<rparr>))" if "tpcs s ! i = Unborn" "i < ThreadNum" for i q
    using that len by (auto simp: printed_writes_def intro!: history_move [OF h] count_move [OF c])
  show "history env d s' ws"
    using step m more silent born
    by (auto simp: main_step_def part1_execute_def main_ok_def Let_def split: mpc.splits if_splits)
  show "count_ok s'"
    using step m more silent born
    by (auto simp: main_step_def part1_execute_def main_ok_def Let_def split: mpc.splits if_splits)
qed

lemma test_inv_step:
  assumes inv: "test_inv env d s" and env: "env_ok env" and d: "table_ok env d"
    and step: "test_step env s s'"
  shows "test_inv env d s'"
  using step
proof cases
  case (thread t rs)
  obtain ws where i: "threads_ok s" "main_ok s" "history env d s ws" "count_ok s" "dump_ok s"
    using inv by (auto simp: test_inv_def)
  have h: "ht_inv (hash_of env) (dev s)" "ht_inv (hash_of env) d"
    using test_inv_history [OF inv env d] d by (simp_all add: table_ok_def)
  have len: "length (tpcs s) = ThreadNum" using i(1) by (rule threads_okD)
  have "tpcs s ! t \<noteq> Finished" using thread by (auto simp: thread_exec_def)
  then have "dump_ok s'"
    using i(2) main_ok_thread_step [OF i(2) thread(2) len thread(3)] thread(2)
    by (auto simp: dump_ok_def main_ok_def split: mpc.splits)
  moreover have "\<exists>ws'. history env d s' ws'"
    using history_thread_step [OF i(3) _ env h(2) thread(3)] len thread(2) by simp
  moreover have "count_ok s'"
    using count_ok_thread_step [OF i(4) _ thread(3) env h(1)] len thread(2) by simp
  ultimately show ?thesis
    using threads_ok_step [OF i(1) thread(2) env h(1) thread(3)]
      main_ok_thread_step [OF i(2) thread(2) len thread(3)]
    by (simp add: test_inv_def)
next
  case (main cret)
  obtain ws where i: "threads_ok s" "main_ok s" "history env d s ws" "count_ok s" "dump_ok s"
    using inv by (auto simp: test_inv_def)
  from threads_ok_main_step [OF i(1,2) main] main_step_history [OF i(3,4,2) threads_okD(1) [OF i(1)] main]
    dump_ok_main_step [OF i(5) env test_inv_history(1) [OF inv env d] main]
  show ?thesis by (auto simp: test_inv_def)
qed

lemma test_inv_reach:
  assumes "(test_step env)\<^sup>*\<^sup>* (test_start ok d) s" and "env_ok env" and "table_ok env d"
  shows "test_inv env (dev (test_start ok d)) s"
  using assms(1)
proof (induction rule: rtranclp_induct)
  case base
  show ?case using assms(3) by (rule test_inv_start)
next
  case (step s s')
  from test_inv_step [OF step(3) assms(2) test_inv_start(2) [OF assms(3)] step(2)] show ?case .
qed

section \<open>Every schedule ends\<close>

text \<open>A rank for the position of a thread and of the main thread, and the measure of a state.\<close>

fun rank :: "tpc \<Rightarrow> nat" where
  "rank Finished = 0" | "rank Killed = 0"
| "rank Later_return = 1" | "rank Later_inc = 1" | "rank Later_test = 2" | "rank Later_lock = 3"
| "rank Fill_break = 4" | "rank Fill_inc = 4" | "rank Fill_test = 5" | "rank Fill_lock = 6"
| "rank (Op_print l r x) = (if l then 4 else 7)" | "rank (Op_unlock l r x) = (if l then 5 else 8)"
| "rank (Op_call l r) = (if l then 6 else 9)" | "rank (Op_lock l r) = (if l then 7 else 10)"
| "rank Later_unlock = 8" | "rank Fill_unlock = 11"
| "rank Start = 7" | "rank Unborn = 8"

fun main_rank :: "mpc \<Rightarrow> nat \<Rightarrow> nat" where
  "main_rank (Create i) n = n + 14 - i"
| "main_rank (Join i) n = n + 8 - i"
| "main_rank Ask_size n = n + 3"
| "main_rank (Ask_dump m) n = unat m + 2"
| "main_rank (Print m i d) n = unat m - i + 1"
| "main_rank Main_done n = 0"
| "main_rank Exited n = 0"

definition test_measure :: "tsys \<Rightarrow> nat" where
  "test_measure s = 9 * nat (200 - fill_cnt s) + 9 * nat (100 - later_cnt s)
     + sum_list (map rank (tpcs s)) + main_rank (main_pc s) 200"

lemma measure_move:
  assumes t: "t < length (tpcs s)" and "tpcs s' = tpcs s"
    and "9 * nat (200 - fill_cnt s') + 9 * nat (100 - later_cnt s') + rank p + main_rank (main_pc s') 200
      < 9 * nat (200 - fill_cnt s) + 9 * nat (100 - later_cnt s) + rank (tpcs s ! t) + main_rank (main_pc s) 200"
  shows "test_measure (goto_pc t p s') < test_measure s"
  using assms sum_list_update [OF t, of rank p] by (simp add: test_measure_def goto_pc_def)

lemma measure_thread_step:
  assumes ok: "threads_ok s" and t: "t < ThreadNum" and "thread_exec env t rs s = Some s'"
  shows "test_measure s' < test_measure s"
proof -
  obtain ra where "later_act rs = Some ra" using later_act_Some by blast
  moreover have "t < length (tpcs s)" using t threads_okD(1) [OF ok] by simp
  ultimately show ?thesis
    using assms(3) threads_okD(2) [OF ok t]
    by (cases "tpcs s ! t")
      (auto simp: thread_exec_def pc_ok_def split: if_splits prod.splits outcome.splits
        intro!: measure_move)
qed

lemma measure_main_step:
  assumes m: "main_ok s" and len: "length (tpcs s) = ThreadNum" and env: "env_ok env"
    and tab: "table_ok env (dev s)" and step: "main_step env cret s = Some s'"
  shows "test_measure s' < test_measure s"
proof -
  have "unat (of_le64 (dev_ioctl RET_CUR_SIZE (le64 0) s)) \<le> 200"
    using dev_ioctl_size [of "hash_of env" s] table_ok_size [OF tab env] cur_size_exact [of "hash_of env"] tab
    by (auto simp: table_ok_def objs_def)
  moreover have "test_measure (goto_pc i Start (s\<lparr>main_pc := Create (Suc i)\<rparr>)) < test_measure s"
    if "i < ThreadNum" "main_pc s = Create i" "tpcs s ! i = Unborn" for i
    using that len by (intro measure_move) auto
  moreover have "test_measure (s\<lparr>main_pc := Exited\<rparr>) < test_measure s"
    if "i < ThreadNum" "main_pc s = Create i" for i
    using that by (simp add: test_measure_def)
  ultimately show ?thesis
    using step m
    by (auto simp: main_step_def part1_execute_def main_ok_def Let_def split: mpc.splits if_splits)
      (auto simp: test_measure_def)
qed

lemma measure_step:
  assumes "test_inv env d s" and "env_ok env" and "table_ok env d" and "test_step env s s'"
  shows "test_measure s' < test_measure s"
  using assms(4)
proof cases
  case (thread t rs)
  with assms(1) measure_thread_step show ?thesis by (auto simp: test_inv_def)
next
  case (main cret)
  with assms measure_main_step test_inv_history(2) threads_okD(1) show ?thesis
    by (metis test_inv_def)
qed

lemma test_step_fd: "test_step env s s' \<Longrightarrow> fd_ok s' = fd_ok s"
  by (induction rule: test_step.induct)
    (auto simp: thread_exec_def main_step_def part1_execute_def goto_pc_def Let_def
      split: tpc.splits mpc.splits if_splits prod.splits option.splits outcome.splits)

lemma test_fd_ok: "(test_step env)\<^sup>*\<^sup>* (test_start True d) s \<Longrightarrow> fd_ok s"
  by (induction rule: rtranclp_induct) (auto simp: test_start_def test_step_fd)

section \<open>Nothing gets stuck\<close>

lemma section_steps:
  assumes "in_fill (tpcs s ! t) \<or> in_later (tpcs s ! t) \<or> in_op (tpcs s ! t)"
  shows "\<exists>s'. thread_exec env t (0, 0, 0) s = Some s'"
  using assms by (cases "tpcs s ! t") (auto simp: thread_exec_def split: outcome.split)

lemma owner_inside:
  assumes ok: "threads_ok s"
    and m: "fill_cnt_mtx s = Some u \<or> later_cnt_mtx s = Some u \<or> mtx s = Some u"
  shows "u < ThreadNum" and "in_fill (tpcs s ! u) \<or> in_later (tpcs s ! u) \<or> in_op (tpcs s ! u)"
proof -
  show u: "u < ThreadNum" using m threads_okD(3-5) [OF ok] by auto
  show "in_fill (tpcs s ! u) \<or> in_later (tpcs s ! u) \<or> in_op (tpcs s ! u)"
    using m threads_okD(2) [OF ok u] unfolding pc_ok_def by blast
qed

lemma thread_progress:
  assumes ok: "threads_ok s" and t: "t < ThreadNum" and "tpcs s ! t \<notin> {Unborn, Finished}"
  shows "\<exists>u < ThreadNum. \<exists>s'. thread_exec env u (0, 0, 0) s = Some s'"
proof (cases "\<exists>s'. thread_exec env t (0, 0, 0) s = Some s'")
  case True
  with t show ?thesis by blast
next
  case False
  have "tpcs s ! t \<noteq> Killed" using threads_okD(2) [OF ok t] by (simp add: pc_ok_def)
  with False assms(3) consider "fill_cnt_mtx s \<noteq> None" | "later_cnt_mtx s \<noteq> None" | "mtx s \<noteq> None"
    by (cases "tpcs s ! t") (auto simp: thread_exec_def split: if_splits outcome.splits)
  then obtain u where "fill_cnt_mtx s = Some u \<or> later_cnt_mtx s = Some u \<or> mtx s = Some u"
    by cases auto
  from owner_inside [OF ok this] show ?thesis using section_steps by blast
qed

lemma test_progress:
  assumes "test_inv env d s" and "main_pc s \<notin> {Main_done, Exited}"
  shows "\<exists>s'. test_step env s s' \<and> main_pc s' \<noteq> Exited"
proof (cases "main_step env 0 s")
  case (Some s')
  then have "main_pc s' \<noteq> Exited"
    by (auto simp: main_step_def part1_execute_def goto_pc_def Let_def split: mpc.splits if_splits)
  with Some show ?thesis by (blast intro: test_step.main)
next
  case None
  with assms(2) obtain i where i: "main_pc s = Join i" "i < ThreadNum" "tpcs s ! i \<noteq> Finished"
    by (cases "main_pc s") (auto simp: main_step_def part1_execute_def Let_def split: if_splits)
  moreover have "threads_ok s" "tpcs s ! i \<noteq> Unborn"
    using assms(1) i by (auto simp: test_inv_def main_ok_def)
  ultimately obtain u s' where "u < ThreadNum" "thread_exec env u (0, 0, 0) s = Some s'"
    using thread_progress [of s i env] by auto
  moreover have "main_pc s' = main_pc s"
    using calculation(2)
    by (auto simp: thread_exec_def goto_pc_def split: tpc.splits if_splits option.splits outcome.splits)
  ultimately show ?thesis using i(1) by (metis mpc.distinct(21) test_step.thread)
qed

text \<open>Unless a thread cannot be created, the program comes to its end.\<close>

lemma test_completes:
  assumes "test_inv env d s" and "env_ok env" and "table_ok env d" and "main_pc s \<noteq> Exited"
  shows "\<exists>s'. (test_step env)\<^sup>*\<^sup>* s s' \<and> main_pc s' = Main_done"
  using assms(1,4)
proof (induction "test_measure s" arbitrary: s rule: less_induct)
  case less
  show ?case
  proof (cases "main_pc s = Main_done")
    case False
    with less.prems test_progress [of env d s] obtain s1 where
      s1: "test_step env s s1" "main_pc s1 \<noteq> Exited" by auto
    from less.hyps [OF measure_step [OF less.prems(1) assms(2,3) s1(1)]
        test_inv_step [OF less.prems(1) assms(2,3) s1(1)] s1(2)] s1(1)
    show ?thesis by (meson converse_rtranclp_into_rtranclp)
  qed auto
qed

section \<open>Properties\<close>

lemma measure_start: "test_measure (test_start ok d) = 2946"
  by (simp add: test_measure_def test_start_def sum_list_replicate numeral_eq_Suc)

lemma test_steps_bound:
  assumes "env_ok env" and "table_ok env d" and "(test_step env ^^ n) (test_start ok d) s"
  shows "n + test_measure s \<le> 2946 \<and> test_inv env (dev (test_start ok d)) s"
  using assms(3)
proof (induction n arbitrary: s)
  case 0
  then have "s = test_start ok d" by simp
  with test_inv_start(1) [OF assms(2), of ok] measure_start [of ok d] show ?case by simp
next
  case (Suc n)
  then obtain r where r: "(test_step env ^^ n) (test_start ok d) r" "test_step env r s" by auto
  from Suc.IH [OF r(1)] have IH: "n + test_measure r \<le> 2946" "test_inv env (dev (test_start ok d)) r"
    by simp_all
  note t = test_inv_start(2) [OF assms(2), of ok]
  from measure_step [OF IH(2) assms(1) t r(2)] test_inv_step [OF IH(2) assms(1) t r(2)] IH(1)
  show ?case by simp
qed

text \<open>
  (C32) The test program of the hash-table driver ends under every schedule: no run has more
  than 2946 steps, and as long as the main thread has neither reached its end nor exited
  on a failed \<open>pthread_create\<close>, some thread can go on.
\<close>

theorem ht530_test_terminates:
  assumes "env_ok env" and "table_ok env d"
    and "(test_step env ^^ n) (test_start ok d) s"
  shows "n \<le> 2946 \<and> (main_pc s \<in> {Main_done, Exited} \<or> (\<exists>s'. test_step env s s'))"
  using test_steps_bound [OF assms] test_progress [of env _ s] by auto

text \<open>
  (C33) In every state the program reaches, the two counters are within their limits, at most
  one thread is inside each of the three sections, no more than 300 lines about
  operations have been printed and the table holds at most 200 objects.
\<close>

theorem ht530_test_bounds:
  assumes "env_ok env" and "table_ok env d" and "(test_step env)\<^sup>*\<^sup>* (test_start ok d) s"
  shows "0 \<le> fill_cnt s \<and> fill_cnt s \<le> 200 \<and> 0 \<le> later_cnt s \<and> later_cnt s \<le> 100
    \<and> (\<forall>t u. t < 4 \<longrightarrow> u < 4 \<longrightarrow>
        in_fill (tpcs s ! t) \<and> in_fill (tpcs s ! u) \<or> in_later (tpcs s ! t) \<and> in_later (tpcs s ! u)
        \<or> in_op (tpcs s ! t) \<and> in_op (tpcs s ! u) \<longrightarrow> t = u)
    \<and> printed_ops (out s) \<le> 300 \<and> unat (cur_size (dev s)) \<le> 200"
proof -
  have inv: "test_inv env (dev (test_start ok d)) s"
    using test_inv_reach [OF assms(3,1,2)] .
  then have t: "threads_ok s" "count_ok s" by (simp_all add: test_inv_def)
  have "unat (cur_size (dev s)) \<le> 200"
    using table_ok_size [OF test_inv_history(2) [OF inv assms(1) test_inv_start(2) [OF assms(2)]] assms(1)] .
  moreover have "printed_ops (out s) \<le> 300"
    using t(2) threads_okD(7,9) [OF t(1)] unfolding count_ok_def by linarith
  moreover have "t = u" if "t < 4" "u < 4"
      "in_fill (tpcs s ! t) \<and> in_fill (tpcs s ! u) \<or> in_later (tpcs s ! t) \<and> in_later (tpcs s ! u)
      \<or> in_op (tpcs s ! t) \<and> in_op (tpcs s ! u)" for t u
    using that threads_okD(2) [OF t(1), of t] threads_okD(2) [OF t(1), of u]
    unfolding pc_ok_def by (metis option.inject)
  ultimately show ?thesis using threads_okD(6-9) [OF t(1)] by blast
qed

text \<open>
  (C31) What the program prints: when the main thread is through, exactly 300 lines about
  operations have been printed, every value a search found had been written before or was
  in the table from the start, and the lines of the dump list the table once, key by key:
  it is what the printed writes make of the table at the start, in the order \<open>ws\<close>
  in which the mutex let them through.
\<close>

theorem ht530_test_output:
  assumes "env_ok env" and "table_ok env d" and "(test_step env)\<^sup>*\<^sup>* (test_start True d) s"
    and "main_pc s = Main_done"
  shows "\<exists>ws pre n xs. out s = pre @ [Current_size n] @ dump_lines xs
    \<and> unat n = length xs \<and> length xs \<le> 200 \<and> distinct (map key xs)
    \<and> mset ws = printed_writes (out s) \<and> printed_ops (out s) = 300
    \<and> map_of (map (\<lambda>x. (key x, data x)) xs) = (\<lambda>k. case map_of (rev ws) k of
         None \<Rightarrow> ht_map (hash_of env) d k | Some v \<Rightarrow> if v = 0 then None else Some v)
    \<and> (\<forall>k v. Read_line k v \<in> set (out s) \<longrightarrow>
         v = 0 \<or> (k, v) \<in> set ws \<or> ht_map (hash_of env) d k = Some v)"
proof -
  let ?d = "dev (test_start True d)"
  have inv: "test_inv env ?d s" using test_inv_reach [OF assms(3,1,2)] .
  then obtain ws where i: "threads_ok s" "main_ok s" "history env ?d s ws" "count_ok s" "dump_ok s"
    by (auto simp: test_inv_def)
  have tab: "table_ok env ?d" using assms(2) by (rule test_inv_start)
  note ti = test_inv_history [OF inv assms(1) tab]
  have hash: "hash_ok (hash_of env)" using assms(1) by (simp add: env_ok_def)
  have map_d: "ht_map (hash_of env) ?d = ht_map (hash_of env) d"
    by (simp add: test_start_def ht530_open_def ht_map_def fun_eq_iff)
  have fd: "fd_ok s" using assms(3) by (rule test_fd_ok)
  have fin: "tpcs s = replicate ThreadNum Finished"
    using i(2) assms(4) threads_okD(1) [OF i(1)]
    by (intro nth_equalityI) (auto simp: main_ok_def)
  have pend: "sum_list (map pending (replicate n Finished)) = {#}" for n
    by (induction n) simp_all
  obtain pre n where o: "out s = pre @ [Current_size n] @ dump_lines (objs s)" "unat n = length (objs s)"
    using i(5) assms(4) by (auto simp: dump_ok_def dumped_def dump_lines_def)
  have xs: "objs s = concat (ht530_tbl (dev s))" using fd by (simp add: objs_def)
  have "length (objs s) \<le> 200"
    using table_ok_size [OF ti(2) assms(1)] cur_size_exact [OF ti(1)] by (simp add: xs)
  moreover have "distinct (map key (objs s))" using concat_keys_distinct [OF ti(1)] by (simp add: xs)
  moreover have "mset ws = printed_writes (out s)" using i(3) pend by (simp add: history_def fin)
  moreover have "printed_ops (out s) = 300"
    using i(4) threads_okD(2) [OF i(1), of 0]
    by (simp add: count_ok_def pc_ok_def fin sum_list_replicate)
  moreover have "pairs (objs s) = (\<lambda>k. case map_of (rev ws) k of
         None \<Rightarrow> ht_map (hash_of env) d k | Some v \<Rightarrow> if v = 0 then None else Some v)"
    using i(3) fd tab writes_map [OF hash, of ?d] pairs_concat [OF ti(1) hash]
    by (simp add: history_def xs table_ok_def fun_eq_iff map_d cong: option.case_cong)
  moreover have "v = 0 \<or> (k, v) \<in> set ws \<or> ht_map (hash_of env) d k = Some v"
    if "Read_line k v \<in> set (out s)" for k v
    using i(3) that by (auto simp: history_def known_def map_d)
  ultimately show ?thesis using o by blast
qed

section \<open>Instances\<close>

definition test_env :: tenv where
  "test_env = \<lparr>hash_of = mod_hash, kmalloc_of = Some \<lparr>key = 0, data = 0\<rparr>, malloc_of = (\<lambda>n. replicate n 0)\<rparr>"

lemma test_env_ok: "env_ok test_env"
  by (simp add: env_ok_def test_env_def mod_hash_ok)

lemma empty_table_ok: "table_ok test_env empty_ht"
proof -
  have "mod_hash k 7 < 128" for k using hash_okD [OF mod_hash_ok] by simp
  then show ?thesis
    using empty_ht_inv [of mod_hash]
    by (auto simp: table_ok_def ht_map_def empty_ht_def test_env_def)
qed

lemma test_run_exists: "\<exists>s. (test_step test_env)\<^sup>*\<^sup>* (test_start ok empty_ht) s \<and> main_pc s = Main_done"
  using test_completes [OF test_inv_start(1) test_env_ok test_inv_start(2)] empty_table_ok
  by (simp add: test_start_def)

theorem ht530_test_terminates_witness:
  "\<not> (\<exists>s. (test_step test_env ^^ 2947) (test_start True empty_ht) s)"
  using ht530_test_terminates [OF test_env_ok empty_table_ok, of 2947 True] by auto

theorem ht530_test_bounds_witness:
  "\<exists>s :: tsys. main_pc s = Main_done \<and> fill_cnt s \<le> 200 \<and> unat (cur_size (dev s)) \<le> 200"
proof -
  obtain s where s: "(test_step test_env)\<^sup>*\<^sup>* (test_start True empty_ht) s" "main_pc s = Main_done"
    using test_run_exists by blast
  from ht530_test_bounds [OF test_env_ok empty_table_ok s(1)] s(2) show ?thesis
    by (intro exI [of _ s]) simp
qed

theorem ht530_test_output_witness:
  "\<exists>s :: tsys. main_pc s = Main_done \<and> printed_ops (out s) = 300
    \<and> (\<exists>pre n xs. out s = pre @ [Current_size n] @ dump_lines xs \<and> distinct (map key xs))"
proof -
  obtain s where s: "(test_step test_env)\<^sup>*\<^sup>* (test_start True empty_ht) s" "main_pc s = Main_done"
    using test_run_exists by blast
  from ht530_test_output [OF test_env_ok empty_table_ok s] s(2) show ?thesis
    by (intro exI [of _ s]) fastforce
qed

end
