(* ===== verification/Barrier.thy ===== *)
theory Barrier
  imports Contracts
begin

text \<open>
  The barrier driver \<open>04_barrier_driver_module/eosi_barrier.c\<close>: the barriers of a
  process, kept in a list of per-process blocks, and the three operations on them. A
  pointer to a per-process block is the process's id, a pointer to a barrier is the pair
  of that id and the barrier's id. The operations that can sleep (\<open>barrier_wait\<close>,
  \<open>barrier_destroy\<close>) return at the point where they go to sleep; what they run when they
  are woken is the corresponding resumption. Every operation is sequential here; the
  theory \<open>Barrier_Wait\<close> interleaves the same critical sections.
\<close>

section \<open>Data\<close>

type_synonym pid_t = int

record barrier_struct =
  b_id :: u32
  b_tgid :: pid_t
  b_tid :: pid_t
  b_count :: u64
  b_total :: u64
  waitQ :: "pid_t list"

record per_tgid =
  tgid :: pid_t
  bid_count :: u32
  barrier_size :: int
  barrier_head :: "barrier_struct list"

datatype lock = G_tgid_list_lock | Barrier_head_lock pid_t | Lock_total pid_t u32

record barrier_mod = "lock locked" +
  tgid_list :: "per_tgid list"

definition BARRIER_FLAG :: u64 where
  "BARRIER_FLAG = push_bit 63 1"

text \<open>Where a sleeping call continues.\<close>

datatype resume = Loop1 | Loop2 | Drain

datatype sysret = Value int | Sleeps resume

section \<open>The critical sections of the barrier\<close>

definition init_barrier_struct :: "pid_t \<times> pid_t \<Rightarrow> s32 \<Rightarrow> u32 \<Rightarrow> barrier_struct" where
  "init_barrier_struct current count bid =
     \<lparr>b_id = bid, b_tgid = fst current, b_tid = snd current, b_count = scast count,
      b_total = BARRIER_FLAG, waitQ = []\<rparr>"

definition wake_up_here :: "barrier_struct \<Rightarrow> barrier_struct" where
  "wake_up_here b = b\<lparr>waitQ := []\<rparr>"

text \<open>\<open>sleep_here\<close>: queueing (\<open>prepare_to_wait\<close>), and leaving the queue after \<open>schedule\<close>.\<close>

definition sleep_here_enqueue :: "pid_t \<Rightarrow> barrier_struct \<Rightarrow> barrier_struct" where
  "sleep_here_enqueue t b = (if t \<in> set (waitQ b) then b else b\<lparr>waitQ := t # waitQ b\<rparr>)"

definition sleep_here_finish :: "pid_t \<Rightarrow> barrier_struct \<Rightarrow> barrier_struct" where
  "sleep_here_finish t b = b\<lparr>waitQ := filter (\<lambda>t'. t' \<noteq> t) (waitQ b)\<rparr>"

text \<open>
  \<open>barrier_wait\<close> between taking and giving back \<open>lock_total\<close>: the part from the second
  loop on, and the part from the first loop on.
\<close>

definition wait_section2 :: "barrier_struct \<Rightarrow> sysret \<times> barrier_struct" where
  "wait_section2 b =
     (if b_total b < BARRIER_FLAG then (Sleeps Loop2, b)
      else
        let b1 = b\<lparr>b_total := b_total b - 1\<rparr> in
        if b_total b1 = BARRIER_FLAG then (Value 0, wake_up_here b1) else (Value 0, b1))"

definition wait_section1 :: "barrier_struct \<Rightarrow> sysret \<times> barrier_struct" where
  "wait_section1 b =
     (if b_total b > BARRIER_FLAG then (Sleeps Loop1, b)
      else
        let b1 = (if BARRIER_FLAG = b_total b then b\<lparr>b_total := 0\<rparr> else b);
            b2 = b1\<lparr>b_total := b_total b1 + 1\<rparr>
        in if b_total b2 = b_count b2
           then (Value 0, wake_up_here (b2\<lparr>b_total := b_total b2 + (BARRIER_FLAG - 1)\<rparr>))
           else wait_section2 b2)"

definition destroy_section :: "barrier_struct \<Rightarrow> sysret" where
  "destroy_section b = (if b_total b > BARRIER_FLAG then Sleeps Drain else Value 0)"

section \<open>Finding a process and a barrier\<close>

definition find_ptgid :: "pid_t \<Rightarrow> barrier_mod \<Rightarrow> per_tgid option" where
  "find_ptgid t st = find (\<lambda>p. tgid p = t) (tgid_list st)"

definition find_bar :: "per_tgid \<Rightarrow> u32 \<Rightarrow> barrier_struct option" where
  "find_bar p i = find (\<lambda>b. b_id b = i) (barrier_head p)"

definition upd_ptgid :: "pid_t \<Rightarrow> (per_tgid \<Rightarrow> per_tgid) \<Rightarrow> barrier_mod \<Rightarrow> barrier_mod" where
  "upd_ptgid t f st = st\<lparr>tgid_list := update_first (\<lambda>p. tgid p = t) f (tgid_list st)\<rparr>"

definition upd_bar :: "u32 \<Rightarrow> (barrier_struct \<Rightarrow> barrier_struct) \<Rightarrow> per_tgid \<Rightarrow> per_tgid" where
  "upd_bar i f p = p\<lparr>barrier_head := update_first (\<lambda>b. b_id b = i) f (barrier_head p)\<rparr>"

definition get_ptgid_without_lock :: "pid_t \<Rightarrow> (pid_t option, barrier_mod) cmd" where
  "get_ptgid_without_lock t = look (\<lambda>st. map_option tgid (find_ptgid t st))"

definition get_ptgid :: "pid_t \<Rightarrow> (pid_t option, barrier_mod) cmd" where
  "get_ptgid t =
     bnd (spin_lock G_tgid_list_lock) (\<lambda>_.
     bnd (look (\<lambda>st. map_option tgid (find_ptgid t st))) (\<lambda>ptgid.
     bnd (spin_unlock G_tgid_list_lock) (\<lambda>_.
     ret ptgid)))"

text \<open>Reading through a pointer to a per-process block that is no longer linked is a fault.\<close>

definition deref_ptgid :: "pid_t \<Rightarrow> (per_tgid, barrier_mod) cmd" where
  "deref_ptgid t st = (case find_ptgid t st of None \<Rightarrow> Oops UseAfterFree st | Some p \<Rightarrow> Ret p st)"

definition get_barrier_from_ptgid ::
  "pid_t option \<Rightarrow> u32 \<Rightarrow> ((pid_t \<times> u32) option, barrier_mod) cmd" where
  "get_barrier_from_ptgid ptgid barrier_id =
     (case ptgid of
        None \<Rightarrow> ret None
      | Some t \<Rightarrow>
          bnd (spin_lock (Barrier_head_lock t)) (\<lambda>_.
          bnd (deref_ptgid t) (\<lambda>p.
          bnd (spin_unlock (Barrier_head_lock t)) (\<lambda>_.
          ret (map_option (\<lambda>b. (t, b_id b)) (find_bar p barrier_id))))))"

definition get_barrier_only_from_id ::
  "pid_t \<times> pid_t \<Rightarrow> u32 \<Rightarrow> ((pid_t \<times> u32) option, barrier_mod) cmd" where
  "get_barrier_only_from_id current barrier_id =
     bnd (get_ptgid (fst current)) (\<lambda>ptgid. get_barrier_from_ptgid ptgid barrier_id)"

section \<open>The three operations\<close>

text \<open>
  \<open>current\<close> is the pair of the caller's process id and thread id; \<open>km1\<close> and \<open>km2\<close>
  say whether the two allocations succeed. A result carries the barrier id that the
  operation stores into the request.
\<close>

definition new_ptgid :: "pid_t \<Rightarrow> per_tgid" where
  "new_ptgid t = \<lparr>tgid = t, bid_count = 0, barrier_size = 0, barrier_head = []\<rparr>"

definition barrier_init ::
  "pid_t \<times> pid_t \<Rightarrow> bool \<Rightarrow> bool \<Rightarrow> s32 \<Rightarrow> (int \<times> u32 option, barrier_mod) cmd" where
  "barrier_init current km1 km2 count =
     (let t = fst current in
      if 0 > sint count then ret (- 1, None)
      else
        bnd (spin_lock G_tgid_list_lock) (\<lambda>_.
        bnd (get_ptgid_without_lock t) (\<lambda>ptgid.
        bnd (if ptgid = None
             then (if km1 then upd (\<lambda>st. st\<lparr>tgid_list := new_ptgid t # tgid_list st\<rparr>)
                   else crash NullDeref)
             else ret ()) (\<lambda>_.
        bnd (spin_unlock G_tgid_list_lock) (\<lambda>_.
        bnd (deref_ptgid t) (\<lambda>p.
        bnd (get_barrier_from_ptgid (Some t) (bid_count p)) (\<lambda>barrier.
        if barrier \<noteq> None then ret (- 1, None)
        else
          bnd (spin_lock (Barrier_head_lock t)) (\<lambda>_.
          bnd (deref_ptgid t) (\<lambda>p.
          bnd (upd (upd_ptgid t (\<lambda>p. p\<lparr>bid_count := bid_count p + 1\<rparr>))) (\<lambda>_.
          if \<not> km2 then crash NullDeref
          else
            bnd (upd (upd_ptgid t (\<lambda>q. q\<lparr>barrier_size := barrier_size q + 1,
                   barrier_head := init_barrier_struct current count (bid_count p) # barrier_head q\<rparr>)))
              (\<lambda>_.
            bnd (spin_unlock (Barrier_head_lock t)) (\<lambda>_.
            ret (0, Some (bid_count p))))))))))))))"

text \<open>Reading a barrier through a pointer, and running a critical section on it.\<close>

definition deref_bar :: "pid_t \<times> u32 \<Rightarrow> (barrier_struct, barrier_mod) cmd" where
  "deref_bar pt st =
     (case Option.bind (find_ptgid (fst pt) st) (\<lambda>p. find_bar p (snd pt)) of
        None \<Rightarrow> Oops UseAfterFree st
      | Some b \<Rightarrow> Ret b st)"

definition run_section ::
  "(barrier_struct \<Rightarrow> sysret \<times> barrier_struct) \<Rightarrow> pid_t \<times> u32 \<Rightarrow> (sysret, barrier_mod) cmd" where
  "run_section sec pt =
     bnd (deref_bar pt) (\<lambda>_.
     bnd (spin_lock (Lock_total (fst pt) (snd pt))) (\<lambda>_.
     bnd (deref_bar pt) (\<lambda>b.
     bnd (upd (upd_ptgid (fst pt) (upd_bar (snd pt) (\<lambda>_. snd (sec b))))) (\<lambda>_.
     bnd (spin_unlock (Lock_total (fst pt) (snd pt))) (\<lambda>_.
     ret (fst (sec b)))))))"

text \<open>The lookup result is used without a check: a null pointer is dereferenced.\<close>

definition barrier_wait :: "pid_t \<times> pid_t \<Rightarrow> u32 \<Rightarrow> (sysret, barrier_mod) cmd" where
  "barrier_wait current barrier_id =
     bnd (get_barrier_only_from_id current barrier_id) (\<lambda>barrier.
       case barrier of
         None \<Rightarrow> crash NullDeref
       | Some pt \<Rightarrow> run_section wait_section1 pt)"

definition barrier_wait_resume :: "resume \<Rightarrow> pid_t \<times> u32 \<Rightarrow> (sysret, barrier_mod) cmd" where
  "barrier_wait_resume r pt = run_section (if r = Loop1 then wait_section1 else wait_section2) pt"

text \<open>
  \<open>barrier_destroy\<close>: the drain loop, then the recycling. When the last barrier of the
  process goes, its per-process block is freed before the lock inside it is released.
\<close>

definition destroy_recycle :: "pid_t \<times> u32 \<Rightarrow> (sysret, barrier_mod) cmd" where
  "destroy_recycle pt =
     (let t = fst pt in
      bnd (spin_lock (Barrier_head_lock t)) (\<lambda>_.
      bnd (deref_bar pt) (\<lambda>_.
      bnd (upd (upd_ptgid t (\<lambda>p. p\<lparr>barrier_head := remove_first (\<lambda>b. b_id b = snd pt) (barrier_head p),
             barrier_size := barrier_size p - 1\<rparr>))) (\<lambda>_.
      bnd (deref_ptgid t) (\<lambda>p.
      bnd (if barrier_size p = 0
           then
             bnd (spin_lock G_tgid_list_lock) (\<lambda>_.
             bnd (upd (\<lambda>st. st\<lparr>tgid_list := remove_first (\<lambda>p. tgid p = t) (tgid_list st)\<rparr>)) (\<lambda>_.
             spin_unlock G_tgid_list_lock))
           else ret ()) (\<lambda>_.
      bnd (deref_ptgid t) (\<lambda>_.
      bnd (spin_unlock (Barrier_head_lock t)) (\<lambda>_.
      ret (Value 0)))))))))"

definition destroy_loop :: "pid_t \<times> u32 \<Rightarrow> (sysret, barrier_mod) cmd" where
  "destroy_loop pt =
     bnd (run_section (\<lambda>b. (destroy_section b, b)) pt) (\<lambda>r.
       case r of Sleeps w \<Rightarrow> ret (Sleeps w) | Value _ \<Rightarrow> destroy_recycle pt)"

definition barrier_destroy :: "pid_t \<times> pid_t \<Rightarrow> u32 \<Rightarrow> (sysret, barrier_mod) cmd" where
  "barrier_destroy current barrier_id =
     bnd (get_ptgid (fst current)) (\<lambda>ptgid.
       if ptgid = None then ret (Value (- 1))
       else
         bnd (get_barrier_from_ptgid ptgid barrier_id) (\<lambda>barrier.
           case barrier of
             None \<Rightarrow> ret (Value (- 1))
           | Some pt \<Rightarrow> destroy_loop pt))"

section \<open>The device\<close>

text \<open>
  The ioctl numbers are those of a kernel with pointers of \<open>ps\<close> bytes. \<open>arg\<close> is the
  ioctl argument itself, \<open>binfo_count\<close> the count field it points to for \<open>BARRIER_INIT\<close>.
\<close>

definition BARRIER_INIT :: "u32 \<Rightarrow> u32" where "BARRIER_INIT ps = IOW (CHR ''B'') 1 ps"
definition BARRIER_WAIT :: "u32 \<Rightarrow> u32" where "BARRIER_WAIT ps = IOR (CHR ''B'') 2 ps"
definition BARRIER_DESTROY :: "u32 \<Rightarrow> u32" where "BARRIER_DESTROY ps = IOW (CHR ''B'') 3 ps"

definition eosi_barrier_ioctl ::
  "u32 \<Rightarrow> pid_t \<times> pid_t \<Rightarrow> bool \<Rightarrow> bool \<Rightarrow> u32 \<Rightarrow> u32 \<Rightarrow> s32 \<Rightarrow> (sysret \<times> u32 option, barrier_mod) cmd" where
  "eosi_barrier_ioctl ps current km1 km2 cmd arg binfo_count =
     (if cmd = BARRIER_INIT ps
      then bnd (barrier_init current km1 km2 binfo_count) (\<lambda>r. ret (Value (fst r), snd r))
      else if cmd = BARRIER_WAIT ps
      then bnd (barrier_wait current arg) (\<lambda>r. ret (r, None))
      else if cmd = BARRIER_DESTROY ps
      then bnd (barrier_destroy current arg) (\<lambda>r. ret (r, None))
      else ret (Value (- EINVAL), None))"

definition eosi_barrier_open :: "(int, barrier_mod) cmd" where
  "eosi_barrier_open = ret 0"

definition eosi_barrier_release :: "(int, barrier_mod) cmd" where
  "eosi_barrier_release = ret 0"

text \<open>
  Registration of the two misc devices: \<open>rA\<close> and \<open>rB\<close> are the answers of
  \<open>misc_register\<close>; the result is the return value of the module's init function and which
  of the two devices are registered. A failure is logged but not returned.
\<close>

definition reg_misc :: "int \<Rightarrow> bool" where
  "reg_misc r \<longleftrightarrow> r \<noteq> 0"

definition eosi_barrier_init :: "int \<Rightarrow> int \<Rightarrow> int \<times> bool \<times> bool" where
  "eosi_barrier_init rA rB =
     (if reg_misc rA then (0, False, False)
      else if reg_misc rB then (0, True, False)
      else (0, True, True))"

text \<open>
  Unloading deregisters both devices, one after the other, whether or not they were
  registered, and frees none of the barriers: the devices the two calls concern, and the
  registry that is left behind.
\<close>

datatype misc_dev = Eosi_barrier_A | Eosi_barrier_B

definition dereg_misc :: "misc_dev \<Rightarrow> misc_dev list \<Rightarrow> misc_dev list" where
  "dereg_misc md calls = calls @ [md]"

definition eosi_barrier_exit :: "barrier_mod \<Rightarrow> misc_dev list \<times> barrier_mod" where
  "eosi_barrier_exit st = (dereg_misc Eosi_barrier_B (dereg_misc Eosi_barrier_A []), st)"

section \<open>Well-formed registries\<close>

definition ptgid_ok :: "per_tgid \<Rightarrow> bool" where
  "ptgid_ok p \<longleftrightarrow>
     barrier_size p = int (length (barrier_head p)) \<and> barrier_head p \<noteq> []
     \<and> distinct (map b_id (barrier_head p))
     \<and> list_all (\<lambda>b. b_tgid b = tgid p) (barrier_head p)"

definition reg_inv :: "barrier_mod \<Rightarrow> bool" where
  "reg_inv st \<longleftrightarrow>
     held st = {} \<and> distinct (map tgid (tgid_list st)) \<and> list_all ptgid_ok (tgid_list st)"

text \<open>What a registry stands for: a map from process id and barrier id to the barrier.\<close>

definition bar_at :: "barrier_mod \<Rightarrow> pid_t \<times> u32 \<Rightarrow> barrier_struct option" where
  "bar_at st pt = Option.bind (find_ptgid (fst pt) st) (\<lambda>p. find_bar p (snd pt))"

text \<open>The id the next barrier of a process gets.\<close>

definition next_bid :: "barrier_mod \<Rightarrow> pid_t \<Rightarrow> u32" where
  "next_bid st t = (case find_ptgid t st of None \<Rightarrow> 0 | Some p \<Rightarrow> bid_count p)"

lemma find_ptgid_held [simp]: "find_ptgid t (st\<lparr>held := h\<rparr>) = find_ptgid t st"
  by (simp add: find_ptgid_def)

lemma find_ptgid_upd:
  assumes "\<And>p. tgid (f p) = tgid p"
  shows "find_ptgid t' (upd_ptgid t f st) =
    (if t' = t then map_option f (find_ptgid t st) else find_ptgid t' st)"
  using assms
  by (auto simp: find_ptgid_def upd_ptgid_def intro: find_update_first_same find_update_first_other)

lemma held_upd_ptgid [simp]: "held (upd_ptgid t f st) = held st"
  by (simp add: upd_ptgid_def)

lemma upd_ptgid_held [simp]: "upd_ptgid t f (st\<lparr>held := h\<rparr>) = (upd_ptgid t f st)\<lparr>held := h\<rparr>"
  by (simp add: upd_ptgid_def)

lemma find_ptgid_cons:
  "find_ptgid t (st\<lparr>tgid_list := p # tgid_list st\<rparr>) = (if tgid p = t then Some p else find_ptgid t st)"
  by (simp add: find_ptgid_def)

lemma bar_at_held [simp]: "bar_at (st\<lparr>held := h\<rparr>) = bar_at st"
  by (simp add: bar_at_def fun_eq_iff)

lemma held_same: "held st = h \<Longrightarrow> st\<lparr>held := h\<rparr> = st" for st :: barrier_mod
  by (cases st) simp

lemma deref_ptgid_simp [simp]:
  "find_ptgid t st = Some p \<Longrightarrow> deref_ptgid t st = Ret p st"
  by (simp add: deref_ptgid_def)

lemma deref_bar_eq:
  "deref_bar pt st = (case bar_at st pt of None \<Rightarrow> Oops UseAfterFree st | Some b \<Rightarrow> Ret b st)"
  by (simp add: deref_bar_def bar_at_def)

lemma reg_invD:
  assumes "reg_inv st"
  shows "held st = {}" and "distinct (map tgid (tgid_list st))"
    and "find_ptgid t st = Some p \<Longrightarrow> ptgid_ok p \<and> tgid p = t"
  using assms by (auto simp: reg_inv_def list_all_iff find_ptgid_def dest!: find_in_set)

lemma reg_inv_upd:
  assumes inv: "reg_inv st" and p: "find_ptgid t st = Some p"
    and f: "\<And>p. tgid (f p) = tgid p" and ok: "ptgid_ok (f p)"
  shows "reg_inv (upd_ptgid t f st)"
proof -
  have "map tgid (update_first (\<lambda>p. tgid p = t) f (tgid_list st)) = map tgid (tgid_list st)"
    by (rule map_update_first) (simp add: f)
  with inv p ok show ?thesis
    by (auto simp: reg_inv_def upd_ptgid_def list_all_iff find_ptgid_def dest!: in_set_update_first)
qed

lemma reg_inv_new:
  assumes "reg_inv st" and "find_ptgid (tgid p) st = None" and "ptgid_ok p"
  shows "reg_inv (st\<lparr>tgid_list := p # tgid_list st\<rparr>)"
  using assms by (auto simp: reg_inv_def find_ptgid_def find_None_iff)

section \<open>Lookup\<close>

lemma get_ptgid_eq:
  assumes "reg_inv st"
  shows "get_ptgid t st = Ret (if find_ptgid t st = None then None else Some t) st"
  using reg_invD(1) [OF assms] reg_invD(3) [OF assms, of t]
  by (auto simp: get_ptgid_def run_simps held_same)

lemma get_barrier_from_ptgid_eq:
  assumes "held st = {}" and "find_ptgid t st = Some p"
  shows "get_barrier_from_ptgid (Some t) i st =
    Ret (if bar_at st (t, i) = None then None else Some (t, i)) st"
  using assms
  by (auto simp: get_barrier_from_ptgid_def run_simps held_same bar_at_def find_bar_def
      dest: find_in_set)

lemma get_barrier_only_from_id_eq:
  assumes "reg_inv st"
  shows "get_barrier_only_from_id current i st =
    Ret (if bar_at st (fst current, i) = None then None else Some (fst current, i)) st"
proof (cases "find_ptgid (fst current) st")
  case None
  then show ?thesis
    by (simp add: get_barrier_only_from_id_def run_simps get_ptgid_eq [OF assms] bar_at_def
        get_barrier_from_ptgid_def)
next
  case (Some p)
  then show ?thesis
    by (simp add: get_barrier_only_from_id_def bnd_def get_ptgid_eq [OF assms]
        get_barrier_from_ptgid_eq [OF reg_invD(1) [OF assms] Some])
qed

section \<open>What the operations do to the registry\<close>

text \<open>The per-process block after a new barrier has been linked.\<close>

definition link_bar :: "pid_t \<times> pid_t \<Rightarrow> s32 \<Rightarrow> per_tgid \<Rightarrow> per_tgid" where
  "link_bar current count p =
     p\<lparr>bid_count := bid_count p + 1, barrier_size := barrier_size p + 1,
       barrier_head := init_barrier_struct current count (bid_count p) # barrier_head p\<rparr>"

lemma tgid_link_bar [simp]: "tgid (link_bar current count p) = tgid p"
  by (simp add: link_bar_def)

lemma upd_ptgid_twice:
  assumes "\<And>p. tgid (f p) = tgid p"
  shows "upd_ptgid t g (upd_ptgid t f st) = upd_ptgid t (\<lambda>p. g (f p)) st"
proof -
  have "update_first (\<lambda>p. tgid p = t) g (update_first (\<lambda>p. tgid p = t) f ps) =
      update_first (\<lambda>p. tgid p = t) (\<lambda>p. g (f p)) ps" for ps
    using assms by (induction ps) auto
  then show ?thesis by (simp add: upd_ptgid_def)
qed

text \<open>The part of \<open>barrier_init\<close> after the per-process block has been found or made.\<close>

lemma update_first_cong:
  "find P xs = Some x \<Longrightarrow> f x = g x \<Longrightarrow> update_first P f xs = update_first P g xs"
  by (induction xs) (auto split: if_splits)

lemma upd_ptgid_cong:
  "find_ptgid t st = Some p \<Longrightarrow> f p = g p \<Longrightarrow> upd_ptgid t f st = upd_ptgid t g st"
  using update_first_cong [of "\<lambda>p. tgid p = t" "tgid_list st" p f g]
  by (simp add: upd_ptgid_def find_ptgid_def)

lemma barrier_init_negative:
  "0 > sint count \<Longrightarrow> barrier_init current km1 km2 count st = Ret (- 1, None) st"
  by (simp add: barrier_init_def Let_def run_simps)

lemma init_known:
  assumes "held st = {}" and p: "find_ptgid (fst current) st = Some p" and "0 \<le> sint count"
    and tp: "tgid p = fst current"
  shows "barrier_init current km1 True count st =
    (if bar_at st (fst current, bid_count p) = None
     then Ret (0, Some (bid_count p)) (upd_ptgid (fst current) (link_bar current count) st)
     else Ret (- 1, None) st)"
proof -
  let ?t = "fst current"
  have c: "upd_ptgid ?t (\<lambda>q. q\<lparr>bid_count := bid_count q + 1, barrier_size := barrier_size q + 1,
        barrier_head := init_barrier_struct current count (bid_count p) # barrier_head q\<rparr>) st
      = upd_ptgid ?t (link_bar current count) st"
    by (rule upd_ptgid_cong [OF p]) (simp add: link_bar_def)
  show ?thesis
    using assms
    by (auto simp: barrier_init_def Let_def run_simps get_ptgid_without_lock_def held_same
        get_barrier_from_ptgid_eq upd_ptgid_twice c)
qed

lemma init_new:
  assumes "held st = {}" and p: "find_ptgid (fst current) st = None" and "0 \<le> sint count"
  shows "barrier_init current True True count st =
    Ret (0, Some 0) (st\<lparr>tgid_list := link_bar current count (new_ptgid (fst current)) # tgid_list st\<rparr>)"
proof -
  let ?st1 = "st\<lparr>tgid_list := new_ptgid (fst current) # tgid_list st\<rparr>"
  have f: "find_ptgid (fst current) ?st1 = Some (new_ptgid (fst current))"
    by (simp add: find_ptgid_cons new_ptgid_def)
  have "barrier_init current True True count st = barrier_init current True True count ?st1"
    using assms f
    by (simp add: barrier_init_def Let_def run_simps get_ptgid_without_lock_def)
  also have "\<dots> = Ret (0, Some 0) (upd_ptgid (fst current) (link_bar current count) ?st1)"
    using assms f init_known [of ?st1 current "new_ptgid (fst current)" count True]
    by (simp add: bar_at_def find_bar_def new_ptgid_def)
  finally show ?thesis by (simp add: upd_ptgid_def new_ptgid_def)
qed

lemma new_ptgid_simps [simp]:
  "tgid (new_ptgid t) = t" "bid_count (new_ptgid t) = 0" "find_bar (new_ptgid t) i = None"
  by (simp_all add: new_ptgid_def find_bar_def)

lemma find_bar_link:
  "find_bar (link_bar current count p) i =
     (if i = bid_count p then Some (init_barrier_struct current count (bid_count p)) else find_bar p i)"
  by (auto simp: find_bar_def link_bar_def init_barrier_struct_def)

lemma link_bar_ok:
  assumes "barrier_head p = [] \<or> ptgid_ok p" and "barrier_size p = int (length (barrier_head p))"
    and "find_bar p (bid_count p) = None" and "tgid p = fst current"
  shows "ptgid_ok (link_bar current count p)"
  using assms
  by (auto simp: ptgid_ok_def link_bar_def find_bar_def init_barrier_struct_def find_None_iff)

text \<open>A successful \<open>barrier_init\<close>, from a well-formed registry.\<close>

lemma init_spec:
  assumes inv: "reg_inv st" and c: "0 \<le> sint count"
    and free: "bar_at st (fst current, next_bid st (fst current)) = None"
  shows "\<exists>st'. barrier_init current True True count st = Ret (0, Some (next_bid st (fst current))) st'
    \<and> reg_inv st'
    \<and> bar_at st' = (bar_at st)((fst current, next_bid st (fst current)) \<mapsto>
        init_barrier_struct current count (next_bid st (fst current)))"
proof (cases "find_ptgid (fst current) st")
  case None
  let ?p = "link_bar current count (new_ptgid (fst current))"
  let ?st' = "st\<lparr>tgid_list := ?p # tgid_list st\<rparr>"
  have "ptgid_ok ?p" by (rule link_bar_ok) (simp_all add: new_ptgid_def find_bar_def)
  then have "reg_inv ?st'" using inv None by (intro reg_inv_new) (simp_all add: new_ptgid_def)
  moreover have "bar_at ?st' = (bar_at st)((fst current, 0) \<mapsto> init_barrier_struct current count 0)"
    by (rule ext) (auto simp: bar_at_def find_ptgid_cons find_bar_link None)
  ultimately show ?thesis
    using init_new [OF reg_invD(1) [OF inv] None c] by (simp add: next_bid_def None)
next
  case (Some p)
  let ?st' = "upd_ptgid (fst current) (link_bar current count) st"
  note p = reg_invD(3) [OF inv Some]
  have nb: "next_bid st (fst current) = bid_count p" by (simp add: next_bid_def Some)
  have fr: "find_bar p (bid_count p) = None" using free by (simp add: nb bar_at_def Some)
  have "ptgid_ok (link_bar current count p)"
    using p fr by (intro link_bar_ok) (auto simp: ptgid_ok_def)
  with inv Some have "reg_inv ?st'" by (rule reg_inv_upd [OF _ _ tgid_link_bar])
  moreover have "bar_at ?st' =
      (bar_at st)((fst current, bid_count p) \<mapsto> init_barrier_struct current count (bid_count p))"
    by (rule ext) (auto simp: bar_at_def find_ptgid_upd Some find_bar_link)
  ultimately show ?thesis
    using init_known [OF reg_invD(1) [OF inv] Some c] p free by (simp add: nb)
qed

lemma init_duplicate:
  assumes inv: "reg_inv st" and c: "0 \<le> sint count"
    and dup: "bar_at st (fst current, next_bid st (fst current)) \<noteq> None"
  shows "barrier_init current km1 True count st = Ret (- 1, None) st"
proof -
  from dup obtain p where p: "find_ptgid (fst current) st = Some p"
    by (cases "find_ptgid (fst current) st") (auto simp: bar_at_def)
  from reg_invD(3) [OF inv p] dup show ?thesis
    by (auto simp: init_known [OF reg_invD(1) [OF inv] p c] next_bid_def p)
qed

text \<open>Running a critical section on a live barrier replaces just that barrier.\<close>

lemma upd_bar_ok:
  assumes p: "ptgid_ok p" and b: "find_bar p i = Some b"
    and f: "b_id (f b) = i" "b_tgid (f b) = b_tgid b"
  shows "ptgid_ok (upd_bar i f p)" and "find_bar (upd_bar i f p) i = Some (f b)"
    and "j \<noteq> i \<Longrightarrow> find_bar (upd_bar i f p) j = find_bar p j"
proof -
  have bi: "b_id b = i" "b \<in> set (barrier_head p)"
    using b by (auto simp: find_bar_def dest: find_in_set)
  let ?u = "update_first (\<lambda>b. b_id b = i) f (barrier_head p)"
  have ueq: "?u = update_first (\<lambda>b. b_id b = i) (\<lambda>_. f b) (barrier_head p)"
    using b by (intro update_first_cong) (simp_all add: find_bar_def)
  have "map b_id ?u = map b_id (barrier_head p)"
    unfolding ueq by (rule map_update_first) (simp add: f)
  with p f bi show "ptgid_ok (upd_bar i f p)"
    by (auto simp: ptgid_ok_def upd_bar_def list_all_iff ueq dest!: in_set_update_first
        arg_cong [where f = length])
  show "find_bar (upd_bar i f p) i = Some (f b)"
    using b by (simp add: find_bar_def upd_bar_def ueq find_update_first_same f)
  show "find_bar (upd_bar i f p) j = find_bar p j" if "j \<noteq> i"
    using that by (simp add: find_bar_def upd_bar_def ueq find_update_first_other f)
qed

definition keeps_identity :: "(barrier_struct \<Rightarrow> sysret \<times> barrier_struct) \<Rightarrow> bool" where
  "keeps_identity sec \<longleftrightarrow>
     (\<forall>b. b_id (snd (sec b)) = b_id b \<and> b_tgid (snd (sec b)) = b_tgid b
        \<and> b_count (snd (sec b)) = b_count b)"

lemma sections_keep_identity:
  "keeps_identity wait_section2" "keeps_identity wait_section1"
  "keeps_identity (\<lambda>b. (destroy_section b, b))"
  by (auto simp: keeps_identity_def wait_section1_def wait_section2_def wake_up_here_def Let_def)

lemma run_section_spec:
  assumes inv: "reg_inv st" and b: "bar_at st pt = Some b" and sec: "keeps_identity sec"
  shows "\<exists>st'. run_section sec pt st = Ret (fst (sec b)) st' \<and> reg_inv st'
    \<and> bar_at st' = (bar_at st)(pt \<mapsto> snd (sec b))"
proof -
  obtain t i where pt: "pt = (t, i)" by (cases pt)
  from b obtain p where p: "find_ptgid t st = Some p" "find_bar p i = Some b"
    by (auto simp: bar_at_def pt bind_eq_Some_conv)
  have bi: "b_id b = i" using p(2) by (auto simp: find_bar_def dest: find_in_set)
  let ?f = "upd_bar i (\<lambda>_. snd (sec b))"
  let ?st' = "upd_ptgid t ?f st"
  have tf: "tgid (?f q) = tgid q" for q by (simp add: upd_bar_def)
  have s: "b_id (snd (sec b)) = i" "b_tgid (snd (sec b)) = b_tgid b"
    using sec bi by (simp_all add: keeps_identity_def)
  note u = upd_bar_ok [where f = "\<lambda>_. snd (sec b)", OF _ p(2) s]
  have fb: "find_bar (?f p) j = (if j = i then Some (snd (sec b)) else find_bar p j)" for j
    using reg_invD(3) [OF inv p(1)] by (simp add: u)
  have "run_section sec pt st = Ret (fst (sec b)) ?st'"
    using b reg_invD(1) [OF inv]
    by (simp add: run_section_def run_simps deref_bar_eq held_same pt)
  moreover have "reg_inv ?st'"
    using reg_invD(3) [OF inv p(1)] by (intro reg_inv_upd [OF inv p(1) tf] u(1)) simp_all
  moreover have "bar_at ?st' = (bar_at st)(pt \<mapsto> snd (sec b))"
    by (intro ext) (auto simp: bar_at_def find_ptgid_upd [OF tf] p(1) pt fb)
  ultimately show ?thesis by blast
qed

text \<open>\<open>barrier_wait\<close> up to its return or its first sleep.\<close>

lemma wait_spec:
  assumes inv: "reg_inv st" and b: "bar_at st (fst current, i) = Some b"
  shows "\<exists>st'. barrier_wait current i st = Ret (fst (wait_section1 b)) st' \<and> reg_inv st'
    \<and> bar_at st' = (bar_at st)((fst current, i) \<mapsto> snd (wait_section1 b))"
  using run_section_spec [OF inv b sections_keep_identity(2)] b
  by (simp add: barrier_wait_def bnd_def get_barrier_only_from_id_eq [OF inv])

text \<open>Unlinking a barrier that is not the last of its process, and the last one.\<close>

definition unlink_bar :: "u32 \<Rightarrow> per_tgid \<Rightarrow> per_tgid" where
  "unlink_bar i p = p\<lparr>barrier_head := remove_first (\<lambda>b. b_id b = i) (barrier_head p),
     barrier_size := barrier_size p - 1\<rparr>"

lemma tgid_unlink_bar [simp]: "tgid (unlink_bar i p) = tgid p"
  by (simp add: unlink_bar_def)

lemma find_bar_unlink:
  assumes "ptgid_ok p"
  shows "find_bar (unlink_bar i p) j = (if j = i then None else find_bar p j)"
proof (cases "j = i")
  case True
  then show ?thesis
    using assms find_remove_first_same [of b_id "barrier_head p" i]
    by (simp add: find_bar_def unlink_bar_def ptgid_ok_def)
next
  case False
  then show ?thesis by (simp add: find_bar_def unlink_bar_def find_remove_first_other)
qed

lemma unlink_bar_ok:
  assumes p: "ptgid_ok p" and b: "find_bar p i = Some b"
  shows "barrier_size (unlink_bar i p) = int (length (barrier_head (unlink_bar i p)))"
    and "barrier_size (unlink_bar i p) \<noteq> 0 \<Longrightarrow> ptgid_ok (unlink_bar i p)"
proof -
  have l: "Suc (length (remove_first (\<lambda>b. b_id b = i) (barrier_head p))) = length (barrier_head p)"
    using b by (intro length_remove_first) (simp add: find_bar_def)
  with p show sz: "barrier_size (unlink_bar i p) = int (length (barrier_head (unlink_bar i p)))"
    by (simp add: unlink_bar_def ptgid_ok_def)
  assume "barrier_size (unlink_bar i p) \<noteq> 0"
  with sz p set_remove_first [of "\<lambda>b. b_id b = i" "barrier_head p"] show "ptgid_ok (unlink_bar i p)"
    by (auto simp: ptgid_ok_def unlink_bar_def distinct_remove_first list_all_iff)
qed

definition last_barrier :: "barrier_mod \<Rightarrow> pid_t \<Rightarrow> bool" where
  "last_barrier st t = (case find_ptgid t st of None \<Rightarrow> False | Some p \<Rightarrow> length (barrier_head p) = 1)"

lemma recycle_other:
  assumes inv: "reg_inv st" and b: "bar_at st (t, i) = Some b" and more: "\<not> last_barrier st t"
  shows "\<exists>st'. destroy_recycle (t, i) st = Ret (Value 0) st' \<and> reg_inv st'
    \<and> bar_at st' = (bar_at st)((t, i) := None)"
proof -
  from b obtain p where p: "find_ptgid t st = Some p" "find_bar p i = Some b"
    by (auto simp: bar_at_def bind_eq_Some_conv)
  note ok = reg_invD(3) [OF inv p(1)]
  let ?st' = "upd_ptgid t (unlink_bar i) st"
  have "Suc (length (remove_first (\<lambda>b. b_id b = i) (barrier_head p))) = length (barrier_head p)"
    using p(2) by (intro length_remove_first) (simp add: find_bar_def)
  with more p ok have nz: "barrier_size (unlink_bar i p) \<noteq> 0"
    by (auto simp: last_barrier_def unlink_bar_def ptgid_ok_def)
  have "destroy_recycle (t, i) st = Ret (Value 0) ?st'"
    using b nz p(1) reg_invD(1) [OF inv]
    by (simp add: destroy_recycle_def Let_def run_simps deref_bar_eq held_same
        unlink_bar_def [symmetric] deref_ptgid_def find_ptgid_upd)
  moreover have "reg_inv ?st'"
    using ok nz p(2) by (intro reg_inv_upd [OF inv p(1)] unlink_bar_ok) auto
  moreover have "bar_at ?st' = (bar_at st)((t, i) := None)"
    using ok by (intro ext) (auto simp: bar_at_def find_ptgid_upd p(1) find_bar_unlink)
  ultimately show ?thesis by blast
qed

lemma recycle_last:
  assumes inv: "reg_inv st" and b: "bar_at st (t, i) = Some b" and last: "last_barrier st t"
  shows "\<exists>st'. destroy_recycle (t, i) st = Oops UseAfterFree st'
    \<and> held st' = {Barrier_head_lock t} \<and> bar_at st' = (bar_at st)((t, i) := None)"
proof -
  from b obtain p where p: "find_ptgid t st = Some p" "find_bar p i = Some b"
    by (auto simp: bar_at_def bind_eq_Some_conv)
  note ok = reg_invD(3) [OF inv p(1)]
  let ?st1 = "upd_ptgid t (unlink_bar i) st"
  let ?l = "remove_first (\<lambda>p. tgid p = t) (tgid_list ?st1)"
  let ?st2 = "?st1\<lparr>tgid_list := ?l, held := {Barrier_head_lock t}\<rparr>"
  have z: "barrier_size (unlink_bar i p) = 0"
    using last p ok by (simp add: last_barrier_def unlink_bar_def ptgid_ok_def)
  have only: "find_bar p j = None" if "j \<noteq> i" for j
    using that last p by (auto simp: last_barrier_def find_bar_def length_Suc_conv split: if_splits)
  have "map tgid (tgid_list ?st1) = map tgid (tgid_list st)"
    by (auto simp: upd_ptgid_def intro!: map_update_first)
  then have gone: "find (\<lambda>p. tgid p = t) ?l = None"
    using reg_invD(2) [OF inv] by (intro find_remove_first_same) simp
  have other: "find (\<lambda>p. tgid p = t') ?l = find (\<lambda>p. tgid p = t') (tgid_list st)" if "t' \<noteq> t" for t'
    using that by (subst find_remove_first_other)
      (auto simp: upd_ptgid_def intro!: find_update_first_other)
  have "destroy_recycle (t, i) st = Oops UseAfterFree ?st2"
    using b z p(1) reg_invD(1) [OF inv] gone
    by (simp add: destroy_recycle_def Let_def run_simps deref_bar_eq
        unlink_bar_def [symmetric] deref_ptgid_def find_ptgid_upd)
       (simp add: find_ptgid_def upd_ptgid_def)
  moreover have "bar_at ?st2 = (bar_at st)((t, i) := None)"
  proof (rule ext)
    fix q
    show "bar_at ?st2 q = ((bar_at st)((t, i) := None)) q"
    proof (cases "fst q = t")
      case True
      then have "bar_at ?st2 q = None" using gone by (simp add: bar_at_def find_ptgid_def)
      moreover have "snd q \<noteq> i \<Longrightarrow> bar_at st q = None"
        using True only p(1) by (simp add: bar_at_def)
      ultimately show ?thesis using True by (cases "snd q = i") (auto simp: prod_eq_iff)
    next
      case False
      then show ?thesis using other [of "fst q"] by (auto simp: bar_at_def find_ptgid_def)
    qed
  qed
  ultimately show ?thesis by auto
qed

text \<open>\<open>barrier_destroy\<close>, case by case.\<close>

lemma destroy_unknown:
  assumes inv: "reg_inv st" and b: "bar_at st (fst current, i) = None"
  shows "barrier_destroy current i st = Ret (Value (- 1)) st"
proof (cases "find_ptgid (fst current) st")
  case None
  then show ?thesis by (simp add: barrier_destroy_def run_simps get_ptgid_eq [OF inv])
next
  case (Some p)
  then show ?thesis
    using b by (simp add: barrier_destroy_def run_simps get_ptgid_eq [OF inv]
        get_barrier_from_ptgid_eq [OF reg_invD(1) [OF inv] Some])
qed

lemma run_destroy_section:
  assumes inv: "reg_inv st" and b: "bar_at st pt = Some b"
  shows "run_section (\<lambda>b. (destroy_section b, b)) pt st = Ret (destroy_section b) st"
proof -
  obtain t i where pt: "pt = (t, i)" by (cases pt)
  from b obtain p where p: "find_ptgid t st = Some p" "find_bar p i = Some b"
    by (auto simp: bar_at_def pt bind_eq_Some_conv)
  have "upd_bar i (\<lambda>_. b) p = p"
  proof -
    have "update_first (\<lambda>b. b_id b = i) (\<lambda>_. b) (barrier_head p)
        = update_first (\<lambda>b. b_id b = i) id (barrier_head p)"
      using p(2) by (intro update_first_cong) (simp_all add: find_bar_def)
    then show ?thesis by (simp add: upd_bar_def update_first_id)
  qed
  then have "upd_ptgid t (upd_bar i (\<lambda>_. b)) st = upd_ptgid t id st"
    by (intro upd_ptgid_cong [OF p(1)]) simp
  then have "upd_ptgid t (upd_bar i (\<lambda>_. b)) st = st"
    by (simp add: upd_ptgid_def update_first_id)
  then show ?thesis
    using b reg_invD(1) [OF inv]
    by (simp add: run_section_def run_simps deref_bar_eq held_same pt)
qed

lemma destroy_known:
  assumes inv: "reg_inv st" and b: "bar_at st (fst current, i) = Some b"
  shows "barrier_destroy current i st =
    (if b_total b > BARRIER_FLAG then Ret (Sleeps Drain) st else destroy_recycle (fst current, i) st)"
proof -
  from b obtain p where p: "find_ptgid (fst current) st = Some p"
    by (auto simp: bar_at_def bind_eq_Some_conv)
  show ?thesis
    using b by (simp add: barrier_destroy_def run_simps get_ptgid_eq [OF inv] p destroy_loop_def
        get_barrier_from_ptgid_eq [OF reg_invD(1) [OF inv] p] run_destroy_section [OF inv b])
       (simp add: destroy_section_def ret_def)
qed

lemma wait_unknown:
  assumes "reg_inv st" and "bar_at st (fst current, i) = None"
  shows "barrier_wait current i st = Oops NullDeref st"
  using assms(2) by (simp add: barrier_wait_def run_simps get_barrier_only_from_id_eq [OF assms(1)])

section \<open>The registry as a table of handles\<close>

definition reg_alloc :: "pid_t \<times> pid_t \<Rightarrow> s32 \<Rightarrow> barrier_mod \<Rightarrow> (u32 \<times> barrier_mod) option" where
  "reg_alloc current count st =
     (case barrier_init current True True count st of
        Ret (r, Some i) st' \<Rightarrow> if r = 0 then Some (i, st') else None
      | _ \<Rightarrow> None)"

text \<open>A \<open>barrier_wait\<close> call (no resumption point) or what it runs after a wake-up.\<close>

definition reg_use :: "resume option \<Rightarrow> pid_t \<times> pid_t \<Rightarrow> u32 \<Rightarrow> barrier_mod \<Rightarrow> barrier_mod option" where
  "reg_use r current i st =
     (case (case r of None \<Rightarrow> barrier_wait current i st
            | Some p \<Rightarrow> barrier_wait_resume p (fst current, i) st) of
        Ret _ st' \<Rightarrow> Some st' | Oops _ _ \<Rightarrow> None)"

definition reg_free :: "pid_t \<times> pid_t \<Rightarrow> u32 \<Rightarrow> barrier_mod \<Rightarrow> barrier_mod option" where
  "reg_free current i st =
     (case barrier_destroy current i st of
        Ret (Value r) st' \<Rightarrow> if r = 0 then Some st' else None
      | _ \<Rightarrow> None)"

lemma reg_alloc_law:
  assumes inv: "reg_inv st" and a: "reg_alloc current count st = Some (i, st')"
  shows "reg_inv st' \<and> bar_at st (fst current, i) = None
    \<and> (\<exists>b. bar_at st' = (bar_at st)((fst current, i) \<mapsto> b))"
proof -
  have c: "0 \<le> sint count"
  proof (rule ccontr)
    assume "\<not> 0 \<le> sint count"
    then show False using a by (simp add: reg_alloc_def barrier_init_negative)
  qed
  have f: "bar_at st (fst current, next_bid st (fst current)) = None"
  proof (rule ccontr)
    assume "bar_at st (fst current, next_bid st (fst current)) \<noteq> None"
    then show False using a by (simp add: reg_alloc_def init_duplicate [OF inv c])
  qed
  from init_spec [OF inv c f] a f show ?thesis by (auto simp: reg_alloc_def)
qed

lemma reg_use_law:
  assumes inv: "reg_inv st" and a: "reg_use r current i st = Some st'"
  shows "reg_inv st' \<and> bar_at st (fst current, i) \<noteq> None
    \<and> (\<exists>b. bar_at st' = (bar_at st)((fst current, i) \<mapsto> b))"
proof (cases "bar_at st (fst current, i)")
  case None
  then have "reg_use r current i st = None"
    by (cases r) (simp_all add: reg_use_def wait_unknown [OF inv] barrier_wait_resume_def
        run_section_def run_simps deref_bar_eq)
  with a show ?thesis by simp
next
  case (Some b)
  show ?thesis
  proof (cases r)
    case None
    with wait_spec [OF inv Some] a Some show ?thesis by (auto simp: reg_use_def)
  next
    case (Some p)
    have "keeps_identity (if p = Loop1 then wait_section1 else wait_section2)"
      by (simp add: sections_keep_identity)
    from run_section_spec [OF inv \<open>bar_at st (fst current, i) = Some b\<close> this] a Some
      \<open>bar_at st (fst current, i) = Some b\<close>
    show ?thesis by (auto simp: reg_use_def barrier_wait_resume_def)
  qed
qed

lemma reg_free_law:
  assumes inv: "reg_inv st" and a: "reg_free current i st = Some st'"
  shows "reg_inv st' \<and> bar_at st (fst current, i) \<noteq> None
    \<and> bar_at st' = (bar_at st)((fst current, i) := None)"
proof (cases "bar_at st (fst current, i)")
  case None
  with a show ?thesis by (simp add: reg_free_def destroy_unknown [OF inv])
next
  case (Some b)
  then have "destroy_recycle (fst current, i) st = Ret (Value 0) st'"
    using a by (auto simp: reg_free_def destroy_known [OF inv Some]
        split: outcome.splits sysret.splits if_splits)
  then show ?thesis
    using recycle_last [OF inv Some] recycle_other [OF inv Some] Some by fastforce
qed

interpretation reg: handle_table reg_alloc reg_use reg_free bar_at fst reg_inv
  by unfold_locales (fact reg_alloc_law reg_use_law reg_free_law)+

text \<open>A sequence of completed calls, by any threads of any processes.\<close>

type_synonym reg_call = "(pid_t \<times> pid_t, s32, resume option, u32) table_op"

fun reg_run :: "reg_call list \<Rightarrow> barrier_mod \<Rightarrow> barrier_mod option" where
  "reg_run [] st = Some st"
| "reg_run (Alloc c n # ops) st =
     (case reg_alloc c n st of None \<Rightarrow> None | Some (_, st') \<Rightarrow> reg_run ops st')"
| "reg_run (Use r c i # ops) st =
     (case reg_use r c i st of None \<Rightarrow> None | Some st' \<Rightarrow> reg_run ops st')"
| "reg_run (Free c i # ops) st =
     (case reg_free c i st of None \<Rightarrow> None | Some st' \<Rightarrow> reg_run ops st')"

lemma reg_run_exec_all: "reg_run ops st = reg.exec_all ops st"
  by (induction ops st rule: reg_run.induct) (auto split: option.splits)

definition boot :: barrier_mod where
  "boot = \<lparr>held = {}, tgid_list = []\<rparr>"

lemma boot_inv [simp]: "reg_inv boot"
  by (simp add: boot_def reg_inv_def)

lemmas eval_calls =
  boot_def barrier_init_def barrier_wait_def barrier_destroy_def destroy_loop_def
  destroy_recycle_def run_section_def get_ptgid_without_lock_def get_ptgid_def deref_ptgid_def
  get_barrier_from_ptgid_def get_barrier_only_from_id_def deref_bar_def find_ptgid_def find_bar_def
  upd_ptgid_def upd_bar_def new_ptgid_def init_barrier_struct_def run_simps Let_def

lemma BARRIER_FLAG_nat [simp]: "unat BARRIER_FLAG = 2 ^ 63"
  by (simp add: BARRIER_FLAG_def)

lemma total_cases:
  assumes "\<not> b_total b > BARRIER_FLAG"
  obtains "b_total b = BARRIER_FLAG" "unat (b_total b) mod 2 ^ 63 = 0"
  | "unat (b_total b) < 2 ^ 63" "unat (b_total b) mod 2 ^ 63 = unat (b_total b)" "b_total b \<noteq> BARRIER_FLAG"
proof (cases "b_total b = BARRIER_FLAG")
  case False
  with assms have "unat (b_total b) < 2 ^ 63"
    by (metis BARRIER_FLAG_nat linorder_neqE word_less_nat_alt)
  with False that show ?thesis by auto
qed (use that in auto)

text \<open>The first critical section, with the total read as a number of counted threads.\<close>

lemma wait_section1_cases:
  fixes b :: barrier_struct
  defines "a \<equiv> unat (b_total b) mod 2 ^ 63"
  shows "b_total b > BARRIER_FLAG \<Longrightarrow> wait_section1 b = (Sleeps Loop1, b)"
    and "\<not> b_total b > BARRIER_FLAG \<Longrightarrow> Suc a = unat (b_count b) \<Longrightarrow>
      wait_section1 b = (Value 0, b\<lparr>b_total := BARRIER_FLAG + of_nat a, waitQ := []\<rparr>)"
    and "\<not> b_total b > BARRIER_FLAG \<Longrightarrow> Suc a \<noteq> unat (b_count b) \<Longrightarrow> Suc a < 2 ^ 63 \<Longrightarrow>
      wait_section1 b = (Sleeps Loop2, b\<lparr>b_total := of_nat (Suc a)\<rparr>)"
proof -
  show "b_total b > BARRIER_FLAG \<Longrightarrow> wait_section1 b = (Sleeps Loop1, b)"
    by (simp add: wait_section1_def)
  assume le: "\<not> b_total b > BARRIER_FLAG"
  let ?t = "(if BARRIER_FLAG = b_total b then 0 else b_total b) + 1 :: u64"
  from le have a63: "a < 2 ^ 63" and ta: "?t = of_nat (Suc a)"
    by (cases rule: total_cases; simp add: a_def)+
  have ut: "unat ?t = Suc a" using a63 by (simp only: ta unat_of_nat) simp
  show "wait_section1 b = (Value 0, b\<lparr>b_total := BARRIER_FLAG + of_nat a, waitQ := []\<rparr>)"
    if "Suc a = unat (b_count b)"
  proof -
    have c: "?t = b_count b" using ut that by (simp add: word_unat_eq_iff)
    have "?t + (BARRIER_FLAG - 1) = BARRIER_FLAG + of_nat a" by (simp add: ta)
    then show ?thesis
      using le c by (auto simp: wait_section1_def Let_def wake_up_here_def)
  qed
  show "wait_section1 b = (Sleeps Loop2, b\<lparr>b_total := of_nat (Suc a)\<rparr>)"
    if "Suc a \<noteq> unat (b_count b)" "Suc a < 2 ^ 63"
  proof -
    have "?t \<noteq> b_count b" "?t < BARRIER_FLAG"
      using ut that by (auto simp: word_less_nat_alt)
    then show ?thesis
      using le ta by (auto simp: wait_section1_def wait_section2_def Let_def add.commute)
  qed
qed

text \<open>A registry with one barrier of count 2, made by thread 8 of process 7.\<close>

definition one_barrier :: barrier_mod where
  "one_barrier = boot\<lparr>tgid_list := [link_bar (7, 8) 2 (new_ptgid 7)]\<rparr>"

lemma boot_at [simp]: "bar_at boot pt = None" "next_bid boot t = 0"
  by (simp_all add: boot_def bar_at_def next_bid_def find_ptgid_def)

lemma one_barrier_inv [simp]: "reg_inv one_barrier"
  by (simp add: one_barrier_def boot_def reg_inv_def ptgid_ok_def link_bar_def new_ptgid_def
      init_barrier_struct_def)

lemma one_barrier_at [simp]:
  "bar_at one_barrier (7, 0) = Some (init_barrier_struct (7, 8) 2 0)"
  "last_barrier one_barrier 7" "next_bid one_barrier 7 = 1"
  "bar_at one_barrier (7, 1) = None"
  by (simp_all add: one_barrier_def boot_def bar_at_def find_ptgid_def find_bar_def link_bar_def
      new_ptgid_def init_barrier_struct_def last_barrier_def next_bid_def)

section \<open>Properties\<close>

text \<open>
  (C28) From a well-formed registry, with memory available, \<open>barrier_init\<close> has exactly
  three outcomes. A negative count is refused with \<open>-1\<close>; so is a process whose next id is
  still in use (ids are 32-bit and wrap around); both leave the registry untouched.
  Otherwise the caller gets its process's next id, which was not in use, and the registry
  becomes the old one with a fresh barrier (zero-extended count, total at the flag, empty
  queue) at that id and nothing else changed; no lock stays held.
\<close>

theorem barrier_init_refines_registry:
  assumes "reg_inv st"
  shows "let i = next_bid st (fst current); pt = (fst current, i) in
    if sint count < 0 \<or> bar_at st pt \<noteq> None
    then barrier_init current True True count st = Ret (- 1, None) st
    else \<exists>st'. barrier_init current True True count st = Ret (0, Some i) st' \<and> reg_inv st'
      \<and> bar_at st' = (bar_at st)(pt \<mapsto>
          \<lparr>b_id = i, b_tgid = fst current, b_tid = snd current, b_count = ucast count,
           b_total = BARRIER_FLAG, waitQ = []\<rparr>)"
proof -
  let ?pt = "(fst current, next_bid st (fst current))"
  consider "sint count < 0" | "0 \<le> sint count" "bar_at st ?pt \<noteq> None"
    | "0 \<le> sint count" "bar_at st ?pt = None" by linarith
  then show ?thesis
  proof cases
    case 3
    have "(scast count :: u64) = ucast count"
      by (rule scast_nonneg) (fact 3(1))
    with init_spec [OF assms 3] 3 show ?thesis
      by (auto simp: Let_def init_barrier_struct_def)
  qed (simp_all add: Let_def barrier_init_negative init_duplicate [OF assms])
qed

theorem barrier_init_refines_registry_witness:
  "barrier_init (7, 8) True True 3 boot =
     Ret (0, Some 0) \<lparr>held = {}, tgid_list = [\<lparr>tgid = 7, bid_count = 1, barrier_size = 1,
       barrier_head = [\<lparr>b_id = 0, b_tgid = 7, b_tid = 8, b_count = 3, b_total = BARRIER_FLAG,
         waitQ = []\<rparr>]\<rparr>]\<rparr>
   \<and> (\<exists>st'. barrier_init (7, 8) True True 3 boot = Ret (0, Some 0) st' \<and> reg_inv st')"
  using barrier_init_refines_registry [OF boot_inv, of "(7, 8)" 3]
  by (simp add: next_bid_def bar_at_def eval_calls)

text \<open>
  (C29) A \<open>barrier_wait\<close> call up to its return or its first sleep. An id that is not
  live in the caller's process crashes the kernel: the null pointer of the failed lookup is
  dereferenced (\<open>barrier_destroy\<close> answers \<open>-1\<close> for the same id). On a live barrier
  whose previous round is still draining the caller sleeps and nothing changes; otherwise
  it is counted. Writing \<open>a\<close> for the number of threads counted so far: the thread that
  brings the count to \<open>b_count\<close> returns 0, leaves \<open>b_count - 1\<close> on top of the flag and
  empties the wait queue; any other thread leaves \<open>a + 1\<close> and sleeps. No other barrier
  changes and no lock stays held.
\<close>

theorem barrier_wait_call:
  assumes "reg_inv st"
  shows "case bar_at st (fst current, i) of
      None \<Rightarrow> barrier_wait current i st = Oops NullDeref st
        \<and> barrier_destroy current i st = Ret (Value (- 1)) st
    | Some b \<Rightarrow>
        let a = unat (b_total b) mod 2 ^ 63;
            call = (\<lambda>r b'. \<exists>st'. barrier_wait current i st = Ret r st' \<and> reg_inv st'
              \<and> bar_at st' = (bar_at st)((fst current, i) \<mapsto> b'))
        in if b_total b > BARRIER_FLAG then call (Sleeps Loop1) b
           else if Suc a = unat (b_count b)
             then call (Value 0) (b\<lparr>b_total := BARRIER_FLAG + of_nat a, waitQ := []\<rparr>)
           else Suc a < 2 ^ 63 \<longrightarrow> call (Sleeps Loop2) (b\<lparr>b_total := of_nat (Suc a)\<rparr>)"
proof (cases "bar_at st (fst current, i)")
  case None
  then show ?thesis by (simp add: wait_unknown [OF assms] destroy_unknown [OF assms])
next
  case (Some b)
  from wait_spec [OF assms Some] Some show ?thesis
    by (auto simp: Let_def wait_section1_cases)
qed

theorem barrier_wait_call_witness:
  "barrier_wait (7, 8) 5 boot = Oops NullDeref boot
   \<and> (\<exists>st'. barrier_wait (7, 8) 0 one_barrier = Ret (Sleeps Loop2) st' \<and> reg_inv st')"
  using barrier_wait_call [OF boot_inv, of "(7, 8)" 5]
    barrier_wait_call [OF one_barrier_inv, of "(7, 8)" 0]
  by (auto simp: Let_def init_barrier_struct_def)

text \<open>
  (C30) A \<open>barrier_destroy\<close> call, by cases. Unknown id: \<open>-1\<close>, nothing changes. A round
  still draining: the caller sleeps, nothing changes. Otherwise the barrier is unlinked and
  freed; if the process has another barrier the call returns 0, all locks are given back
  and nothing else changed. If it was the process's last one the per-process block is freed
  as well, and the lock inside it, still held, is released through the freed block.
\<close>

theorem barrier_destroy_call:
  assumes "reg_inv st"
  shows "case bar_at st (fst current, i) of
      None \<Rightarrow> barrier_destroy current i st = Ret (Value (- 1)) st
    | Some b \<Rightarrow>
        if b_total b > BARRIER_FLAG then barrier_destroy current i st = Ret (Sleeps Drain) st
        else if \<not> last_barrier st (fst current)
        then \<exists>st'. barrier_destroy current i st = Ret (Value 0) st' \<and> reg_inv st'
          \<and> bar_at st' = (bar_at st)((fst current, i) := None)
        else \<exists>st'. barrier_destroy current i st = Oops UseAfterFree st'
          \<and> held st' = {Barrier_head_lock (fst current)}
          \<and> bar_at st' = (bar_at st)((fst current, i) := None)"
proof (cases "bar_at st (fst current, i)")
  case None
  then show ?thesis by (simp add: destroy_unknown [OF assms])
next
  case (Some b)
  with recycle_other [OF assms Some] recycle_last [OF assms Some] show ?thesis
    by (simp add: destroy_known [OF assms Some])
qed

theorem barrier_destroy_call_witness:
  "\<exists>st'. barrier_destroy (7, 8) 0 one_barrier = Oops UseAfterFree st'
     \<and> held st' = {Barrier_head_lock 7}"
  using barrier_destroy_call [OF one_barrier_inv, of "(7, 8)" 0]
  by (auto simp: init_barrier_struct_def)

text \<open>
  Processes are isolated from each other: whatever sequence of completed calls the
  threads of other processes make, a process's barriers keep their count, their total and
  their wait queue.
\<close>

lemma barrier_processes_isolated:
  assumes "reg_inv st" and "reg_run ops st = Some st'"
    and "\<forall>op \<in> set ops. fst (actor op) \<noteq> p"
  shows "bar_at st' (p, i) = bar_at st (p, i)"
  using assms reg.isolation [of st ops st' p i] by (simp add: reg_run_exec_all)

lemma barrier_processes_isolated_example:
  "\<exists>st'. reg_run [Alloc (9, 9) 1, Use None (9, 9) 0, Alloc (9, 9) 2, Free (9, 9) 0] one_barrier = Some st'
     \<and> bar_at st' (7, 0) = Some (init_barrier_struct (7, 8) 2 0)"
proof -
  let ?ops = "[Alloc (9, 9) 1, Use None (9, 9) 0, Alloc (9, 9) 2, Free (9, 9) 0] :: reg_call list"
  have "reg_run ?ops one_barrier \<noteq> None"
    by (simp add: one_barrier_def reg_alloc_def reg_use_def reg_free_def eval_calls link_bar_def
        wait_section1_def destroy_section_def wake_up_here_def BARRIER_FLAG_def)
  then obtain st' where "reg_run ?ops one_barrier = Some st'" by blast
  with barrier_processes_isolated [OF one_barrier_inv this, of 7 0] show ?thesis by simp
qed

text \<open>
  An id obtained from \<open>barrier_init\<close> stays valid, and is not handed out again to
  the process, as long as no thread of the process destroys it: whatever calls complete in
  between, a later successful \<open>barrier_init\<close> of the process yields a different id.
\<close>

lemma barrier_ids_not_reused:
  assumes "reg_inv st" and "reg_alloc c n st = Some (i, st1)" and "reg_run ops st1 = Some st2"
    and "\<forall>c'. fst c' = fst c \<longrightarrow> Free c' i \<notin> set ops"
    and "reg_alloc c2 n2 st2 = Some (i2, st3)" and "fst c2 = fst c"
  shows "bar_at st2 (fst c, i) \<noteq> None \<and> i2 \<noteq> i"
proof -
  have st1: "reg_inv st1" "bar_at st1 (fst c, i) \<noteq> None"
    using reg.alloc_law [OF assms(1,2)] by auto
  show ?thesis
    using reg.live_until_freed [OF st1(1) _ st1(2) assms(4)] assms
      reg.alloc_fresh [OF assms(1,2) _ assms(4,5,6)]
    by (simp add: reg_run_exec_all)
qed

lemma barrier_ids_not_reused_example:
  "\<exists>st1 st2 st3. reg_alloc (7, 8) 2 boot = Some (0, st1)
     \<and> reg_run [Use None (7, 9) 0] st1 = Some st2 \<and> reg_alloc (7, 8) 2 st2 = Some (1, st3)
     \<and> bar_at st2 (7, 0) \<noteq> None \<and> (1 :: u32) \<noteq> 0"
proof -
  let ?b = "\<lambda>i n. \<lparr>b_id = i, b_tgid = 7, b_tid = 8, b_count = 2, b_total = n, waitQ = []\<rparr>"
  let ?s = "\<lambda>i bs. \<lparr>held = {}, tgid_list = [\<lparr>tgid = 7, bid_count = i,
    barrier_size = int (length bs), barrier_head = bs\<rparr>]\<rparr> :: barrier_mod"
  have 1: "reg_alloc (7, 8) 2 boot = Some (0, ?s 1 [?b 0 BARRIER_FLAG])"
    by (simp add: reg_alloc_def eval_calls)
  have 2: "reg_run [Use None (7, 9) 0] (?s 1 [?b 0 BARRIER_FLAG]) = Some (?s 1 [?b 0 1])"
    by (simp add: reg_use_def eval_calls wait_section1_def wait_section2_def BARRIER_FLAG_def)
  have 3: "reg_alloc (7, 8) 2 (?s 1 [?b 0 1]) = Some (1, ?s 2 [?b 1 BARRIER_FLAG, ?b 0 1])"
    by (simp add: reg_alloc_def eval_calls)
  show ?thesis
    using barrier_ids_not_reused [OF boot_inv 1 2 _ 3] 1 2 3 by auto
qed

text \<open>
  Loading the module always reports success: the init function returns 0 even when
  \<open>misc_register\<close> fails for either device, which then does not exist. Unloading
  deregisters both devices all the same, so after a failed registration it deregisters a
  device that was never registered; and it leaves every barrier allocated.
\<close>

lemma eosi_barrier_init_hides_errors:
  "fst (eosi_barrier_init rA rB) = 0
   \<and> (snd (eosi_barrier_init rA rB) = (True, True) \<longleftrightarrow> rA = 0 \<and> rB = 0)
   \<and> fst (eosi_barrier_exit st) = [Eosi_barrier_A, Eosi_barrier_B]
   \<and> bar_at (snd (eosi_barrier_exit st)) = bar_at st"
  by (simp add: eosi_barrier_init_def reg_misc_def eosi_barrier_exit_def dereg_misc_def)

end
