(* ===== verification/Barrier_Wait.thy ===== *)
theory Barrier_Wait
  imports Barrier
begin

text \<open>
  One barrier used by any number of threads at once: the critical sections of
  \<open>barrier_wait\<close> and \<open>barrier_destroy\<close> and the steps of \<open>sleep_here\<close>, interleaved
  freely. The theory shows that the barrier's counter implements a cyclic barrier, and what
  goes wrong in the window between giving back \<open>lock_total\<close> and \<open>prepare_to_wait\<close>.
\<close>

section \<open>Threads and their steps\<close>

text \<open>
  Where a thread is: outside, about to take \<open>lock_total\<close>, about to call
  \<open>prepare_to_wait\<close>, inside \<open>schedule\<close>, or past the drain loop of \<open>barrier_destroy\<close>.
\<close>

datatype wpc = Idle | At_lock resume | At_prepare resume | Asleep resume | Recycling

record bsys =
  bs :: barrier_struct
  pcs :: "pid_t \<Rightarrow> wpc"
  arrivals :: nat
  departures :: nat
  freed :: bool

datatype action = Call_wait pid_t | Call_destroy pid_t | Run pid_t | Signal pid_t

fun who :: "action \<Rightarrow> pid_t" where
  "who (Call_wait t) = t"
| "who (Call_destroy t) = t"
| "who (Run t) = t"
| "who (Signal t) = t"

definition goto :: "pid_t \<Rightarrow> wpc \<Rightarrow> bsys \<Rightarrow> bsys" where
  "goto t pc s = s\<lparr>pcs := (pcs s)(t := pc)\<rparr>"

text \<open>The three critical sections, with the counters of completed arrivals and departures.\<close>

definition run_loop1 :: "pid_t \<Rightarrow> bsys \<Rightarrow> bsys" where
  "run_loop1 t s =
     (case wait_section1 (bs s) of
        (Sleeps r, b) \<Rightarrow>
          goto t (At_prepare r) (s\<lparr>bs := b, arrivals := arrivals s + (if r = Loop1 then 0 else 1)\<rparr>)
      | (Value _, b) \<Rightarrow>
          goto t Idle (s\<lparr>bs := b, arrivals := arrivals s + 1, departures := departures s + 1\<rparr>))"

definition run_loop2 :: "pid_t \<Rightarrow> bsys \<Rightarrow> bsys" where
  "run_loop2 t s =
     (case wait_section2 (bs s) of
        (Sleeps r, b) \<Rightarrow> goto t (At_prepare r) (s\<lparr>bs := b\<rparr>)
      | (Value _, b) \<Rightarrow> goto t Idle (s\<lparr>bs := b, departures := departures s + 1\<rparr>))"

definition run_drain :: "pid_t \<Rightarrow> bsys \<Rightarrow> bsys" where
  "run_drain t s =
     (case destroy_section (bs s) of
        Sleeps r \<Rightarrow> goto t (At_prepare r) s
      | Value _ \<Rightarrow> goto t Recycling s)"

definition run_lock :: "resume \<Rightarrow> pid_t \<Rightarrow> bsys \<Rightarrow> bsys" where
  "run_lock r = (case r of Loop1 \<Rightarrow> run_loop1 | Loop2 \<Rightarrow> run_loop2 | Drain \<Rightarrow> run_drain)"

text \<open>
  One step of thread \<open>t\<close>; \<open>None\<close> when it cannot run. A thread inside \<open>schedule\<close> goes on
  when a wake-up has taken it off the queue, or on a signal. The step from \<open>Recycling\<close> only frees the
  barrier; what \<open>barrier_destroy\<close> does then to the block of the process, and the use of that block after it
  was freed, are in \<open>Barrier\<close>.
\<close>

definition bact :: "action \<Rightarrow> bsys \<Rightarrow> bsys option" where
  "bact a s =
     (if freed s then None
      else case a of
        Call_wait t \<Rightarrow> if pcs s t = Idle then Some (goto t (At_lock Loop1) s) else None
      | Call_destroy t \<Rightarrow> if pcs s t = Idle then Some (goto t (At_lock Drain) s) else None
      | Signal t \<Rightarrow>
          (case pcs s t of
             Asleep r \<Rightarrow> Some (goto t (At_lock r) (s\<lparr>bs := sleep_here_finish t (bs s)\<rparr>))
           | _ \<Rightarrow> None)
      | Run t \<Rightarrow>
          (case pcs s t of
             Idle \<Rightarrow> None
           | At_lock r \<Rightarrow> Some (run_lock r t s)
           | At_prepare r \<Rightarrow> Some (goto t (Asleep r) (s\<lparr>bs := sleep_here_enqueue t (bs s)\<rparr>))
           | Asleep r \<Rightarrow>
               if t \<in> set (waitQ (bs s)) then None
               else Some (goto t (At_lock r) (s\<lparr>bs := sleep_here_finish t (bs s)\<rparr>))
           | Recycling \<Rightarrow> Some (goto t Idle (s\<lparr>freed := True\<rparr>))))"

inductive bstep :: "bsys \<Rightarrow> bsys \<Rightarrow> bool" where
  "bact a s = Some s' \<Longrightarrow> bstep s s'"

inductive_simps bstep_iff: "bstep s s'"

fun brun :: "action list \<Rightarrow> bsys \<Rightarrow> bsys option" where
  "brun [] s = Some s"
| "brun (a # as) s = Option.bind (bact a s) (brun as)"

lemma brun_reach: "brun as s = Some s' \<Longrightarrow> bstep\<^sup>*\<^sup>* s s'"
proof (induction as arbitrary: s)
  case (Cons a as)
  then obtain t where "bact a s = Some t" "brun as t = Some s'"
    by (auto simp: bind_eq_Some_conv)
  with Cons.IH [of t] show ?case
    by (meson bstep.intros converse_rtranclp_into_rtranclp)
qed simp

text \<open>A barrier just made by \<open>barrier_init\<close>, and no thread using it.\<close>

definition binit :: "s32 \<Rightarrow> bsys \<Rightarrow> bool" where
  "binit c s \<longleftrightarrow>
     bs s = init_barrier_struct (b_tgid (bs s), b_tid (bs s)) c (b_id (bs s))
     \<and> (\<forall>t. pcs s t = Idle) \<and> arrivals s = 0 \<and> departures s = 0 \<and> \<not> freed s"

definition fresh_bsys :: "s32 \<Rightarrow> bsys" where
  "fresh_bsys c = \<lparr>bs = init_barrier_struct (7, 8) c 0, pcs = (\<lambda>_. Idle), arrivals = 0,
     departures = 0, freed = False\<rparr>"

lemma binit_fresh [simp]: "binit c (fresh_bsys c)"
  by (simp add: binit_def fresh_bsys_def init_barrier_struct_def)

section \<open>The abstract cyclic barrier\<close>

text \<open>
  \<open>waiting\<close> are the threads of the current round that have not left; \<open>opened\<close> says
  whether the round is complete and they are leaving. The thread that completes a round
  leaves at once.
\<close>

record abar =
  waiting :: "pid_t set"
  opened :: bool
  arrived :: nat
  left :: nat

inductive astep :: "nat \<Rightarrow> abar \<Rightarrow> abar \<Rightarrow> bool" for n where
  a_arrive: "\<not> opened a \<Longrightarrow> t \<notin> waiting a \<Longrightarrow> Suc (card (waiting a)) < n \<Longrightarrow>
    astep n a (a\<lparr>waiting := insert t (waiting a), arrived := Suc (arrived a)\<rparr>)"
| a_last: "\<not> opened a \<Longrightarrow> t \<notin> waiting a \<Longrightarrow> Suc (card (waiting a)) = n \<Longrightarrow>
    astep n a (a\<lparr>opened := (waiting a \<noteq> {}), arrived := Suc (arrived a), left := Suc (left a)\<rparr>)"
| a_leave: "opened a \<Longrightarrow> t \<in> waiting a \<Longrightarrow>
    astep n a (a\<lparr>waiting := waiting a - {t}, opened := (waiting a - {t} \<noteq> {}), left := Suc (left a)\<rparr>)"

definition ainit :: "abar \<Rightarrow> bool" where
  "ainit a \<longleftrightarrow> waiting a = {} \<and> \<not> opened a \<and> arrived a = 0 \<and> left a = 0"

text \<open>
  While a round fills, everybody who left belongs to earlier, complete rounds; while it
  opens, nobody of a later round has arrived.
\<close>

definition ainv :: "nat \<Rightarrow> abar \<Rightarrow> bool" where
  "ainv n a \<longleftrightarrow> finite (waiting a) \<and> arrived a = left a + card (waiting a) \<and> card (waiting a) < n
     \<and> (if opened a then waiting a \<noteq> {} \<and> n dvd arrived a else n dvd left a)"

lemma ainv_init: "0 < n \<Longrightarrow> ainit a \<Longrightarrow> ainv n a"
  by (simp add: ainit_def ainv_def)

lemma ainv_step:
  assumes "ainv n a" and "astep n a b"
  shows "ainv n b"
  using assms(2)
proof cases
  case (a_arrive t)
  with assms(1) show ?thesis by (auto simp: ainv_def)
next
  case (a_last t)
  then have "arrived a + 1 = left a + n" "waiting a = {} \<Longrightarrow> n = 1"
    using assms(1) by (auto simp: ainv_def)
  with a_last assms(1) show ?thesis by (auto simp: ainv_def)
next
  case (a_leave t)
  then have "card (waiting a - {t}) = card (waiting a) - 1" "card (waiting a) > 0"
    using assms(1) by (auto simp: ainv_def card_gt_0_iff)
  moreover have "arrived a = left a + 1" if "waiting a - {t} = {}"
  proof -
    have "waiting a = {t}" using that a_leave by auto
    then show ?thesis using assms(1) by (simp add: ainv_def)
  qed
  ultimately show ?thesis using a_leave assms(1) by (auto simp: ainv_def)
qed

section \<open>The counter implements the cyclic barrier\<close>

fun in_round :: "wpc \<Rightarrow> bool" where
  "in_round (At_lock r) = (r = Loop2)"
| "in_round (At_prepare r) = (r = Loop2)"
| "in_round (Asleep r) = (r = Loop2)"
| "in_round _ = False"

definition members :: "bsys \<Rightarrow> pid_t set" where
  "members s = {t. in_round (pcs s t)}"

definition babs :: "bsys \<Rightarrow> abar" where
  "babs s = \<lparr>waiting = members s, opened = (b_total (bs s) > BARRIER_FLAG),
     arrived = arrivals s, left = departures s\<rparr>"

text \<open>
  The total: the flag between rounds, the number of members while a round fills, and the
  flag plus the number of members while it drains.
\<close>

definition total_ok :: "nat \<Rightarrow> nat \<Rightarrow> u64 \<Rightarrow> bool" where
  "total_ok n m w \<longleftrightarrow> m < n \<and>
     (if w > BARRIER_FLAG then unat w = 2 ^ 63 + m \<and> 0 < m
      else if w = BARRIER_FLAG then m = 0
      else unat w = m \<and> 0 < m)"

definition binv :: "nat \<Rightarrow> bsys \<Rightarrow> bool" where
  "binv n s \<longleftrightarrow> 0 < n \<and> n < 2 ^ 63 \<and> unat (b_count (bs s)) = n \<and> finite (members s)
     \<and> total_ok n (card (members s)) (b_total (bs s))"

lemma members_goto:
  "members (goto t pc s) = (if in_round pc then insert t (members s) else members s - {t})"
  by (auto simp: members_def goto_def)

lemma members_upd [simp]:
  "members (s\<lparr>bs := b\<rparr>) = members s" "members (s\<lparr>arrivals := i\<rparr>) = members s"
  "members (s\<lparr>departures := i\<rparr>) = members s" "members (s\<lparr>freed := f\<rparr>) = members s"
  by (auto simp: members_def)

lemma goto_sel [simp]:
  "bs (goto t pc s) = bs s" "arrivals (goto t pc s) = arrivals s"
  "departures (goto t pc s) = departures s" "freed (goto t pc s) = freed s"
  "pcs (goto t pc s) = (pcs s)(t := pc)"
  by (simp_all add: goto_def)

lemma in_members: "t \<in> members s \<longleftrightarrow> in_round (pcs s t)"
  by (simp add: members_def)

lemma queue_ops [simp]:
  "b_total (sleep_here_enqueue t b) = b_total b" "b_count (sleep_here_enqueue t b) = b_count b"
  "b_total (sleep_here_finish t b) = b_total b" "b_count (sleep_here_finish t b) = b_count b"
  by (simp_all add: sleep_here_enqueue_def sleep_here_finish_def)

text \<open>The critical sections under the invariant on the total.\<close>

lemma total_ok_less: "total_ok n m w \<Longrightarrow> m < n"
  by (simp add: total_ok_def)

lemma section1_total:
  assumes "total_ok n m (b_total b)" and "unat (b_count b) = n" and "n < 2 ^ 63"
  shows "wait_section1 b =
    (if b_total b > BARRIER_FLAG then (Sleeps Loop1, b)
     else if Suc m = n then (Value 0, b\<lparr>b_total := BARRIER_FLAG + of_nat m, waitQ := []\<rparr>)
     else (Sleeps Loop2, b\<lparr>b_total := of_nat (Suc m)\<rparr>))"
proof (cases "b_total b > BARRIER_FLAG")
  case True
  then show ?thesis by (simp add: wait_section1_cases)
next
  case False
  then have "unat (b_total b) mod 2 ^ 63 = m"
    by (rule total_cases) (use assms False in \<open>auto simp: total_ok_def\<close>)
  with wait_section1_cases(2,3) [of b] False assms total_ok_less [OF assms(1)] show ?thesis
    by auto
qed

lemma flag_plus:
  assumes "unat w = 2 ^ 63 + m"
  shows "w = BARRIER_FLAG + of_nat m"
proof -
  have "w = of_nat (unat w)" by simp
  also have "\<dots> = BARRIER_FLAG + of_nat m" unfolding assms by (simp add: BARRIER_FLAG_def)
  finally show ?thesis .
qed

lemma section2_total:
  assumes "total_ok n m (b_total b)" and "0 < m"
  shows "wait_section2 b =
    (if b_total b > BARRIER_FLAG
     then (Value 0, if m = 1 then b\<lparr>b_total := BARRIER_FLAG, waitQ := []\<rparr>
                    else b\<lparr>b_total := b_total b - 1\<rparr>)
     else (Sleeps Loop2, b))"
proof (cases "b_total b > BARRIER_FLAG")
  case True
  then have u: "unat (b_total b) = 2 ^ 63 + m" using assms by (simp add: total_ok_def)
  then have "b_total b = BARRIER_FLAG + of_nat m" by (rule flag_plus)
  then have "b_total b - 1 = BARRIER_FLAG \<longleftrightarrow> of_nat m = (1 :: u64)"
    by (simp add: algebra_simps)
  moreover have "of_nat m = (1 :: u64) \<longleftrightarrow> m = 1"
  proof -
    have "m < 2 ^ 64" using u unsigned_less [of "b_total b", where ?'a = nat] by simp
    then have "unat (of_nat m :: u64) = m" by (simp add: unat_of_nat)
    then show ?thesis by (metis of_nat_1 unat_1)
  qed
  ultimately show ?thesis
    using True by (auto simp: wait_section2_def Let_def wake_up_here_def)
next
  case False
  then have "b_total b < BARRIER_FLAG"
    using assms by (auto simp: total_ok_def split: if_splits)
  then show ?thesis using False by (simp add: wait_section2_def)
qed

text \<open>The new total satisfies the invariant for the new number of members.\<close>

lemma total_ok_last:
  assumes "Suc m = n" and "n < 2 ^ 63"
  shows "total_ok n m (BARRIER_FLAG + of_nat m)" and "BARRIER_FLAG + of_nat m > BARRIER_FLAG \<longleftrightarrow> m \<noteq> 0"
proof -
  have "unat (of_nat (2 ^ 63 + m) :: u64) = 2 ^ 63 + m"
    using assms by (simp only: unat_of_nat) simp
  moreover have "(of_nat (2 ^ 63 + m) :: u64) = BARRIER_FLAG + of_nat m"
    by (simp add: BARRIER_FLAG_def)
  ultimately have u: "unat (BARRIER_FLAG + of_nat m :: u64) = 2 ^ 63 + m" by simp
  then show gt: "BARRIER_FLAG + of_nat m > BARRIER_FLAG \<longleftrightarrow> m \<noteq> 0"
    by (simp add: word_less_nat_alt)
  from u gt assms show "total_ok n m (BARRIER_FLAG + of_nat m)"
    by (cases "m = 0") (auto simp: total_ok_def)
qed

lemma total_ok_arrive:
  assumes "Suc m < n" and "n < 2 ^ 63"
  shows "total_ok n (Suc m) (of_nat (Suc m))" and "\<not> of_nat (Suc m) > BARRIER_FLAG"
proof -
  have u: "unat (of_nat (Suc m) :: u64) = Suc m"
    using assms by (simp only: unat_of_nat) simp
  then have lt: "of_nat (Suc m) < BARRIER_FLAG"
    using assms by (simp only: word_less_nat_alt BARRIER_FLAG_nat)
  then show "\<not> of_nat (Suc m) > BARRIER_FLAG" by simp
  from u lt assms show "total_ok n (Suc m) (of_nat (Suc m))"
    by (auto simp: total_ok_def simp del: of_nat_Suc)
qed

lemma total_ok_leave:
  assumes ok: "total_ok n m w" and "w > BARRIER_FLAG" and "m \<noteq> 1"
  shows "total_ok n (m - 1) (w - 1)" and "w - 1 > BARRIER_FLAG"
proof -
  have m: "unat w = 2 ^ 63 + m" "1 < m" "m < n" using assms by (auto simp: total_ok_def)
  have "unat (w - 1) = 2 ^ 63 + (m - 1)"
    using m by (subst unat_sub) (auto simp: word_le_nat_alt)
  with m show "w - 1 > BARRIER_FLAG" and "total_ok n (m - 1) (w - 1)"
    by (auto simp: total_ok_def word_less_nat_alt)
qed

lemma total_ok_flag: "0 < n \<Longrightarrow> total_ok n 0 BARRIER_FLAG"
  by (simp add: total_ok_def)

text \<open>Each critical section keeps the invariant and is a step of the cyclic barrier.\<close>

lemma loop1_sim:
  assumes inv: "binv n s" and t: "t \<notin> members s"
  shows "binv n (run_loop1 t s) \<and> (astep n (babs s) (babs (run_loop1 t s)) \<or> babs (run_loop1 t s) = babs s)"
proof -
  let ?m = "card (members s)"
  note b = inv [unfolded binv_def]
  have ok: "total_ok n ?m (b_total (bs s))" and n: "n < 2 ^ 63" and fin: "finite (members s)"
    and c: "unat (b_count (bs s)) = n" using b by auto
  note sec = section1_total [OF ok c n]
  consider "b_total (bs s) > BARRIER_FLAG"
    | "\<not> b_total (bs s) > BARRIER_FLAG" "Suc ?m = n"
    | "\<not> b_total (bs s) > BARRIER_FLAG" "Suc ?m < n"
    using total_ok_less [OF ok] by linarith
  then show ?thesis
  proof cases
    case 1
    then have e: "run_loop1 t s = goto t (At_prepare Loop1) s"
      by (simp add: run_loop1_def sec)
    have "members (goto t (At_prepare Loop1) s) = members s" using t by (auto simp: members_goto)
    then show ?thesis using inv by (simp add: e binv_def babs_def)
  next
    case 2
    let ?b = "(bs s)\<lparr>b_total := BARRIER_FLAG + of_nat ?m, waitQ := []\<rparr>"
    let ?s = "goto t Idle (s\<lparr>bs := ?b, arrivals := arrivals s + 1, departures := departures s + 1\<rparr>)"
    have e: "run_loop1 t s = ?s" using 2 by (simp add: run_loop1_def sec)
    have m: "members s - {t} = members s" using t by auto
    have "babs ?s = (babs s)\<lparr>opened := (waiting (babs s) \<noteq> {}), arrived := Suc (arrived (babs s)),
        left := Suc (left (babs s))\<rparr>"
      using fin by (simp add: babs_def members_goto m total_ok_last(2) [OF 2(2) n])
    moreover have "astep n (babs s) \<dots>"
      using 2 t by (intro astep.a_last [where t = t]) (simp_all add: babs_def)
    moreover have "binv n ?s"
      using b 2 total_ok_last(1) [OF 2(2) n] by (simp add: binv_def members_goto m)
    ultimately show ?thesis by (simp add: e)
  next
    case 3
    let ?b = "(bs s)\<lparr>b_total := of_nat (Suc ?m)\<rparr>"
    let ?s = "goto t (At_prepare Loop2) (s\<lparr>bs := ?b, arrivals := arrivals s + 1\<rparr>)"
    have e: "run_loop1 t s = ?s" using 3 by (simp add: run_loop1_def sec)
    have "babs ?s = (babs s)\<lparr>waiting := insert t (waiting (babs s)), arrived := Suc (arrived (babs s))\<rparr>"
      using 3 total_ok_arrive(2) [OF 3(2) n] by (simp add: babs_def members_goto del: of_nat_Suc)
    moreover have "astep n (babs s) \<dots>"
      using 3 t by (intro astep.a_arrive) (simp_all add: babs_def)
    moreover have "binv n ?s"
      using b 3 t total_ok_arrive(1) [OF 3(2) n] by (simp add: binv_def members_goto del: of_nat_Suc)
    ultimately show ?thesis by (simp add: e)
  qed
qed

lemma loop2_sim:
  assumes inv: "binv n s" and t: "t \<in> members s"
  shows "binv n (run_loop2 t s) \<and> (astep n (babs s) (babs (run_loop2 t s)) \<or> babs (run_loop2 t s) = babs s)"
proof -
  let ?m = "card (members s)"
  note b = inv [unfolded binv_def]
  have ok: "total_ok n ?m (b_total (bs s))" and n: "0 < n" and fin: "finite (members s)"
    and m0: "0 < ?m" using b t by (auto simp: card_gt_0_iff)
  note sec = section2_total [OF ok m0]
  have cm: "card (members s - {t}) = ?m - 1" using t fin by simp
  show ?thesis
  proof (cases "b_total (bs s) > BARRIER_FLAG")
    case False
    then have e: "run_loop2 t s = goto t (At_prepare Loop2) s" by (simp add: run_loop2_def sec)
    have "members (goto t (At_prepare Loop2) s) = members s" using t by (auto simp: members_goto)
    then show ?thesis using inv by (simp add: e binv_def babs_def)
  next
    case True
    let ?b = "if ?m = 1 then (bs s)\<lparr>b_total := BARRIER_FLAG, waitQ := []\<rparr>
      else (bs s)\<lparr>b_total := b_total (bs s) - 1\<rparr>"
    let ?s = "goto t Idle (s\<lparr>bs := ?b, departures := departures s + 1\<rparr>)"
    have e: "run_loop2 t s = ?s" using True by (simp add: run_loop2_def sec)
    have gone: "members s - {t} = {} \<longleftrightarrow> ?m = 1"
      using t fin by (metis cm card_0_eq diff_self_eq_0 finite_Diff m0 nat_neq_iff less_one
          zero_less_diff)
    have op: "b_total ?b > BARRIER_FLAG \<longleftrightarrow> ?m \<noteq> 1"
      using True total_ok_leave(2) [OF ok True] by simp
    have "babs ?s = (babs s)\<lparr>waiting := waiting (babs s) - {t},
        opened := (waiting (babs s) - {t} \<noteq> {}), left := Suc (left (babs s))\<rparr>"
      using op gone by (simp add: babs_def members_goto)
    moreover have "astep n (babs s) \<dots>"
      using True t by (intro astep.a_leave) (simp_all add: babs_def)
    moreover have "binv n ?s"
      using b total_ok_leave(1) [OF ok True] total_ok_flag [OF n] gone
      by (auto simp: binv_def members_goto cm)
    ultimately show ?thesis by (simp add: e)
  qed
qed

text \<open>The steps outside the critical sections move a thread between places of the same kind.\<close>

lemma goto_same:
  assumes "in_round pc = in_round (pcs s t)" and "bs s' = b" and "b_total b = b_total (bs s)"
    and "b_count b = b_count (bs s)" and "pcs s' = pcs s" and "arrivals s' = arrivals s"
    and "departures s' = departures s"
  shows "babs (goto t pc s') = babs s" and "binv n s \<Longrightarrow> binv n (goto t pc s')"
proof -
  have "members s' = members s" using assms by (simp add: members_def)
  then have "members (goto t pc s') = members s"
    using assms(1) in_members [of t s] by (auto simp: members_goto)
  with assms show "babs (goto t pc s') = babs s" and "binv n s \<Longrightarrow> binv n (goto t pc s')"
    by (simp_all add: babs_def binv_def)
qed

lemma drain_same:
  assumes "\<not> in_round (pcs s t)"
  shows "babs (run_drain t s) = babs s" and "binv n s \<Longrightarrow> binv n (run_drain t s)"
  using assms goto_same [where s' = s and s = s]
  by (auto simp: run_drain_def destroy_section_def)

lemma bact_sim:
  assumes inv: "binv n s" and a: "bact a s = Some s'"
  shows "binv n s' \<and> (astep n (babs s) (babs s') \<or> babs s' = babs s)"
proof (cases "\<exists>r. a = Run (who a) \<and> pcs s (who a) = At_lock r")
  case True
  then obtain t r where t: "a = Run t" "pcs s t = At_lock r" by auto
  then have s': "s' = run_lock r t s" using a by (auto simp: bact_def split: if_splits)
  show ?thesis
    using t s' inv loop1_sim [OF inv, of t] loop2_sim [OF inv, of t] drain_same [of s t]
    by (cases r) (auto simp: run_lock_def in_members)
next
  case False
  then obtain t pc s0 where "s' = goto t pc s0" "in_round pc = in_round (pcs s t)"
    "b_total (bs s0) = b_total (bs s)" "b_count (bs s0) = b_count (bs s)" "pcs s0 = pcs s"
    "arrivals s0 = arrivals s" "departures s0 = departures s"
    using a by (cases a) (force simp: bact_def split: if_splits wpc.splits)+
  with inv goto_same [of pc s t s0 "bs s0"] show ?thesis by simp
qed

text \<open>The number of threads a barrier made with count \<open>c\<close> waits for.\<close>

definition bcount :: "s32 \<Rightarrow> nat" where
  "bcount c = nat (sint c)"

lemma count_nat: "0 \<le> sint c \<Longrightarrow> unat (scast (c :: s32) :: u64) = bcount c"
proof -
  assume c: "0 \<le> sint c"
  have "sint c = uint c" using c by (rule sint_nonneg)
  then show ?thesis
    using unsigned_less [of c, where ?'a = nat]
    by (simp add: scast_nonneg [OF c] bcount_def unsigned_ucast_eq take_bit_nat_def nat_uint_eq)
qed

lemma bcount_bound: "bcount c < 2 ^ 63"
  using sint_less [of c] by (simp add: bcount_def)

definition bstart :: "s32 \<Rightarrow> bsys \<Rightarrow> bool" where
  "bstart c s \<longleftrightarrow> 0 < sint c \<and> binit c s"

lemma bstart_inv:
  assumes "bstart c s"
  shows "binv (bcount c) s" and "ainit (babs s)"
proof -
  have s: "b_count (bs s) = scast c" "b_total (bs s) = BARRIER_FLAG" "members s = {}" "0 < sint c"
    "arrivals s = 0" "departures s = 0"
    using assms by (auto simp: bstart_def binit_def init_barrier_struct_def members_def
        dest: arg_cong [where f = b_count] arg_cong [where f = b_total])
  then show "binv (bcount c) s"
    using bcount_bound [of c] by (simp add: binv_def count_nat total_ok_flag bcount_def)
  from s show "ainit (babs s)" by (simp add: ainit_def babs_def)
qed

interpretation cyclic: simulation "bstart c" bstep ainit "astep (bcount c)" babs "binv (bcount c)" for c
  by unfold_locales (auto simp: bstep_iff bstart_inv dest: bact_sim)

section \<open>The window before \<open>prepare_to_wait\<close>\<close>

fun is_signal :: "action \<Rightarrow> bool" where
  "is_signal (Signal t) = True"
| "is_signal _ = False"

text \<open>
  The round is complete, but every thread still in it is in the queue, asleep: nobody is
  left who could wake them, or complete the round's draining.
\<close>

definition stuck :: "bsys \<Rightarrow> bool" where
  "stuck s \<longleftrightarrow> b_total (bs s) > BARRIER_FLAG
     \<and> (\<forall>t. in_round (pcs s t) \<longrightarrow> pcs s t = Asleep Loop2 \<and> t \<in> set (waitQ (bs s)))
     \<and> (\<forall>t. pcs s t \<noteq> Recycling)"

lemma stuckD:
  "stuck s \<Longrightarrow> in_round (pcs s t) \<Longrightarrow> pcs s t = Asleep Loop2 \<and> t \<in> set (waitQ (bs s))"
  by (simp add: stuck_def)

lemma stuck_run_lock:
  assumes "stuck s" and "pcs s t = At_lock r"
  shows "\<exists>r'. r' \<noteq> Loop2 \<and> run_lock r t s = goto t (At_prepare r') s"
  using assms stuckD [of s t]
  by (cases r) (auto simp: stuck_def run_lock_def run_loop1_def wait_section1_def run_drain_def
      destroy_section_def)

lemma stuck_step:
  assumes st: "stuck s" and a: "bact a s = Some s'" and "\<not> is_signal a"
  shows "stuck s' \<and> departures s' = departures s \<and> (\<forall>t. in_round (pcs s t) \<longrightarrow> pcs s' t = pcs s t)"
proof -
  have "\<exists>t pc b. s' = goto t pc (s\<lparr>bs := b\<rparr>) \<and> \<not> in_round (pcs s t) \<and> \<not> in_round pc \<and> pc \<noteq> Recycling
      \<and> b_total b = b_total (bs s) \<and> set (waitQ (bs s)) - {t} \<subseteq> set (waitQ b)"
  proof (cases "\<exists>t r. a = Run t \<and> pcs s t = At_lock r")
    case True
    then obtain t r where t: "a = Run t" "pcs s t = At_lock r" by auto
    with stuck_run_lock [OF st t(2)] a obtain r' where
      "r' \<noteq> Loop2" "s' = goto t (At_prepare r') (s\<lparr>bs := bs s\<rparr>)"
      by (auto simp: bact_def split: if_splits)
    moreover have "\<not> in_round (pcs s t)" using stuckD [OF st, of t] t by auto
    ultimately show ?thesis by (intro exI [of _ t] exI [of _ "At_prepare r'"] exI [of _ "bs s"]) simp
  next
    case False
    have "\<exists>pc b. s' = goto (who a) pc (s\<lparr>bs := b\<rparr>) \<and> \<not> in_round (pcs s (who a)) \<and> \<not> in_round pc
        \<and> pc \<noteq> Recycling \<and> b_total b = b_total (bs s) \<and> set (waitQ (bs s)) - {who a} \<subseteq> set (waitQ b)"
    proof (cases a)
      case (Run t)
      note d = stuckD [OF st, of t]
      show ?thesis
      proof (cases "pcs s t")
        case (At_prepare r)
        then have "s' = goto t (Asleep r) (s\<lparr>bs := sleep_here_enqueue t (bs s)\<rparr>)"
          using a Run by (auto simp: bact_def split: if_splits)
        with Run At_prepare d show ?thesis
          by (intro exI [of _ "Asleep r"] exI [of _ "sleep_here_enqueue t (bs s)"])
             (auto simp: sleep_here_enqueue_def)
      next
        case (Asleep r)
        then have "s' = goto t (At_lock r) (s\<lparr>bs := sleep_here_finish t (bs s)\<rparr>)" "t \<notin> set (waitQ (bs s))"
          using a Run by (auto simp: bact_def split: if_splits)
        with Run Asleep d show ?thesis
          by (intro exI [of _ "At_lock r"] exI [of _ "sleep_here_finish t (bs s)"])
             (auto simp: sleep_here_finish_def)
      qed (use a Run st False in \<open>auto simp: bact_def stuck_def split: if_splits\<close>)
    qed (use a assms(3) in \<open>auto simp: bact_def goto_def split: if_splits
        intro!: exI [where x = "pcs s' (who a)"] exI [where x = "bs s"]\<close>)
    then show ?thesis by blast
  qed
  then obtain t pc b where s': "s' = goto t pc (s\<lparr>bs := b\<rparr>)" and e: "\<not> in_round (pcs s t)"
    "\<not> in_round pc" "pc \<noteq> Recycling" "b_total b = b_total (bs s)"
    "set (waitQ (bs s)) - {t} \<subseteq> set (waitQ b)" by blast
  have "u \<in> set (waitQ b)" if "in_round (pcs s u)" "u \<noteq> t" for u
    using stuckD [OF st that(1)] that(2) e(5) by blast
  with st e show ?thesis by (auto simp: s' stuck_def split: if_splits)
qed

lemma stuck_run:
  "stuck s \<Longrightarrow> brun as s = Some s' \<Longrightarrow> \<forall>a \<in> set as. \<not> is_signal a \<Longrightarrow>
    departures s' = departures s \<and> (\<forall>t. in_round (pcs s t) \<longrightarrow> pcs s' t = pcs s t)"
proof (induction as arbitrary: s)
  case (Cons a as)
  then obtain u where u: "bact a s = Some u" "brun as u = Some s'"
    by (auto simp: bind_eq_Some_conv)
  have "\<not> is_signal a" using Cons.prems(3) by simp
  note step = stuck_step [OF Cons.prems(1) u(1) this]
  with Cons.IH [OF _ u(2)] Cons.prems(3) show ?case by fastforce
qed simp

text \<open>
  The shortest schedule with a lost wake-up: the second thread completes the round after
  the first has given back the lock and before it queues.
\<close>

definition lost_schedule :: "action list" where
  "lost_schedule = [Call_wait 1, Run 1, Call_wait 2, Run 2, Run 1]"

definition lost_state :: bsys where
  "lost_state = (fresh_bsys 2)\<lparr>bs := (bs (fresh_bsys 2))\<lparr>b_total := BARRIER_FLAG + 1, waitQ := [1]\<rparr>,
     pcs := (\<lambda>_. Idle)(1 := Asleep Loop2), arrivals := 2, departures := 1\<rparr>"

lemma lost_schedule_run: "brun lost_schedule (fresh_bsys 2) = Some lost_state"
  by (simp add: lost_schedule_def lost_state_def fresh_bsys_def bact_def goto_def run_lock_def
      run_loop1_def wait_section1_def wait_section2_def init_barrier_struct_def wake_up_here_def
      sleep_here_enqueue_def BARRIER_FLAG_def fun_eq_iff)

lemma lost_state_stuck: "stuck lost_state"
  by (auto simp: stuck_def lost_state_def BARRIER_FLAG_def)

lemma brun_append: "brun (as @ as2) s = Option.bind (brun as s) (brun as2)"
proof (induction as arbitrary: s)
  case (Cons a as)
  then show ?case by (cases "bact a s") simp_all
qed simp

section \<open>Without the window\<close>

text \<open>
  The same machine when a thread that has to sleep queues before another thread takes the
  lock, as it would if \<open>prepare_to_wait\<close> came before the test of the total.
\<close>

definition bact_atomic :: "action \<Rightarrow> bsys \<Rightarrow> bsys option" where
  "bact_atomic a s =
     (case bact a s of
        None \<Rightarrow> None
      | Some s' \<Rightarrow>
          (case pcs s' (who a) of At_prepare r \<Rightarrow> bact (Run (who a)) s' | _ \<Rightarrow> Some s'))"

fun brun_atomic :: "action list \<Rightarrow> bsys \<Rightarrow> bsys option" where
  "brun_atomic [] s = Some s"
| "brun_atomic (a # as) s = Option.bind (bact_atomic a s) (brun_atomic as)"

text \<open>Whoever is in the queue waits for something that has not happened yet.\<close>

fun waits_for :: "u64 \<Rightarrow> wpc \<Rightarrow> bool" where
  "waits_for w (Asleep r) = (if r = Loop2 then w < BARRIER_FLAG else w > BARRIER_FLAG)"
| "waits_for w _ = False"

definition queue_ok :: "bsys \<Rightarrow> bool" where
  "queue_ok s \<longleftrightarrow> (\<forall>t r. pcs s t \<noteq> At_prepare r)
     \<and> (\<forall>t \<in> set (waitQ (bs s)). waits_for (b_total (bs s)) (pcs s t))"

text \<open>A critical section that returns leaves nobody behind; one that sleeps queues the thread.\<close>

lemma queue_ok_goto:
  assumes "queue_ok s" and "\<And>r. pc \<noteq> At_prepare r" and "pcs s' = pcs s" and "t \<notin> set (waitQ (bs s'))"
    and "\<And>u. u \<in> set (waitQ (bs s')) \<Longrightarrow> waits_for (b_total (bs s)) (pcs s u)
      \<Longrightarrow> waits_for (b_total (bs s')) (pcs s u)"
    and "set (waitQ (bs s')) \<subseteq> set (waitQ (bs s))"
  shows "queue_ok (goto t pc s')"
  using assms by (auto simp: queue_ok_def)

lemma queue_ok_sleep:
  assumes "bact (Run t) (goto t (At_prepare r) s') = Some s''"
    and "queue_ok s" and "pcs s' = pcs s" and "waits_for (b_total (bs s')) (Asleep r)"
    and "\<And>u. u \<in> set (waitQ (bs s')) \<Longrightarrow> waits_for (b_total (bs s)) (pcs s u)
      \<Longrightarrow> waits_for (b_total (bs s')) (pcs s u)"
    and "set (waitQ (bs s')) \<subseteq> set (waitQ (bs s))"
  shows "queue_ok s''"
proof -
  have "s'' = goto t (Asleep r) (goto t (At_prepare r) s'\<lparr>bs := sleep_here_enqueue t (bs s')\<rparr>)"
    using assms(1) by (auto simp: bact_def split: if_splits)
  then show ?thesis using assms(2-6) by (auto simp: queue_ok_def sleep_here_enqueue_def)
qed

lemma not_queued: "queue_ok s \<Longrightarrow> \<forall>r. pcs s t \<noteq> Asleep r \<Longrightarrow> t \<notin> set (waitQ (bs s))"
  by (metis queue_ok_def waits_for.elims(2))

lemma waits_for_mono:
  "waits_for w pc \<Longrightarrow> \<not> w > BARRIER_FLAG \<Longrightarrow> w' < BARRIER_FLAG \<Longrightarrow> waits_for w' pc"
  "waits_for w pc \<Longrightarrow> w > BARRIER_FLAG \<Longrightarrow> w' > BARRIER_FLAG \<Longrightarrow> waits_for w' pc"
  by (cases pc; auto split: if_splits)+

lemma atomic_loop1:
  assumes inv: "binv n s" and q: "queue_ok s" and pc: "pcs s t = At_lock Loop1"
    and a: "bact_atomic (Run t) s = Some s'"
  shows "queue_ok s'"
proof -
  let ?m = "card (members s)" and ?b = "bs s"
  have ok: "total_ok n ?m (b_total ?b)" and n: "n < 2 ^ 63" and c: "unat (b_count ?b) = n"
    using inv by (auto simp: binv_def)
  note sec = section1_total [OF ok c n]
  have nq: "t \<notin> set (waitQ ?b)" using not_queued [OF q, of t] pc by simp
  have run: "bact (Run t) s = Some (run_loop1 t s)"
    using a pc by (auto simp: bact_atomic_def bact_def run_lock_def split: if_splits option.splits)
  consider "b_total ?b > BARRIER_FLAG" | "\<not> b_total ?b > BARRIER_FLAG" "Suc ?m = n"
    | "\<not> b_total ?b > BARRIER_FLAG" "Suc ?m < n"
    using total_ok_less [OF ok] by linarith
  then show ?thesis
  proof cases
    case 1
    then have "bact (Run t) (goto t (At_prepare Loop1) s) = Some s'"
      using a run by (simp add: bact_atomic_def run_loop1_def sec)
    then show ?thesis by (rule queue_ok_sleep [OF _ q refl]) (use 1 in auto)
  next
    case 2
    then show ?thesis
      using a run q by (auto simp: bact_atomic_def run_loop1_def sec queue_ok_def split: if_splits)
  next
    case 3
    let ?s = "s\<lparr>bs := ?b\<lparr>b_total := of_nat (Suc ?m)\<rparr>, arrivals := arrivals s + 1\<rparr>"
    have lt: "of_nat (Suc ?m) < BARRIER_FLAG"
      using total_ok_arrive(1) [OF 3(2) n] total_ok_arrive(2) [OF 3(2) n]
      by (auto simp: total_ok_def simp del: of_nat_Suc split: if_splits)
    have "bact (Run t) (goto t (At_prepare Loop2) ?s) = Some s'"
      using a run 3 by (simp add: bact_atomic_def run_loop1_def sec)
    then show ?thesis
      by (rule queue_ok_sleep [OF _ q])
         (use 3 lt in \<open>auto simp del: of_nat_Suc intro: waits_for_mono(1)\<close>)
  qed
qed

lemma atomic_loop2:
  assumes inv: "binv n s" and q: "queue_ok s" and pc: "pcs s t = At_lock Loop2"
    and a: "bact_atomic (Run t) s = Some s'"
  shows "queue_ok s'"
proof -
  let ?m = "card (members s)" and ?b = "bs s"
  have ok: "total_ok n ?m (b_total ?b)" using inv by (auto simp: binv_def)
  have t: "t \<in> members s" using pc by (simp add: in_members)
  then have m0: "0 < ?m" using inv by (auto simp: binv_def card_gt_0_iff)
  note sec = section2_total [OF ok m0]
  have nq: "t \<notin> set (waitQ ?b)" using not_queued [OF q, of t] pc by simp
  have run: "bact (Run t) s = Some (run_loop2 t s)"
    using a pc by (auto simp: bact_atomic_def bact_def run_lock_def split: if_splits option.splits)
  show ?thesis
  proof (cases "b_total ?b > BARRIER_FLAG")
    case False
    then have lt: "b_total ?b < BARRIER_FLAG"
      using ok m0 by (auto simp: total_ok_def split: if_splits)
    have "bact (Run t) (goto t (At_prepare Loop2) s) = Some s'"
      using a run False by (simp add: bact_atomic_def run_loop2_def sec)
    then show ?thesis by (rule queue_ok_sleep [OF _ q refl]) (use lt in auto)
  next
    case True
    show ?thesis
    proof (cases "?m = 1")
      case True
      then show ?thesis
        using a run q \<open>b_total ?b > BARRIER_FLAG\<close>
        by (auto simp: bact_atomic_def run_loop2_def sec queue_ok_def split: if_splits)
    next
      case False
      let ?s = "s\<lparr>bs := ?b\<lparr>b_total := b_total ?b - 1\<rparr>, departures := departures s + 1\<rparr>"
      have "s' = goto t Idle ?s"
        using a run True False by (simp add: bact_atomic_def run_loop2_def sec)
      then show ?thesis
        using nq total_ok_leave(2) [OF ok True False] True
        by (auto intro!: queue_ok_goto [OF q] intro: waits_for_mono(2))
    qed
  qed
qed

lemma atomic_queue_ok:
  assumes inv: "binv n s" and q: "queue_ok s" and a: "bact_atomic a s = Some s'"
  shows "queue_ok s'"
proof (cases "\<exists>t r. a = Run t \<and> pcs s t = At_lock r")
  case True
  then obtain t r where t: "a = Run t" "pcs s t = At_lock r" by auto
  have nq: "t \<notin> set (waitQ (bs s))" using not_queued [OF q, of t] t by simp
  show ?thesis
  proof (cases r)
    case Drain
    show ?thesis
    proof (cases "b_total (bs s) > BARRIER_FLAG")
      case True
      then have "bact (Run t) (goto t (At_prepare Drain) s) = Some s'"
        using a t Drain by (auto simp: bact_atomic_def bact_def run_lock_def run_drain_def
            destroy_section_def split: if_splits)
      then show ?thesis by (rule queue_ok_sleep [OF _ q refl]) (use True in auto)
    next
      case False
      then have "s' = goto t Recycling s"
        using a t Drain by (auto simp: bact_atomic_def bact_def run_lock_def run_drain_def
            destroy_section_def split: if_splits)
      then show ?thesis using nq by (auto intro!: queue_ok_goto [OF q])
    qed
  qed (use t a atomic_loop1 [OF inv q] atomic_loop2 [OF inv q] in auto)
next
  case False
  have np: "pcs s t \<noteq> At_prepare r" for t r using q by (simp add: queue_ok_def)
  have "\<exists>pc s0. s' = goto (who a) pc s0 \<and> (\<forall>r. pc \<noteq> At_prepare r) \<and> pcs s0 = pcs s
      \<and> who a \<notin> set (waitQ (bs s0)) \<and> b_total (bs s0) = b_total (bs s)
      \<and> set (waitQ (bs s0)) \<subseteq> set (waitQ (bs s))"
    using a False np not_queued [OF q, of "who a"]
    by (cases a) (force simp: bact_atomic_def bact_def sleep_here_finish_def
        split: if_splits wpc.splits option.splits)+
  then show ?thesis by (auto intro!: queue_ok_goto [OF q])
qed

lemma bact_binv: "binv n s \<Longrightarrow> bact a s = Some s' \<Longrightarrow> binv n s'"
  using bact_sim by blast

lemma bact_atomic_binv:
  assumes "binv n s" and "bact_atomic a s = Some s'"
  shows "binv n s'"
proof -
  from assms(2) obtain u where "bact a s = Some u" "s' = u \<or> bact (Run (who a)) u = Some s'"
    by (auto simp: bact_atomic_def split: option.splits wpc.splits)
  with assms(1) show ?thesis by (auto dest: bact_binv)
qed

lemma brun_atomic_inv:
  "binv n s \<Longrightarrow> queue_ok s \<Longrightarrow> brun_atomic as s = Some s' \<Longrightarrow> binv n s' \<and> queue_ok s'"
proof (induction as arbitrary: s)
  case (Cons a as)
  then obtain u where "bact_atomic a s = Some u" "brun_atomic as u = Some s'"
    by (auto simp: bind_eq_Some_conv)
  with Cons bact_atomic_binv atomic_queue_ok show ?case by blast
qed simp

lemma bstart_queue_ok: "bstart c s \<Longrightarrow> queue_ok s"
proof -
  assume "bstart c s"
  then have "waitQ (bs s) = []" "\<And>t. pcs s t = Idle"
    by (auto simp: bstart_def binit_def init_barrier_struct_def dest: arg_cong [where f = waitQ])
  then show ?thesis by (simp add: queue_ok_def)
qed

text \<open>In an open round every member can leave, by its own steps alone.\<close>

lemma member_leaves:
  assumes inv: "binv n s" and q: "queue_ok s" and o: "b_total (bs s) > BARRIER_FLAG"
    and t: "t \<in> members s" and f: "\<not> freed s"
  shows "\<exists>as s'. set as \<subseteq> {Run t} \<and> brun as s = Some s' \<and> binv n s' \<and> queue_ok s' \<and> \<not> freed s'
    \<and> members s' = members s - {t} \<and> arrivals s' = arrivals s
    \<and> (b_total (bs s') > BARRIER_FLAG \<or> b_total (bs s') = BARRIER_FLAG)"
proof -
  have leave: "\<exists>s'. bact (Run t) u = Some s' \<and> binv n s' \<and> queue_ok s' \<and> \<not> freed s'
    \<and> members s' = members u - {t} \<and> arrivals s' = arrivals u
    \<and> (b_total (bs s') > BARRIER_FLAG \<or> b_total (bs s') = BARRIER_FLAG)"
    if u: "binv n u" "queue_ok u" "b_total (bs u) > BARRIER_FLAG" "pcs u t = At_lock Loop2" "\<not> freed u" for u
  proof -
    have tm: "t \<in> members u" using u by (simp add: in_members)
    then have m0: "0 < card (members u)" using u(1) by (auto simp: binv_def card_gt_0_iff)
    have ok: "total_ok n (card (members u)) (b_total (bs u))" using u(1) by (simp add: binv_def)
    let ?s = "run_loop2 t u"
    have s: "bact (Run t) u = Some ?s" "pcs ?s t = Idle" "\<not> freed ?s" "members ?s = members u - {t}"
      "arrivals ?s = arrivals u" "b_total (bs ?s) > BARRIER_FLAG \<or> b_total (bs ?s) = BARRIER_FLAG"
      using u section2_total [OF ok m0] total_ok_leave(2) [OF ok u(3)]
      by (auto simp: bact_def run_lock_def run_loop2_def members_goto)
    then have "bact_atomic (Run t) u = Some ?s" by (simp add: bact_atomic_def)
    with s atomic_queue_ok [OF u(1,2) this] bact_atomic_binv [OF u(1) this] show ?thesis by blast
  qed
  have "pcs s t = At_lock Loop2 \<or> pcs s t = Asleep Loop2"
    using t q by (cases "pcs s t") (auto simp: in_members queue_ok_def)
  then show ?thesis
  proof
    assume "pcs s t = At_lock Loop2"
    with leave [OF inv q o _ f] obtain s' where "brun [Run t] s = Some s' \<and> binv n s' \<and> queue_ok s'
      \<and> \<not> freed s' \<and> members s' = members s - {t} \<and> arrivals s' = arrivals s
      \<and> (b_total (bs s') > BARRIER_FLAG \<or> b_total (bs s') = BARRIER_FLAG)" by auto
    then show ?thesis by (intro exI [of _ "[Run t]"] exI [of _ s']) auto
  next
    assume pc: "pcs s t = Asleep Loop2"
    then have nq: "t \<notin> set (waitQ (bs s))" using q o by (auto simp: queue_ok_def)
    let ?u = "goto t (At_lock Loop2) (s\<lparr>bs := sleep_here_finish t (bs s)\<rparr>)"
    have u: "bact (Run t) s = Some ?u" using pc nq f by (simp add: bact_def)
    then have at: "bact_atomic (Run t) s = Some ?u" by (simp add: bact_atomic_def)
    have m: "members ?u = members s" using t by (auto simp: members_goto)
    from leave [OF bact_atomic_binv [OF inv at] atomic_queue_ok [OF inv q at]] o f
    obtain s' where "bact (Run t) ?u = Some s' \<and> binv n s' \<and> queue_ok s'
      \<and> \<not> freed s' \<and> members s' = members s - {t} \<and> arrivals s' = arrivals s
      \<and> (b_total (bs s') > BARRIER_FLAG \<or> b_total (bs s') = BARRIER_FLAG)"
      unfolding m by auto
    with u show ?thesis by (intro exI [of _ "[Run t, Run t]"] exI [of _ s']) auto
  qed
qed

lemma round_drains:
  "binv n s \<Longrightarrow> queue_ok s \<Longrightarrow> b_total (bs s) > BARRIER_FLAG \<or> b_total (bs s) = BARRIER_FLAG \<Longrightarrow> \<not> freed s \<Longrightarrow>
   \<exists>as s'. set as \<subseteq> Run ` members s \<and> brun as s = Some s' \<and> binv n s' \<and> members s' = {}
     \<and> b_total (bs s') = BARRIER_FLAG \<and> arrivals s' = arrivals s"
proof (induction "card (members s)" arbitrary: s)
  case 0
  then have "members s = {}" "b_total (bs s) = BARRIER_FLAG"
    by (auto simp: binv_def total_ok_def split: if_splits)
  with 0 show ?case by (intro exI [of _ "[]"] exI [of _ s]) simp
next
  case (Suc k)
  then obtain t where t: "t \<in> members s" by (metis card.empty ex_in_conv nat.distinct(1))
  have o: "b_total (bs s) > BARRIER_FLAG"
    using Suc by (auto simp: binv_def total_ok_def split: if_splits)
  from member_leaves [OF Suc.prems(1,2) o t Suc.prems(4)] obtain as u where
    u: "set as \<subseteq> {Run t}" "brun as s = Some u" "binv n u" "queue_ok u" "\<not> freed u"
      "members u = members s - {t}" "arrivals u = arrivals s"
      "b_total (bs u) > BARRIER_FLAG \<or> b_total (bs u) = BARRIER_FLAG" by blast
  have "k = card (members u)"
    using Suc.hyps(2) t Suc.prems(1) by (simp add: u binv_def)
  from Suc.hyps(1) [OF this u(3,4,8,5)] obtain as' s' where
    "set as' \<subseteq> Run ` members u" "brun as' u = Some s'" "binv n s'" "members s' = {}"
    "b_total (bs s') = BARRIER_FLAG" "arrivals s' = arrivals u" by blast
  with u t show ?case
    by (intro exI [of _ "as @ as'"] exI [of _ s']) (auto simp: brun_append)
qed

lemma brun_atomic_reach: "brun_atomic as s = Some s' \<Longrightarrow> bstep\<^sup>*\<^sup>* s s'"
proof (induction as arbitrary: s)
  case (Cons a as)
  then obtain u where u: "bact_atomic a s = Some u" "bstep\<^sup>*\<^sup>* u s'"
    by (auto simp: bind_eq_Some_conv)
  from u(1) obtain v where "bact a s = Some v" "u = v \<or> bact (Run (who a)) v = Some u"
    by (auto simp: bact_atomic_def split: option.splits wpc.splits)
  then have "bstep\<^sup>*\<^sup>* s u" by (meson bstep.intros r_into_rtranclp rtranclp.simps)
  with u(2) show ?case by simp
qed simp

lemma reach_ainv:
  assumes "bstart c s" and "bstep\<^sup>*\<^sup>* s s'"
  shows "ainv (bcount c) (babs s')"
proof -
  have n: "0 < bcount c" using assms(1) by (simp add: bstart_def bcount_def)
  show ?thesis
    using cyclic.transfer_invariant [of "ainv (bcount c)" c s s'] assms ainv_init [OF n] ainv_step by blast
qed

section \<open>A count of zero\<close>

text \<open>\<open>barrier_init\<close> refuses negative counts only. With count 0 nobody is ever the last.\<close>

definition zinv :: "bsys \<Rightarrow> bool" where
  "zinv s \<longleftrightarrow> b_count (bs s) = 0 \<and> departures s = 0
     \<and> (if arrivals s = 0 then b_total (bs s) = BARRIER_FLAG else unat (b_total (bs s)) = arrivals s)
     \<and> (arrivals s = 0 \<longrightarrow> members s = {})"

lemma zinv_section1:
  assumes "zinv s" and "arrivals s < 2 ^ 63 - 1"
  shows "wait_section1 (bs s) = (Sleeps Loop2, (bs s)\<lparr>b_total := of_nat (Suc (arrivals s))\<rparr>)"
proof -
  let ?w = "b_total (bs s)"
  have "\<not> ?w > BARRIER_FLAG" "unat ?w mod 2 ^ 63 = arrivals s"
    using assms by (auto simp: zinv_def word_less_nat_alt split: if_splits)
  with wait_section1_cases(3) [of "bs s"] assms show ?thesis by (simp add: zinv_def)
qed

lemma zinv_act:
  assumes z: "zinv s" and k': "arrivals s < 2 ^ 63" "arrivals s' < 2 ^ 63" and a: "bact a s = Some s'"
  shows "zinv s'"
proof (cases "\<exists>t r. a = Run t \<and> pcs s t = At_lock r")
  case True
  then obtain t r where t: "a = Run t" "pcs s t = At_lock r" by auto
  then have s': "s' = run_lock r t s" using a by (auto simp: bact_def split: if_splits)
  show ?thesis
  proof (cases r)
    case Loop1
    have "\<not> b_total (bs s) > BARRIER_FLAG"
      using z k' by (auto simp: zinv_def word_less_nat_alt split: if_splits)
    then have "arrivals s' = Suc (arrivals s)"
      by (auto simp: s' Loop1 run_lock_def run_loop1_def wait_section1_def wait_section2_def Let_def)
    then have k: "arrivals s < 2 ^ 63 - 1" using k' by simp
    have "unat (of_nat (Suc (arrivals s)) :: u64) = Suc (arrivals s)"
      using k by (simp only: unat_of_nat) simp
    then show ?thesis
      using z by (simp add: s' Loop1 run_lock_def run_loop1_def zinv_section1 [OF z k] zinv_def
          del: of_nat_Suc)
  next
    case Loop2
    then have "arrivals s \<noteq> 0" using z t in_members [of t s] by (auto simp: zinv_def)
    then have "b_total (bs s) < BARRIER_FLAG"
      using z k' by (simp add: zinv_def word_less_nat_alt)
    with z \<open>arrivals s \<noteq> 0\<close> show ?thesis
      by (simp add: s' Loop2 run_lock_def run_loop2_def wait_section2_def zinv_def)
  next
    case Drain
    then have "\<not> in_round (pcs s t)" using t by simp
    then show ?thesis
      using z by (auto simp: s' Drain run_lock_def run_drain_def destroy_section_def zinv_def members_goto)
  qed
next
  case False
  then obtain t pc s0 where "s' = goto t pc s0" "in_round pc = in_round (pcs s t)"
    "b_total (bs s0) = b_total (bs s)" "b_count (bs s0) = b_count (bs s)" "pcs s0 = pcs s"
    "arrivals s0 = arrivals s" "departures s0 = departures s"
    using a by (cases a) (force simp: bact_def split: if_splits wpc.splits)+
  moreover from this have "members s' = members s"
    using in_members [of t s] by (auto simp: members_def)
  ultimately show ?thesis using z by (simp add: zinv_def)
qed

lemma arrivals_act: "bact a s = Some s' \<Longrightarrow> arrivals s \<le> arrivals s'"
  by (cases a) (auto simp: bact_def run_lock_def run_loop1_def run_loop2_def run_drain_def
      split: if_splits wpc.splits resume.splits prod.splits sysret.splits)

lemma arrivals_mono: "bstep\<^sup>*\<^sup>* s s' \<Longrightarrow> arrivals s \<le> arrivals s'"
  by (induction rule: rtranclp_induct) (auto simp: bstep_iff dest: arrivals_act)

section \<open>Properties\<close>

text \<open>
  (C1) The barrier refines the cyclic barrier: whatever number of threads call
  \<open>barrier_wait\<close> and \<open>barrier_destroy\<close> on a barrier made with a positive count, and however
  their critical sections, queueing, wake-ups and signals interleave, the run is one of the
  abstract machine in which a round opens exactly when the given number of threads has
  arrived and nobody joins the next round before the last has left.
\<close>

theorem barrier_refines_cyclic:
  assumes "bstart c s" and "bstep\<^sup>*\<^sup>* s s'"
  shows "ainit (babs s) \<and> (astep (bcount c))\<^sup>*\<^sup>* (babs s) (babs s')"
  using assms bstart_inv(2) cyclic.simulates by blast

theorem barrier_refines_cyclic_witness:
  "bstart 2 (fresh_bsys 2) \<and> (astep 2)\<^sup>*\<^sup>* (babs (fresh_bsys 2)) (babs lost_state)"
proof -
  have "bstart 2 (fresh_bsys 2)" by (simp add: bstart_def)
  moreover have "bcount 2 = 2" by (simp add: bcount_def)
  ultimately show ?thesis
    using barrier_refines_cyclic [of 2 "fresh_bsys 2" lost_state] brun_reach [OF lost_schedule_run]
    by simp
qed

text \<open>
  (C2) Safety of the rounds. At every moment the calls that have returned are at most those
  of complete rounds; the calls that arrived and have not returned are the threads in the
  second loop, fewer than the count; while a round drains no thread of a later round has
  been counted; while one fills, all earlier rounds have left completely.
\<close>

theorem barrier_round_safety:
  assumes "bstart c s" and "bstep\<^sup>*\<^sup>* s s'"
  shows "departures s' \<le> bcount c * (arrivals s' div bcount c)
    \<and> arrivals s' = departures s' + card (members s') \<and> card (members s') < bcount c
    \<and> (if b_total (bs s') > BARRIER_FLAG then bcount c dvd arrivals s' else bcount c dvd departures s')"
proof -
  from reach_ainv [OF assms] have eq: "arrivals s' = departures s' + card (members s')"
    and lt: "card (members s') < bcount c"
    and d: "if b_total (bs s') > BARRIER_FLAG then bcount c dvd arrivals s' else bcount c dvd departures s'"
    by (auto simp: ainv_def babs_def split: if_splits)
  have "departures s' \<le> bcount c * (arrivals s' div bcount c)"
  proof (cases "bcount c dvd arrivals s'")
    case True
    with eq show ?thesis by simp
  next
    case False
    with d have "bcount c dvd departures s'" by (simp split: if_splits)
    then obtain k where "departures s' = bcount c * k" by (rule dvdE)
    moreover from this eq lt have "arrivals s' div bcount c = k" by simp
    ultimately show ?thesis by simp
  qed
  with eq lt d show ?thesis by blast
qed

theorem barrier_round_safety_witness:
  "departures lost_state \<le> 2 * (arrivals lost_state div 2) \<and> card (members lost_state) < 2"
proof -
  have "bstart 2 (fresh_bsys 2)" by (simp add: bstart_def)
  moreover have "bcount 2 = 2" by (simp add: bcount_def)
  ultimately show ?thesis
    using barrier_round_safety [of 2 "fresh_bsys 2" lost_state] brun_reach [OF lost_schedule_run]
    by metis
qed

text \<open>
  The 64-bit total never wraps and never collides with the flag: in every reachable
  state it is the number of waiting threads while a round fills, exactly the flag between
  rounds, and the flag plus the number of threads that still have to leave while one drains.
\<close>

lemma barrier_total_counts:
  assumes "bstart c s" and "bstep\<^sup>*\<^sup>* s s'"
  shows "let m = card (members s'); w = unat (b_total (bs s')) in
    m < bcount c \<and> finite (members s')
    \<and> (w = m \<and> 0 < m \<or> w = 2 ^ 63 + m) \<and> b_count (bs s') = scast c"
proof -
  have i: "binv (bcount c) s'" using assms cyclic.inv_reachable by blast
  have c: "0 \<le> sint c" using assms(1) by (simp add: bstart_def)
  have "b_count (bs s') = scast c"
    using i count_nat [OF c] by (simp add: binv_def word_unat_eq_iff)
  with i show ?thesis
    by (auto simp: binv_def total_ok_def Let_def split: if_splits)
qed

lemma barrier_total_counts_example:
  "unat (b_total (bs lost_state)) = 2 ^ 63 + card (members lost_state)
   \<or> unat (b_total (bs lost_state)) = card (members lost_state)"
proof -
  have "bstart 2 (fresh_bsys 2)" by (simp add: bstart_def)
  then show ?thesis
    using barrier_total_counts [of 2 "fresh_bsys 2" lost_state] brun_reach [OF lost_schedule_run]
    by (auto simp: Let_def)
qed

text \<open>
  (C34) A lost wake-up hangs the barrier. With count 2: thread 1 is counted and gives back
  the lock; thread 2 completes the round, wakes the (still empty) queue and returns; thread
  1 queues and sleeps. From then on, whatever any thread does, thread 1 stays asleep and no
  further call to \<open>barrier_wait\<close> returns, unless a signal arrives.
\<close>

theorem barrier_lost_wakeup:
  assumes "brun (lost_schedule @ as) (fresh_bsys 2) = Some s" and "\<forall>a \<in> set as. \<not> is_signal a"
  shows "departures s = 1 \<and> pcs s 1 = Asleep Loop2"
proof -
  have "brun as lost_state = Some s" using assms(1) by (simp add: brun_append lost_schedule_run)
  from stuck_run [OF lost_state_stuck this assms(2)] show ?thesis by (simp add: lost_state_def)
qed

theorem barrier_lost_wakeup_witness:
  "\<exists>s. brun (lost_schedule @ [Call_wait 2, Run 2, Run 2, Call_wait 3, Run 3]) (fresh_bsys 2) = Some s
     \<and> departures s = 1 \<and> pcs s 1 = Asleep Loop2"
proof -
  let ?as = "[Call_wait 2, Run 2, Run 2, Call_wait 3, Run 3] :: action list"
  have "brun (lost_schedule @ ?as) (fresh_bsys 2) \<noteq> None"
    unfolding brun_append lost_schedule_run
    by (simp add: lost_state_def fresh_bsys_def bact_def goto_def run_lock_def run_loop1_def
        wait_section1_def BARRIER_FLAG_def)
  then show ?thesis using barrier_lost_wakeup [of ?as] by auto
qed

text \<open>
  (C35) Without that window the barrier releases its threads: if a thread that has to sleep
  queues before another thread takes the lock, then in every state in which a round is
  open its remaining members can all return, by steps of their own and in a finite
  schedule, after which every call that ever arrived has returned and the barrier is
  ready for the next round.
\<close>

theorem barrier_round_drains:
  assumes "bstart c s0" and "brun_atomic as0 s0 = Some s" and "\<not> freed s"
    and "b_total (bs s) > BARRIER_FLAG"
  shows "\<exists>as s'. set as \<subseteq> Run ` members s \<and> brun as s = Some s' \<and> members s' = {}
    \<and> b_total (bs s') = BARRIER_FLAG \<and> departures s' = arrivals s"
proof -
  have "binv (bcount c) s" "queue_ok s"
    using brun_atomic_inv [OF bstart_inv(1) bstart_queue_ok] assms by blast+
  with round_drains assms obtain as s' where
    r: "set as \<subseteq> Run ` members s" "brun as s = Some s'" "members s' = {}"
      "b_total (bs s') = BARRIER_FLAG" "arrivals s' = arrivals s" by blast
  have "bstep\<^sup>*\<^sup>* s0 s"
    using brun_atomic_reach [OF assms(2)] .
  then have "bstep\<^sup>*\<^sup>* s0 s'" using brun_reach [OF r(2)] by simp
  from reach_ainv [OF assms(1) this] have "arrivals s' = departures s' + card (members s')"
    by (simp add: ainv_def babs_def)
  with r show ?thesis by auto
qed

theorem barrier_round_drains_witness:
  "\<exists>s as s'. brun_atomic [Call_wait 1, Run 1, Call_wait 2, Run 2] (fresh_bsys 2) = Some s
     \<and> brun as s = Some s' \<and> members s' = {} \<and> departures s' = 2"
proof -
  let ?as = "[Call_wait 1, Run 1, Call_wait 2, Run 2] :: action list"
  let ?s = "lost_state\<lparr>bs := (bs lost_state)\<lparr>waitQ := []\<rparr>\<rparr>"
  have s: "brun_atomic ?as (fresh_bsys 2) = Some ?s"
    by (simp add: lost_state_def fresh_bsys_def bact_atomic_def bact_def goto_def run_lock_def
        run_loop1_def wait_section1_def wait_section2_def init_barrier_struct_def wake_up_here_def
        sleep_here_enqueue_def BARRIER_FLAG_def fun_eq_iff)
  have "bstart 2 (fresh_bsys 2)" by (simp add: bstart_def)
  moreover have "\<not> freed ?s" "b_total (bs ?s) > BARRIER_FLAG" "arrivals ?s = 2"
    by (simp_all add: lost_state_def fresh_bsys_def BARRIER_FLAG_def)
  ultimately show ?thesis using s barrier_round_drains [of 2 "fresh_bsys 2" ?as ?s] by metis
qed

text \<open>
  \<open>barrier_destroy\<close> frees a barrier other threads are waiting on: its drain loop
  tests only whether a round is emptying, so with one of two threads asleep on the barrier
  it goes on to free it, the thread still queued.
\<close>

lemma barrier_destroy_frees_waiters:
  "\<exists>s. brun [Call_wait 1, Run 1, Run 1, Call_destroy 2, Run 2, Run 2] (fresh_bsys 2) = Some s
     \<and> freed s \<and> pcs s 1 = Asleep Loop2 \<and> waitQ (bs s) = [1]"
  by (simp add: fresh_bsys_def bact_def goto_def run_lock_def run_loop1_def wait_section1_def
      wait_section2_def init_barrier_struct_def sleep_here_enqueue_def run_drain_def
      destroy_section_def BARRIER_FLAG_def)

text \<open>
  A barrier made with count 0, which \<open>barrier_init\<close> accepts, never releases anybody:
  as long as fewer than \<open>2 ^ 63\<close> calls have arrived, no call has returned.
\<close>

lemma barrier_count_zero_blocks:
  assumes "binit 0 s" and "bstep\<^sup>*\<^sup>* s s'" and "arrivals s' < 2 ^ 63"
  shows "departures s' = 0"
proof -
  have s: "zinv s"
    using assms(1) by (auto simp: binit_def init_barrier_struct_def zinv_def members_def
        dest: arg_cong [where f = b_count] arg_cong [where f = b_total])
  have "zinv s'" using assms(2,3)
  proof (induction rule: rtranclp_induct)
    case base
    show ?case by (rule s)
  next
    case (step t u)
    from step(2) obtain a where a: "bact a t = Some u" by (auto simp: bstep_iff)
    then show ?case using zinv_act step arrivals_act [OF a] by simp
  qed
  then show ?thesis by (simp add: zinv_def)
qed

lemma barrier_count_zero_blocks_example:
  "\<exists>s. brun [Call_wait 1, Run 1, Run 1, Call_wait 2, Run 2, Run 2] (fresh_bsys 0) = Some s
     \<and> arrivals s = 2 \<and> departures s = 0"
proof -
  let ?as = "[Call_wait 1, Run 1, Run 1, Call_wait 2, Run 2, Run 2] :: action list"
  have "\<exists>s. brun ?as (fresh_bsys 0) = Some s \<and> arrivals s = 2"
    by (simp add: fresh_bsys_def bact_def goto_def run_lock_def run_loop1_def wait_section1_def
      wait_section2_def init_barrier_struct_def sleep_here_enqueue_def BARRIER_FLAG_def)
  then obtain s where s: "brun ?as (fresh_bsys 0) = Some s" "arrivals s = 2" by blast
  with barrier_count_zero_blocks [OF binit_fresh brun_reach [OF s(1)]] show ?thesis by auto
qed

end
