(* ===== verification/Barrier_Test.thy ===== *)
theory Barrier_Test
  imports Barrier_Wait
begin

text \<open>
  The program \<open>barrier_test/barrier_user_sys.c\<close> on the barrier of \<open>Barrier_Wait\<close>: one call
  of \<open>run_barriers\<close>, which makes a barrier for \<open>n\<close> threads, starts \<open>n\<close> threads that meet
  at it a hundred times, joins them and destroys the barrier. What the program relies
  on is the contract \<open>round_service\<close>: the effect a step of a driver call can have. It
  is interpreted for the driver and for the driver without the window in which wake-ups
  are lost. Shown: the rounds of the threads stay in step, and so do the lines they print;
  the barrier is destroyed when nobody uses it any more; without the window the
  program ends under every schedule, with it it can hang.
\<close>

section \<open>The program\<close>

abbreviation SYNC_ROUNS :: nat where "SYNC_ROUNS \<equiv> 100"

text \<open>
  Where a thread of \<open>pfunction\<close> is, with the value of its variable \<open>cnt\<close>, and where the
  thread that runs \<open>run_barriers\<close> is.
\<close>

datatype upc = U_none | U_test nat | U_sleep nat | U_wait nat | U_done

datatype rpc = R_create nat | R_join nat | R_destroy | R_closing | R_end | R_undefined

record btest =
  bar :: bsys
  upcs :: "pid_t \<Rightarrow> upc"
  run_pc :: rpc
  lines :: "(pid_t \<times> nat) list"

abbreviation users :: "nat \<Rightarrow> pid_t set" where "users n \<equiv> {0..<int n}"
abbreviation runner :: pid_t where "runner \<equiv> - 1"

type_synonym service = "action \<Rightarrow> bsys \<Rightarrow> bsys option"

text \<open>
  A step of \<open>pfunction\<close> by thread \<open>t\<close>: print and test the counter, sleep and call
  \<open>barrier_wait\<close>, or go on inside that call; \<open>a\<close> is \<open>Run t\<close> or, when a signal wakes the
  thread, \<open>Signal t\<close>.
\<close>

definition pfunction :: "service \<Rightarrow> action \<Rightarrow> btest \<Rightarrow> btest option" where
  "pfunction act a s =
    (let t = who a in
     case upcs s t of
       U_none \<Rightarrow> None
     | U_test cnt \<Rightarrow>
         Some (s\<lparr>lines := lines s @ [(t, cnt)],
           upcs := (upcs s)(t := if SYNC_ROUNS = cnt then U_done else U_sleep (cnt + 1))\<rparr>)
     | U_sleep cnt \<Rightarrow>
         map_option (\<lambda>b. s\<lparr>bar := b, upcs := (upcs s)(t := U_wait cnt)\<rparr>) (act (Call_wait t) (bar s))
     | U_wait cnt \<Rightarrow>
         map_option (\<lambda>b. s\<lparr>bar := b,
             upcs := (if pcs b t = Idle then (upcs s)(t := U_test cnt) else upcs s)\<rparr>) (act a (bar s))
     | U_done \<Rightarrow> None)"

text \<open>
  A step of \<open>run_barriers\<close> after \<open>barrier_init\<close>: \<open>cret\<close> is what \<open>pthread_create\<close> returns,
  which the program does not look at. Joining a thread that was never started uses an
  uninitialised thread id.
\<close>

definition run_barriers :: "service \<Rightarrow> nat \<Rightarrow> int \<Rightarrow> btest \<Rightarrow> btest option" where
  "run_barriers act n cret s =
    (case run_pc s of
       R_create i \<Rightarrow>
         if i < n then
           Some (s\<lparr>run_pc := R_create (i + 1),
             upcs := (if cret = 0 then (upcs s)(int i := U_test 0) else upcs s)\<rparr>)
         else Some (s\<lparr>run_pc := R_join 0\<rparr>)
     | R_join i \<Rightarrow>
         if i < n then
           (case upcs s (int i) of
              U_done \<Rightarrow> Some (s\<lparr>run_pc := R_join (i + 1)\<rparr>)
            | U_none \<Rightarrow> Some (s\<lparr>run_pc := R_undefined\<rparr>)
            | _ \<Rightarrow> None)
         else Some (s\<lparr>run_pc := R_destroy\<rparr>)
     | R_destroy \<Rightarrow>
         map_option (\<lambda>b. s\<lparr>bar := b, run_pc := R_closing\<rparr>) (act (Call_destroy runner) (bar s))
     | R_closing \<Rightarrow>
         map_option (\<lambda>b. s\<lparr>bar := b, run_pc := (if pcs b runner = Idle then R_end else R_closing)\<rparr>)
           (act (Run runner) (bar s))
     | R_end \<Rightarrow> None
     | R_undefined \<Rightarrow> None)"

text \<open>The state after \<open>barrier_init(num_threads, &barrier_id)\<close>.\<close>

definition run_start :: "nat \<Rightarrow> btest" where
  "run_start n = \<lparr>bar = fresh_bsys (of_nat n), upcs = (\<lambda>_. U_none), run_pc = R_create 0, lines = []\<rparr>"

text \<open>
  The environment says whether signals may arrive and whether \<open>pthread_create\<close> may fail.
\<close>

record circumstances =
  signals :: bool
  create_fails :: bool

inductive test_run :: "circumstances \<Rightarrow> service \<Rightarrow> nat \<Rightarrow> btest \<Rightarrow> btest \<Rightarrow> bool" for env act n where
  user: "t \<in> users n \<Longrightarrow> a = Run t \<or> signals env \<and> a = Signal t \<and> upcs s t \<in> range U_wait \<Longrightarrow>
    pfunction act a s = Some s' \<Longrightarrow> test_run env act n s s'"
| boss: "cret = 0 \<or> create_fails env \<Longrightarrow> run_barriers act n cret s = Some s' \<Longrightarrow> test_run env act n s s'"

section \<open>What a step of a driver call does\<close>

fun closing :: "wpc \<Rightarrow> bool" where
  "closing (At_lock r) = (r = Drain)"
| "closing (At_prepare r) = (r = Drain)"
| "closing (Asleep r) = (r = Drain)"
| "closing Recycling = True"
| "closing Idle = False"

abbreviation draining :: "bsys \<Rightarrow> bool" where
  "draining s \<equiv> b_total (bs s) > BARRIER_FLAG"

definition same_round :: "bsys \<Rightarrow> bsys \<Rightarrow> bool" where
  "same_round s s' \<longleftrightarrow> members s' = members s \<and> draining s' = draining s"

inductive effect :: "nat \<Rightarrow> action \<Rightarrow> bsys \<Rightarrow> bsys \<Rightarrow> bool" for n where
  called: "pcs s t = Idle \<Longrightarrow> pcs s' = (pcs s)(t := At_lock Loop1) \<Longrightarrow> same_round s s' \<Longrightarrow>
    \<not> freed s' \<Longrightarrow> effect n (Call_wait t) s s'"
| closes: "pcs s t = Idle \<Longrightarrow> pcs s' = (pcs s)(t := At_lock Drain) \<Longrightarrow> same_round s s' \<Longrightarrow>
    \<not> freed s' \<Longrightarrow> effect n (Call_destroy t) s s'"
| moved: "pcs s (who a) \<noteq> Idle \<Longrightarrow> pc \<noteq> Idle \<Longrightarrow> closing pc = closing (pcs s (who a)) \<Longrightarrow>
    pcs s' = (pcs s)(who a := pc) \<Longrightarrow> same_round s s' \<Longrightarrow> \<not> freed s' \<Longrightarrow> effect n a s s'"
| arrived: "\<not> draining s \<Longrightarrow> \<not> draining s' \<Longrightarrow> who a \<notin> members s \<Longrightarrow> \<not> closing (pcs s (who a)) \<Longrightarrow>
    pcs s (who a) \<noteq> Idle \<Longrightarrow> pc \<noteq> Idle \<Longrightarrow> \<not> closing pc \<Longrightarrow> pcs s' = (pcs s)(who a := pc) \<Longrightarrow>
    members s' = insert (who a) (members s) \<Longrightarrow> \<not> freed s' \<Longrightarrow> effect n a s s'"
| last: "\<not> draining s \<Longrightarrow> who a \<notin> members s \<Longrightarrow> \<not> closing (pcs s (who a)) \<Longrightarrow> pcs s (who a) \<noteq> Idle \<Longrightarrow>
    Suc (card (members s)) = n \<Longrightarrow> pcs s' = (pcs s)(who a := Idle) \<Longrightarrow> members s' = members s \<Longrightarrow>
    draining s' = (members s \<noteq> {}) \<Longrightarrow> \<not> freed s' \<Longrightarrow> effect n a s s'"
| leaves: "draining s \<Longrightarrow> who a \<in> members s \<Longrightarrow> pcs s' = (pcs s)(who a := Idle) \<Longrightarrow>
    members s' = members s - {who a} \<Longrightarrow> draining s' = (members s' \<noteq> {}) \<Longrightarrow> \<not> freed s' \<Longrightarrow>
    effect n a s s'"
| frees: "pcs s (who a) = Recycling \<Longrightarrow> pcs s' = (pcs s)(who a := Idle) \<Longrightarrow> same_round s s' \<Longrightarrow>
    freed s' \<Longrightarrow> effect n a s s'"

text \<open>Only sleeping threads are in the queue.\<close>

definition queued_asleep :: "bsys \<Rightarrow> bool" where
  "queued_asleep s \<longleftrightarrow> (\<forall>t \<in> set (waitQ (bs s)). \<exists>r. pcs s t = Asleep r)"

text \<open>The critical sections of the driver, with their effect.\<close>

lemma loop1_effect:
  assumes inv: "binv n s" and pc: "pcs s t = At_lock Loop1" and f: "\<not> freed s" and "who a = t"
  shows "effect n a s (run_loop1 t s)"
proof -
  let ?m = "card (members s)"
  have ok: "total_ok n ?m (b_total (bs s))" and n: "n < 2 ^ 63" and c: "unat (b_count (bs s)) = n"
    and fin: "finite (members s)" using inv by (auto simp: binv_def)
  note sec = section1_total [OF ok c n]
  have t: "t \<notin> members s" "members s - {t} = members s" using pc by (auto simp: in_members)
  consider "draining s" | "\<not> draining s" "Suc ?m = n" | "\<not> draining s" "Suc ?m < n"
    using total_ok_less [OF ok] by linarith
  then show ?thesis
  proof cases
    case 1
    then show ?thesis
      using f pc t \<open>who a = t\<close>
      by (intro effect.moved [where pc = "At_prepare Loop1"])
        (auto simp: run_loop1_def sec same_round_def members_goto)
  next
    case 2
    then show ?thesis
      using f pc t fin total_ok_last(2) [OF 2(2) n] \<open>who a = t\<close>
      by (intro effect.last) (auto simp: run_loop1_def sec members_goto)
  next
    case 3
    then show ?thesis
      using f pc t total_ok_arrive(2) [OF 3(2) n] \<open>who a = t\<close>
      by (intro effect.arrived [where pc = "At_prepare Loop2"])
        (auto simp: run_loop1_def sec members_goto simp del: of_nat_Suc)
  qed
qed

lemma loop2_effect:
  assumes inv: "binv n s" and pc: "pcs s t = At_lock Loop2" and f: "\<not> freed s" and "who a = t"
  shows "effect n a s (run_loop2 t s)"
proof -
  let ?m = "card (members s)"
  have t: "t \<in> members s" using pc by (simp add: in_members)
  have ok: "total_ok n ?m (b_total (bs s))" and fin: "finite (members s)" and m0: "0 < ?m"
    using inv t by (auto simp: binv_def card_gt_0_iff)
  note sec = section2_total [OF ok m0]
  show ?thesis
  proof (cases "draining s")
    case False
    then show ?thesis
      using f pc t \<open>who a = t\<close>
      by (intro effect.moved [where pc = "At_prepare Loop2"])
        (auto simp: run_loop2_def sec same_round_def members_goto)
  next
    case True
    have "members s - {t} = {} \<longleftrightarrow> ?m = 1" using t fin by (auto simp: card_1_singleton_iff)
    then show ?thesis
      using True f pc t total_ok_leave(2) [OF ok True] \<open>who a = t\<close>
      by (intro effect.leaves) (auto simp: run_loop2_def sec members_goto)
  qed
qed

lemma goto_moved:
  assumes "pcs s t \<noteq> Idle" and "pc \<noteq> Idle" and "closing pc = closing (pcs s t)"
    and "in_round pc = in_round (pcs s t)" and "b_total b = b_total (bs s)" and "\<not> freed s" and "who a = t"
  shows "effect n a s (goto t pc (s\<lparr>bs := b\<rparr>))"
proof -
  have "members (goto t pc (s\<lparr>bs := b\<rparr>)) = members s"
    using assms(4) by (auto simp: members_goto in_members)
  then show ?thesis
    using assms by (intro effect.moved [where pc = pc]) (simp_all add: same_round_def)
qed

lemma bact_effect:
  assumes inv: "binv n s" and a: "bact a s = Some s'"
  shows "effect n a s s'"
proof -
  have f: "\<not> freed s" using a by (auto simp: bact_def split: if_splits)
  have out: "members (goto t pc s) = members s" if "pcs s t = Idle" "\<not> in_round pc" for t pc
    using that by (auto simp: members_goto in_members)
  show ?thesis
  proof (cases a)
    case (Call_wait t)
    then show ?thesis
      using a f out [of t "At_lock Loop1"]
      by (auto simp: bact_def same_round_def split: if_splits intro!: effect.called)
  next
    case (Call_destroy t)
    then show ?thesis
      using a f out [of t "At_lock Drain"]
      by (auto simp: bact_def same_round_def split: if_splits intro!: effect.closes)
  next
    case (Signal t)
    with a f show ?thesis
      by (auto simp: bact_def split: if_splits wpc.splits intro!: goto_moved)
  next
    case (Run t)
    show ?thesis
    proof (cases "pcs s t")
      case (At_lock r)
      then have s': "s' = run_lock r t s" using a f Run by (simp add: bact_def)
      show ?thesis
      proof (cases r)
        case Drain
        with At_lock f Run goto_moved [of s t _ "bs s"] show ?thesis
          by (simp add: s' run_lock_def run_drain_def destroy_section_def)
      qed (use At_lock s' Run loop1_effect [OF inv _ f] loop2_effect [OF inv _ f] in
          \<open>auto simp: run_lock_def\<close>)
    next
      case Recycling
      with a f Run show ?thesis
        by (intro effect.frees) (auto simp: bact_def same_round_def members_goto in_members)
    qed (use a f Run in \<open>auto simp: bact_def split: if_splits intro!: goto_moved\<close>)
  qed
qed

lemma bact_queue:
  assumes "queued_asleep s" and "bact a s = Some s'"
  shows "queued_asleep s'"
proof -
  have "who a \<in> set (waitQ (bs s)) \<Longrightarrow> \<exists>r. pcs s (who a) = Asleep r"
    using assms(1) by (simp add: queued_asleep_def)
  then have "(\<forall>u. u \<noteq> who a \<longrightarrow> pcs s' u = pcs s u)
    \<and> set (waitQ (bs s')) \<subseteq> insert (who a) (set (waitQ (bs s)))
    \<and> (who a \<in> set (waitQ (bs s')) \<longrightarrow> (\<exists>r. pcs s' (who a) = Asleep r))"
    using assms(2)
    by (cases a) (auto simp: bact_def run_lock_def run_loop1_def run_loop2_def run_drain_def
        wait_section1_def wait_section2_def wake_up_here_def destroy_section_def
        sleep_here_finish_def sleep_here_enqueue_def Let_def
        split: if_splits wpc.splits resume.splits prod.splits sysret.splits)
  then show ?thesis using assms(1) unfolding queued_asleep_def by (metis insert_iff subsetD)
qed

text \<open>A thread that queues in the same step as it gives back the lock.\<close>

lemma effect_then_queues:
  assumes "effect n a s u" and "effect n (Run (who a)) u s'" and "pcs u (who a) = At_prepare r"
    and "pcs s' (who a) = Asleep r" and "same_round u s'" and "\<not> freed s'"
  shows "effect n a s s'"
proof -
  have p: "pcs s' = (pcs u)(who a := Asleep r)"
    using assms(2-4) by cases (auto simp: fun_eq_iff)
  from assms(1) show ?thesis
  proof cases
    case (moved pc)
    with assms(3,5,6) p show ?thesis
      by (intro effect.moved [where pc = "Asleep r"]) (auto simp: same_round_def)
  next
    case (arrived pc)
    with assms(3,5,6) p show ?thesis
      by (intro effect.arrived [where pc = "Asleep r"]) (auto simp: same_round_def)
  qed (use assms(3) in auto)
qed

lemma bact_atomic_cases:
  assumes "bact_atomic a s = Some s'"
  obtains "bact a s = Some s'" "\<And>r. pcs s' (who a) \<noteq> At_prepare r"
  | u r where "bact a s = Some u" "pcs u (who a) = At_prepare r" "bact (Run (who a)) u = Some s'"
  using assms by (auto simp: bact_atomic_def split: option.splits wpc.splits)

lemma bact_atomic_effect:
  assumes inv: "binv n s" and a: "bact_atomic a s = Some s'"
  shows "effect n a s s'"
  using a
proof (cases rule: bact_atomic_cases)
  case 1
  with inv bact_effect show ?thesis by blast
next
  case (2 u r)
  note e = bact_effect [OF inv 2(1)] bact_effect [OF bact_binv [OF inv 2(1)] 2(3)]
  have s': "s' = goto (who a) (Asleep r) (u\<lparr>bs := sleep_here_enqueue (who a) (bs u)\<rparr>)" "\<not> freed u"
    using 2 by (auto simp: bact_def split: if_splits)
  have "members s' = members u" using 2(2) by (auto simp: s' members_goto in_members)
  with s' 2 e show ?thesis by (intro effect_then_queues [OF e]) (auto simp: same_round_def)
qed

section \<open>The threads of the program\<close>

fun rounds :: "upc \<Rightarrow> nat" where
  "rounds U_none = 0"
| "rounds (U_test c) = c"
| "rounds (U_sleep c) = c - 1"
| "rounds (U_wait c) = c - 1"
| "rounds U_done = SYNC_ROUNS"

fun printed :: "upc \<Rightarrow> nat" where
  "printed U_none = 0"
| "printed (U_test c) = c"
| "printed (U_sleep c) = c"
| "printed (U_wait c) = c"
| "printed U_done = Suc SYNC_ROUNS"

fun upc_ok :: "upc \<Rightarrow> bool" where
  "upc_ok (U_test c) \<longleftrightarrow> c \<le> SYNC_ROUNS"
| "upc_ok (U_sleep c) \<longleftrightarrow> 1 \<le> c \<and> c \<le> SYNC_ROUNS"
| "upc_ok (U_wait c) \<longleftrightarrow> 1 \<le> c \<and> c \<le> SYNC_ROUNS"
| "upc_ok _ = True"

text \<open>A user is inside the driver exactly when it waits; nobody else but the runner uses the barrier.\<close>

definition users_ok :: "nat \<Rightarrow> btest \<Rightarrow> bool" where
  "users_ok n s \<longleftrightarrow>
     (\<forall>t \<in> users n. upc_ok (upcs s t) \<and> (upcs s t \<in> range U_wait \<longleftrightarrow> pcs (bar s) t \<noteq> Idle)
        \<and> \<not> closing (pcs (bar s) t))
     \<and> (\<forall>t. t \<notin> users n \<longrightarrow> pcs (bar s) t = Idle \<or> t = runner \<and> closing (pcs (bar s) t))"

definition in_step :: "nat \<Rightarrow> btest \<Rightarrow> bool" where
  "in_step n s \<longleftrightarrow>
     (\<exists>r. \<forall>t \<in> users n. rounds (upcs s t) = (if draining (bar s) \<and> t \<notin> members (bar s) then Suc r else r))"

definition log_ok :: "nat \<Rightarrow> btest \<Rightarrow> bool" where
  "log_ok n s \<longleftrightarrow> distinct (lines s)
     \<and> (\<forall>t \<in> users n. \<forall>k. (t, k) \<in> set (lines s) \<longleftrightarrow> k < printed (upcs s t))"

definition all_done :: "nat \<Rightarrow> btest \<Rightarrow> bool" where
  "all_done n s \<longleftrightarrow> (\<forall>t \<in> users n. upcs s t = U_done)"

definition run_ok :: "nat \<Rightarrow> btest \<Rightarrow> bool" where
  "run_ok n s \<longleftrightarrow>
    (case run_pc s of
       R_create i \<Rightarrow> (\<forall>t \<in> users n. int i \<le> t \<longrightarrow> upcs s t = U_none) \<and> pcs (bar s) runner = Idle \<and> \<not> freed (bar s)
     | R_join i \<Rightarrow> (\<forall>t \<in> users n. t < int i \<longrightarrow> upcs s t = U_done) \<and> pcs (bar s) runner = Idle \<and> \<not> freed (bar s)
     | R_destroy \<Rightarrow> all_done n s \<and> pcs (bar s) runner = Idle \<and> \<not> freed (bar s)
     | R_closing \<Rightarrow> all_done n s \<and> closing (pcs (bar s) runner) \<and> \<not> freed (bar s)
     | R_end \<Rightarrow> all_done n s \<and> pcs (bar s) runner = Idle
     | R_undefined \<Rightarrow> pcs (bar s) runner = Idle \<and> \<not> freed (bar s))"

definition client_ok :: "nat \<Rightarrow> btest \<Rightarrow> bool" where
  "client_ok n s \<longleftrightarrow> binv n (bar s) \<and> queued_asleep (bar s) \<and> users_ok n s \<and> in_step n s
     \<and> log_ok n s \<and> run_ok n s"

lemma closing_not_in_round: "closing pc \<Longrightarrow> \<not> in_round pc"
  by (cases pc) auto

lemma members_users: "users_ok n s \<Longrightarrow> members (bar s) \<subseteq> users n"
  unfolding users_ok_def members_def
  using closing_not_in_round in_round.simps(4) by (metis (mono_tags, lifting) mem_Collect_eq subsetI)

lemma users_okD:
  assumes "users_ok n s" and "t \<in> users n"
  shows "upc_ok (upcs s t)" and "upcs s t \<in> range U_wait \<longleftrightarrow> pcs (bar s) t \<noteq> Idle"
    and "\<not> closing (pcs (bar s) t)"
  using assms by (simp_all add: users_ok_def)

lemma users_ok_update:
  assumes "users_ok n s" and "t \<in> users n" and "pcs (bar s') = (pcs (bar s))(t := q)"
    and "upcs s' = (upcs s)(t := p)" and "upc_ok p" and "p \<in> range U_wait \<longleftrightarrow> q \<noteq> Idle" and "\<not> closing q"
  shows "users_ok n s'"
  using assms unfolding users_ok_def by simp

lemma run_ok_user:
  assumes "run_ok n s" and "t \<in> users n" and "upcs s t \<noteq> U_none" and "upcs s t \<noteq> U_done"
    and "run_pc s' = run_pc s" and "upcs s' = (upcs s)(t := p)"
    and "freed (bar s') = freed (bar s)" and "pcs (bar s') runner = pcs (bar s) runner"
  shows "run_ok n s'"
  using assms by (cases "run_pc s") (auto simp: run_ok_def all_done_def)

lemma log_ok_user:
  assumes "log_ok n s" and "t \<in> users n" and "upcs s' = (upcs s)(t := p)"
    and "lines s' = lines s" and "printed p = printed (upcs s t)"
  shows "log_ok n s'"
  using assms by (simp add: log_ok_def)

text \<open>The effect of a step on the place of one thread and on the rounds of all.\<close>

lemma in_step_update:
  assumes "in_step n s" and "t \<in> users n" and "upcs s' = (upcs s)(t := p)"
    and "rounds p = rounds (upcs s t)" and "members (bar s') - {t} = members (bar s) - {t}"
    and "draining (bar s') = draining (bar s)" and "draining (bar s) \<Longrightarrow> t \<in> members (bar s') \<longleftrightarrow> t \<in> members (bar s)"
  shows "in_step n s'"
proof -
  from assms(1) obtain r where r: "\<forall>t \<in> users n. rounds (upcs s t) = (if draining (bar s) \<and> t \<notin> members (bar s) then Suc r else r)"
    by (auto simp: in_step_def)
  have "u \<in> members (bar s') \<longleftrightarrow> u \<in> members (bar s)" if "draining (bar s)" for u
    using assms(5,7) that by (cases "u = t") blast+
  with r assms(2,3,4,6) show ?thesis unfolding in_step_def by (intro exI [of _ r]) auto
qed

lemma everybody:
  assumes "t \<in> users n" and "M \<subseteq> users n" and "t \<notin> M" and "Suc (card M) = n"
  shows "insert t M = users n"
proof -
  have "card (insert t M) = card (users n)" using assms finite_subset [OF assms(2)] by simp
  moreover have "finite (users n)" "insert t M \<subseteq> users n" using assms(1,2) by simp_all
  ultimately show ?thesis by (meson card_subset_eq)
qed

lemma in_step_last:
  assumes s: "in_step n s" and t: "t \<in> users n" "\<not> draining (bar s)" "t \<notin> members (bar s)"
    and mem: "members (bar s) \<subseteq> users n" "Suc (card (members (bar s))) = n"
    and s': "upcs s' = (upcs s)(t := p)" "rounds p = Suc (rounds (upcs s t))"
      "members (bar s') = members (bar s)" "draining (bar s') = (members (bar s) \<noteq> {})"
  shows "in_step n s'"
proof -
  from s t(2) obtain r where r: "\<forall>t \<in> users n. rounds (upcs s t) = r" by (auto simp: in_step_def)
  note all = everybody [OF t(1) mem(1) t(3) mem(2)]
  have eq: "rounds (upcs s' u) = (if u = t then Suc r else r)" if "u \<in> users n" for u
    using r that t(1) by (simp add: s'(1,2))
  have u: "u \<in> members (bar s') \<longleftrightarrow> u \<noteq> t" if "u \<in> users n" for u
    using that t(3) all s'(3) by blast
  show ?thesis
  proof (cases "members (bar s) = {}")
    case True
    with all have "users n = {t}" by simp
    with eq True show ?thesis unfolding in_step_def s'(4) by (intro exI [of _ "Suc r"]) simp
  next
    case False
    with eq u show ?thesis unfolding in_step_def s'(4) by (intro exI [of _ r]) simp
  qed
qed

lemma in_step_leaves:
  assumes s: "in_step n s" and t: "t \<in> users n" "draining (bar s)" "t \<in> members (bar s)"
    and s': "upcs s' = (upcs s)(t := p)" "rounds p = Suc (rounds (upcs s t))"
      "members (bar s') = members (bar s) - {t}" "draining (bar s') = (members (bar s') \<noteq> {})"
  shows "in_step n s'"
proof -
  from s t obtain r where r: "\<forall>u \<in> users n. rounds (upcs s u) = (if u \<notin> members (bar s) then Suc r else r)"
    by (auto simp: in_step_def)
  show ?thesis
  proof (cases "members (bar s') = {}")
    case True
    then have "members (bar s) = {t}" using s'(3) t(3) by auto
    with r s' t True show ?thesis unfolding in_step_def by (intro exI [of _ "Suc r"]) auto
  next
    case False
    with r s' t show ?thesis unfolding in_step_def by (intro exI [of _ r]) auto
  qed
qed

section \<open>The contract\<close>

locale round_service =
  fixes act :: service and n :: nat
  assumes act_inv: "binv n s \<Longrightarrow> act a s = Some s' \<Longrightarrow> binv n s'"
    and act_effect: "binv n s \<Longrightarrow> act a s = Some s' \<Longrightarrow> effect n a s s'"
    and act_queue: "queued_asleep s \<Longrightarrow> act a s = Some s' \<Longrightarrow> queued_asleep s'"
begin

text \<open>A step inside \<open>barrier_wait\<close>: the thread stays in the call or its round is over.\<close>

lemma wait_step:
  assumes ok: "client_ok n s" and t: "t \<in> users n" "who a = t" "a = Run t \<or> a = Signal t"
    and pc: "upcs s t = U_wait c" and b: "act a (bar s) = Some b"
    and s': "s' = s\<lparr>bar := b, upcs := (if pcs b t = Idle then (upcs s)(t := U_test c) else upcs s)\<rparr>"
  shows "users_ok n s' \<and> in_step n s' \<and> freed b = freed (bar s) \<and> pcs b runner = pcs (bar s) runner"
proof -
  have u: "users_ok n s" "in_step n s" and inv: "binv n (bar s)" using ok by (simp_all add: client_ok_def)
  have p: "pcs (bar s) t \<noteq> Idle" "\<not> closing (pcs (bar s) t)" "1 \<le> c" "c \<le> SYNC_ROUNS"
    using users_okD [OF u(1) t(1)] pc by auto
  have nr: "t \<noteq> runner" using t(1) by auto
  have stay: "users_ok n s'" if "pcs b = (pcs (bar s))(t := q)" "q \<noteq> Idle" "\<not> closing q" for q
    using that pc p by (intro users_ok_update [OF u(1) t(1), where q = q and p = "U_wait c"]) (auto simp: s')
  have go: "users_ok n s'" if "pcs b = (pcs (bar s))(t := Idle)"
    using that p by (intro users_ok_update [OF u(1) t(1), where q = Idle and p = "U_test c"]) (auto simp: s')
  have f: "\<not> freed (bar s)" using ok pc t by (auto simp: client_ok_def run_ok_def all_done_def split: rpc.splits)
  from act_effect [OF inv b] show ?thesis
  proof cases
    case (moved q)
    moreover from moved have "in_step n s'"
      using t pc by (intro in_step_update [OF u(2) t(1)]) (auto simp: s' same_round_def)
    ultimately show ?thesis using stay [of q] p f nr t by simp
  next
    case (arrived q)
    moreover from arrived have "in_step n s'"
      using t pc by (intro in_step_update [OF u(2) t(1)]) (auto simp: s')
    ultimately show ?thesis using stay [of q] f nr t by simp
  next
    case last
    moreover from last have "in_step n s'"
      using t pc p by (intro in_step_last [OF u(2) t(1) _ _ members_users [OF u(1)], where p = "U_test c"])
        (auto simp: s')
    ultimately show ?thesis using go f nr t by simp
  next
    case leaves
    moreover from leaves have "in_step n s'"
      using t pc p by (intro in_step_leaves [OF u(2) t(1), where p = "U_test c"]) (auto simp: s')
    ultimately show ?thesis using go f nr t by simp
  qed (use t p in auto)
qed

lemma user_prints:
  assumes ok: "client_ok n s" and t: "t \<in> users n" "a = Run t \<or> a = Signal t"
    and step: "pfunction act a s = Some s'" and U_test: "upcs s t = U_test c"
  shows "client_ok n s'"
proof -
  have w: "who a = t" using t(2) by auto
  have o: "binv n (bar s)" "queued_asleep (bar s)" "users_ok n s" "in_step n s" "log_ok n s" "run_ok n s"
    using ok by (simp_all add: client_ok_def)
  have "upcs s t \<noteq> U_none" "upcs s t \<noteq> U_done" using U_test by auto
  note run = run_ok_user [OF o(6) t(1) this]
  define q where "q = (if SYNC_ROUNS = c then U_done else U_sleep (c + 1))"
  have s': "s' = s\<lparr>lines := lines s @ [(t, c)], upcs := (upcs s)(t := q)\<rparr>"
    using U_test step w by (simp add: pfunction_def q_def)
  have q: "upc_ok q" "q \<notin> range U_wait" "rounds q = c" "printed q = Suc c" "pcs (bar s) t = Idle"
    using users_okD(1,2) [OF o(3) t(1)] U_test by (auto simp: q_def)
  then have "users_ok n s'"
    by (intro users_ok_update [OF o(3) t(1), where q = Idle and p = q]) (simp_all add: s' fun_upd_idem)
  moreover have "in_step n s'"
    using q U_test by (intro in_step_update [OF o(4) t(1), where p = q]) (simp_all add: s')
  moreover have "log_ok n s'"
  proof -
    have "(t, c) \<notin> set (lines s)" using o(5) U_test t(1) by (simp add: log_ok_def)
    moreover have "(u, k) \<in> set (lines s') \<longleftrightarrow> k < printed (upcs s' u)" if "u \<in> users n" for u k
      using o(5) U_test t(1) q(4) that by (cases "u = t") (auto simp: log_ok_def s' less_Suc_eq)
    ultimately show ?thesis using o(5) unfolding log_ok_def by (simp add: s')
  qed
  moreover have "run_ok n s'" by (rule run [where p = q]) (simp_all add: s')
  ultimately show ?thesis using o(1,2) by (simp add: client_ok_def s')
qed

lemma user_calls:
  assumes ok: "client_ok n s" and t: "t \<in> users n" "a = Run t \<or> a = Signal t"
    and step: "pfunction act a s = Some s'" and U_sleep: "upcs s t = U_sleep c"
  shows "client_ok n s'"
proof -
  have w: "who a = t" using t(2) by auto
  have o: "binv n (bar s)" "queued_asleep (bar s)" "users_ok n s" "in_step n s" "log_ok n s" "run_ok n s"
    using ok by (simp_all add: client_ok_def)
  have "upcs s t \<noteq> U_none" "upcs s t \<noteq> U_done" using U_sleep by auto
  note run = run_ok_user [OF o(6) t(1) this]
  from U_sleep step w obtain b where b: "act (Call_wait t) (bar s) = Some b"
    and s': "s' = s\<lparr>bar := b, upcs := (upcs s)(t := U_wait c)\<rparr>" by (auto simp: pfunction_def)
  have idle: "pcs (bar s) t = Idle" "\<not> closing (pcs (bar s) t)"
    using users_okD [OF o(3) t(1)] U_sleep by auto
  from act_effect [OF o(1) b]
  have e: "pcs b = (pcs (bar s))(t := At_lock Loop1) \<and> same_round (bar s) b \<and> \<not> freed b"
    by cases (use idle in \<open>auto simp: in_members\<close>)
  have "users_ok n s'"
    using users_okD [OF o(3) t(1)] U_sleep e
    by (intro users_ok_update [OF o(3) t(1), where q = "At_lock Loop1" and p = "U_wait c"]) (simp_all add: s')
  moreover have "in_step n s'"
    using U_sleep e
    by (intro in_step_update [OF o(4) t(1), where p = "U_wait c"]) (simp_all add: s' same_round_def)
  moreover have "log_ok n s'" 
    using U_sleep by (intro log_ok_user [OF o(5) t(1), where p = "U_wait c"]) (simp_all add: s')
  moreover have "\<not> freed (bar s)"
    using o(6) U_sleep t(1) by (auto simp: run_ok_def all_done_def split: rpc.splits)
  moreover from this have "run_ok n s'" using e t(1) by (intro run [where p = "U_wait c"]) (simp_all add: s')
  ultimately show ?thesis
    using act_inv [OF o(1) b] act_queue [OF o(2) b] by (simp add: client_ok_def s')
qed

lemma user_step:
  assumes ok: "client_ok n s" and t: "t \<in> users n" "a = Run t \<or> a = Signal t"
    and step: "pfunction act a s = Some s'"
  shows "client_ok n s'"
proof -
  have w: "who a = t" using t(2) by auto
  have o: "binv n (bar s)" "queued_asleep (bar s)" "users_ok n s" "in_step n s" "log_ok n s" "run_ok n s"
    using ok by (simp_all add: client_ok_def)
  have "upcs s t \<noteq> U_none" "upcs s t \<noteq> U_done" using step w by (auto simp: pfunction_def)
  note run = run_ok_user [OF o(6) t(1) this]
  show ?thesis
  proof (cases "upcs s t")
    case (U_test c)
    with user_prints [OF ok t step] show ?thesis .
  next
    case (U_sleep c)
    with user_calls [OF ok t step] show ?thesis .
  next
    case (U_wait c)
    with step w obtain b where b: "act a (bar s) = Some b"
      and s': "s' = s\<lparr>bar := b, upcs := (if pcs b t = Idle then (upcs s)(t := U_test c) else upcs s)\<rparr>"
      by (auto simp: pfunction_def)
    have up: "upcs s' = (upcs s)(t := if pcs b t = Idle then U_test c else U_wait c)"
      using U_wait by (simp add: s' fun_upd_idem)
    have "log_ok n s'" using U_wait by (intro log_ok_user [OF o(5) t(1) up]) (simp_all add: s')
    moreover note ws = wait_step [OF ok t(1) w t(2) U_wait b s']
    moreover have "run_ok n s'" using ws up by (intro run) (simp_all add: s')
    ultimately show ?thesis
      using act_inv [OF o(1) b] act_queue [OF o(2) b] by (simp add: client_ok_def s')
  qed (use step w in \<open>auto simp: pfunction_def\<close>)
qed

lemma boss_drives:
  assumes ok: "client_ok n s" and b: "act a (bar s) = Some b" "who a = runner"
      "run_pc s = R_destroy \<and> a = Call_destroy runner \<or> run_pc s = R_closing \<and> a = Run runner"
    and s': "s' = s\<lparr>bar := b, run_pc := (if pcs b runner = Idle then R_end else R_closing)\<rparr>"
  shows "client_ok n s'"
proof -
  have o: "binv n (bar s)" "queued_asleep (bar s)" "users_ok n s" "in_step n s" "log_ok n s" "run_ok n s"
    using ok by (simp_all add: client_ok_def)
  have nu: "runner \<notin> users n" by simp
  have frame: "users_ok n s'" "in_step n s'" "log_ok n s'"
    if "pcs (bar s') = (pcs (bar s))(runner := q)" "q = Idle \<or> closing q" "same_round (bar s) (bar s')"
      "upcs s' = upcs s" "lines s' = lines s" for q
    using o(3-5) that nu by (auto simp: users_ok_def in_step_def log_ok_def same_round_def)
  have c: "run_pc s = R_closing \<Longrightarrow> closing (pcs (bar s) runner)" "run_pc s = R_destroy \<Longrightarrow> pcs (bar s) runner = Idle"
    "all_done n s" "closing (pcs (bar s) runner) \<Longrightarrow> runner \<notin> members (bar s)" "\<not> closing Idle"
    using o(6) b(3) closing_not_in_round by (auto simp: run_ok_def in_members)
  from act_effect [OF o(1) b(1)]
  have "run_ok n s' \<and> (\<exists>q. pcs b = (pcs (bar s))(runner := q) \<and> (q = Idle \<or> closing q)) \<and> same_round (bar s) b"
    by cases (use c b s' in \<open>auto simp: run_ok_def all_done_def in_members\<close>)
  then obtain q where "run_ok n s'" "pcs b = (pcs (bar s))(runner := q)" "q = Idle \<or> closing q"
    "same_round (bar s) b" by blast
  with frame [of q] act_inv [OF o(1) b(1)] act_queue [OF o(2) b(1)] show ?thesis
    by (simp add: client_ok_def s')
qed

lemma boss_step:
  assumes ok: "client_ok n s" and step: "run_barriers act n cret s = Some s'"
  shows "client_ok n s'"
proof -
  have o: "binv n (bar s)" "queued_asleep (bar s)" "users_ok n s" "in_step n s" "log_ok n s" "run_ok n s"
    using ok by (simp_all add: client_ok_def)
  have same: "users_ok n s'" "in_step n s'" "log_ok n s'" "binv n (bar s')" "queued_asleep (bar s')"
    if "bar s' = bar s" "upcs s' = upcs s" "lines s' = lines s"
    using o(1-5) that by (auto simp: users_ok_def in_step_def log_ok_def)
  show ?thesis
  proof (cases "run_pc s")
    case (R_create i)
    show ?thesis
    proof (cases "i < n \<and> cret = 0")
      case True
      then have s': "s' = s\<lparr>run_pc := R_create (i + 1), upcs := (upcs s)(int i := U_test 0)\<rparr>"
        and i: "int i \<in> users n" "upcs s (int i) = U_none"
        using R_create step o(6) by (auto simp: run_barriers_def run_ok_def)
      have "users_ok n s'"
        using users_okD [OF o(3) i(1)] i(2)
        by (intro users_ok_update [OF o(3) i(1), where q = Idle]) (auto simp: s')
      moreover have "in_step n s'" using i by (intro in_step_update [OF o(4) i(1)]) (auto simp: s')
      moreover have "log_ok n s'" using o(5) i unfolding log_ok_def s' by simp
      moreover have "run_ok n s'" using o(6) R_create by (auto simp: run_ok_def s')
      ultimately show ?thesis using o(1,2) by (simp add: client_ok_def s')
    next
      case False
      then show ?thesis
        using step R_create same o(6)
        by (auto simp: run_barriers_def client_ok_def run_ok_def split: if_splits)
    qed
  next
    case (R_join i)
    then have "upcs s t = U_done" if "t \<in> users n" "t < 1 + int i" "upcs s (int i) = U_done" for t
      using that o(6) by (cases "t = int i") (auto simp: run_ok_def)
    with R_join show ?thesis
      using step same o(6)
      by (auto simp: run_barriers_def client_ok_def run_ok_def all_done_def split: if_splits upc.splits)
  next
    case R_destroy
    then obtain b where b: "act (Call_destroy runner) (bar s) = Some b" "s' = s\<lparr>bar := b, run_pc := R_closing\<rparr>"
      using step by (auto simp: run_barriers_def)
    moreover have "pcs b runner \<noteq> Idle"
      using act_effect [OF o(1) b(1)] R_destroy o(6)
      by cases (auto simp: run_ok_def in_members)
    ultimately show ?thesis
      using R_destroy by (intro boss_drives [OF ok, where a = "Call_destroy runner" and b = b]) simp_all
  next
    case R_closing
    then obtain b where b: "act (Run runner) (bar s) = Some b"
      "s' = s\<lparr>bar := b, run_pc := (if pcs b runner = Idle then R_end else R_closing)\<rparr>"
      using step by (auto simp: run_barriers_def)
    then show ?thesis using R_closing by (intro boss_drives [OF ok, where a = "Run runner" and b = b]) simp_all
  qed (use step in \<open>auto simp: run_barriers_def\<close>)
qed

lemma run_step: "client_ok n s \<Longrightarrow> test_run env act n s s' \<Longrightarrow> client_ok n s'"
  by (erule test_run.cases) (auto intro: user_step boss_step)

lemma reach_client_ok:
  "(test_run env act n)\<^sup>*\<^sup>* s s' \<Longrightarrow> client_ok n s \<Longrightarrow> client_ok n s'"
  by (induction rule: rtranclp_induct) (auto intro: run_step)

end

interpretation driver: round_service bact n for n
  by unfold_locales (auto intro: bact_binv bact_effect bact_queue)

interpretation closed_window: round_service bact_atomic n for n
proof
  show "queued_asleep s'" if "queued_asleep s" "bact_atomic a s = Some s'" for s s' a
    using that(2) by (cases rule: bact_atomic_cases) (use that(1) bact_queue in blast)+
qed (auto intro: bact_atomic_binv bact_atomic_effect)

section \<open>From the start\<close>

lemma count_of_nat:
  assumes "0 < n" and "n < 2 ^ 31"
  shows "bstart (of_nat n) (fresh_bsys (of_nat n))" and "bcount (of_nat n) = n"
proof -
  have "sint (of_nat n :: s32) = int n"
    using assms by (simp add: signed_of_nat signed_take_bit_int_eq_self_iff)
  with assms show "bstart (of_nat n) (fresh_bsys (of_nat n))" and "bcount (of_nat n) = n"
    by (simp_all add: bstart_def bcount_def)
qed

lemma start_ok:
  assumes "0 < n" and "n < 2 ^ 31"
  shows "client_ok n (run_start n)"
proof -
  have "binv n (fresh_bsys (of_nat n))"
    using bstart_inv(1) [OF count_of_nat(1) [OF assms]] count_of_nat(2) [OF assms] by simp
  then show ?thesis
    by (auto simp: client_ok_def run_start_def users_ok_def in_step_def log_ok_def run_ok_def
        queued_asleep_def fresh_bsys_def init_barrier_struct_def)
qed

text \<open>
  Two users are never more than a round apart, and one that is a round behind is a member
  of the round that opens: it has arrived and its call has yet to return.
\<close>

lemma apart:
  assumes "client_ok n s" and "t \<in> users n" and "u \<in> users n" and "rounds (upcs s u) < rounds (upcs s t)"
  shows "rounds (upcs s t) = Suc (rounds (upcs s u)) \<and> u \<in> members (bar s)"
proof -
  have "in_step n s" using assms(1) by (simp add: client_ok_def)
  then obtain r where "\<forall>t \<in> users n. rounds (upcs s t) = (if draining (bar s) \<and> t \<notin> members (bar s) then Suc r else r)"
    by (auto simp: in_step_def)
  with assms(2-4) show ?thesis by (auto split: if_splits)
qed

lemma printed_in_step:
  assumes ok: "client_ok n s" and t: "t \<in> users n" "u \<in> users n" and k: "Suc k < printed (upcs s t)"
  shows "k < printed (upcs s u)"
proof -
  have u: "users_ok n s" using ok by (simp add: client_ok_def)
  note d = users_okD [OF u t(1)] users_okD [OF u t(2)]
  have r: "k < rounds (upcs s t)" using k d(1) by (cases "upcs s t") auto
  show ?thesis
  proof (cases "rounds (upcs s t) \<le> rounds (upcs s u)")
    case True
    with r d(4) show ?thesis by (cases "upcs s u") auto
  next
    case False
    with apart [OF ok t] have a: "rounds (upcs s t) = Suc (rounds (upcs s u))" "u \<in> members (bar s)" by auto
    from a(2) d(5) have "upcs s u \<in> range U_wait" by (auto simp: in_members)
    with a(1) r d(4) show ?thesis by auto
  qed
qed

text \<open>When everybody is done nobody is left in the barrier.\<close>

lemma all_done_idle:
  assumes ok: "client_ok n s" and "all_done n s"
  shows "members (bar s) = {}" and "\<not> draining (bar s)"
    and "pcs (bar s) runner = Idle \<Longrightarrow> pcs (bar s) t = Idle"
    and "pcs (bar s) runner = Idle \<Longrightarrow> waitQ (bs (bar s)) = []"
proof -
  have o: "binv n (bar s)" "queued_asleep (bar s)" "users_ok n s" using ok by (simp_all add: client_ok_def)
  have idle: "pcs (bar s) u = Idle" if "u \<in> users n" for u
    using users_okD(2) [OF o(3) that] assms(2) that by (auto simp: all_done_def)
  then show mem: "members (bar s) = {}"
    using members_users [OF o(3)] by (auto simp: in_members)
  then show "\<not> draining (bar s)" using o(1) by (auto simp: binv_def total_ok_def split: if_splits)
  show all: "pcs (bar s) t = Idle" if "pcs (bar s) runner = Idle" for t
    using idle that o(3) by (cases "t \<in> users n") (auto simp: users_ok_def)
  show "waitQ (bs (bar s)) = []" if "pcs (bar s) runner = Idle"
  proof (rule ccontr)
    assume "waitQ (bs (bar s)) \<noteq> []"
    then obtain u where "u \<in> set (waitQ (bs (bar s)))" by (meson last_in_set)
    with o(2) all [OF that, of u] show False by (auto simp: queued_asleep_def)
  qed
qed

section \<open>Properties\<close>

text \<open>
  (C36) The threads of the test program stay in step under every interleaving, with signals
  and failing \<open>pthread_create\<close> calls allowed: nobody prints round \<open>k + 1\<close> before everybody
  has printed round \<open>k\<close>, no line is printed twice, and the numbers of rounds any two
  threads have completed differ by at most one, the one behind having arrived already.
\<close>

theorem barrier_test_in_step:
  assumes "0 < n" and "n < 2 ^ 31" and "(test_run env bact n)\<^sup>*\<^sup>* (run_start n) s"
    and "t \<in> users n" and "u \<in> users n"
  shows "((t, Suc k) \<in> set (lines s) \<longrightarrow> (u, k) \<in> set (lines s)) \<and> distinct (lines s)
    \<and> rounds (upcs s t) \<le> Suc (rounds (upcs s u))
    \<and> (rounds (upcs s u) < rounds (upcs s t) \<longrightarrow> u \<in> members (bar s))"
proof -
  have ok: "client_ok n s" using driver.reach_client_ok [OF assms(3) start_ok [OF assms(1,2)]] .
  then have l: "log_ok n s" by (simp add: client_ok_def)
  have "rounds (upcs s t) \<le> Suc (rounds (upcs s u))"
    using apart [OF ok assms(4,5)] by (cases "rounds (upcs s u) < rounds (upcs s t)") auto
  with l printed_in_step [OF ok assms(4,5)] apart [OF ok assms(4,5)] assms(4,5) show ?thesis
    by (auto simp: log_ok_def)
qed

text \<open>
  The program destroys its barrier at the right moment: when \<open>run_barriers\<close> comes to
  \<open>barrier_destroy\<close>, every thread has printed its 101 lines and left the driver, the queue is
  empty and no round is open, and the call frees the barrier in three steps of its own,
  without sleeping.
\<close>

lemma barrier_test_destroys_unused:
  assumes "0 < n" and "n < 2 ^ 31" and "(test_run env bact n)\<^sup>*\<^sup>* (run_start n) s"
    and "run_pc s = R_destroy"
  shows "(\<forall>t. pcs (bar s) t = Idle) \<and> waitQ (bs (bar s)) = [] \<and> b_total (bs (bar s)) = BARRIER_FLAG
    \<and> {l \<in> set (lines s). fst l \<in> users n} = users n \<times> {0..100}
    \<and> (\<exists>s'. (test_run env bact n ^^ 3) s s' \<and> run_pc s' = R_end \<and> freed (bar s'))"
proof -
  have ok: "client_ok n s" using driver.reach_client_ok [OF assms(3) start_ok [OF assms(1,2)]] .
  then have r: "all_done n s" "pcs (bar s) runner = Idle" "\<not> freed (bar s)" and l: "log_ok n s"
    and inv: "binv n (bar s)"
    using assms(4) by (simp_all add: client_ok_def run_ok_def)
  note idle = all_done_idle [OF ok r(1)]
  have "b_total (bs (bar s)) = BARRIER_FLAG"
    using inv idle(1,2) by (auto simp: binv_def total_ok_def split: if_splits)
  moreover have "{l \<in> set (lines s). fst l \<in> users n} = users n \<times> {0..100}"
    using l r(1) by (auto simp: log_ok_def all_done_def)
  moreover have "\<exists>s'. (test_run env bact n ^^ 3) s s' \<and> run_pc s' = R_end \<and> freed (bar s')"
  proof -
    let ?b1 = "goto runner (At_lock Drain) (bar s)"
    let ?b2 = "goto runner Recycling ?b1"
    let ?b3 = "goto runner Idle (?b2\<lparr>freed := True\<rparr>)"
    have "run_barriers bact n 0 s = Some (s\<lparr>bar := ?b1, run_pc := R_closing\<rparr>)"
      using assms(4) r by (simp add: run_barriers_def bact_def)
    moreover have "run_barriers bact n 0 (s\<lparr>bar := ?b1, run_pc := R_closing\<rparr>) = Some (s\<lparr>bar := ?b2, run_pc := R_closing\<rparr>)"
      using r idle(2) by (simp add: run_barriers_def bact_def run_lock_def run_drain_def destroy_section_def)
    moreover have "run_barriers bact n 0 (s\<lparr>bar := ?b2, run_pc := R_closing\<rparr>) = Some (s\<lparr>bar := ?b3, run_pc := R_end\<rparr>)"
      using r by (simp add: run_barriers_def bact_def)
    ultimately have "test_run env bact n s (s\<lparr>bar := ?b1, run_pc := R_closing\<rparr>)"
      "test_run env bact n (s\<lparr>bar := ?b1, run_pc := R_closing\<rparr>) (s\<lparr>bar := ?b2, run_pc := R_closing\<rparr>)"
      "test_run env bact n (s\<lparr>bar := ?b2, run_pc := R_closing\<rparr>) (s\<lparr>bar := ?b3, run_pc := R_end\<rparr>)"
      by (auto intro: test_run.boss [where cret = 0])
    then have "(test_run env bact n ^^ 3) s (s\<lparr>bar := ?b3, run_pc := R_end\<rparr>)"
      by (auto simp: numeral_3_eq_3)
    then show ?thesis by (intro exI [of _ "s\<lparr>bar := ?b3, run_pc := R_end\<rparr>"]) simp
  qed
  ultimately show ?thesis using idle(3,4) r(2) by blast
qed

section \<open>Instances\<close>

text \<open>A single thread, which is the last of every round.\<close>

definition solo :: "nat \<Rightarrow> btest" where
  "solo c = (run_start 1)\<lparr>bar := (fresh_bsys 1)\<lparr>arrivals := c, departures := c\<rparr>,
     upcs := (\<lambda>_. U_none)(0 := U_test c), run_pc := R_join 0, lines := map (Pair 0) [0..<c]\<rparr>"

lemma solo_round:
  assumes "c < 100"
  shows "(test_run env bact 1)\<^sup>*\<^sup>* (solo c) (solo (Suc c))"
proof -
  let ?s1 = "(solo c)\<lparr>lines := map (Pair 0) [0..<Suc c], upcs := (\<lambda>_. U_none)(0 := U_sleep (Suc c))\<rparr>"
  let ?s2 = "?s1\<lparr>bar := goto 0 (At_lock Loop1) (bar (solo c)), upcs := (\<lambda>_. U_none)(0 := U_wait (Suc c))\<rparr>"
  have "pfunction bact (Run 0) (solo c) = Some ?s1"
    using assms by (simp add: pfunction_def solo_def)
  moreover have "pfunction bact (Run 0) ?s1 = Some ?s2"
    by (simp add: pfunction_def solo_def bact_def fresh_bsys_def)
  moreover have "pfunction bact (Run 0) ?s2 = Some (solo (Suc c))"
    by (simp add: pfunction_def solo_def run_start_def bact_def fresh_bsys_def goto_def run_lock_def
        run_loop1_def wait_section1_def init_barrier_struct_def wake_up_here_def BARRIER_FLAG_def fun_eq_iff)
  ultimately have "test_run env bact 1 (solo c) ?s1" "test_run env bact 1 ?s1 ?s2"
    "test_run env bact 1 ?s2 (solo (Suc c))"
    by (auto intro!: test_run.user [where t = 0 and a = "Run 0"])
  then show ?thesis by (meson converse_rtranclp_into_rtranclp rtranclp.rtrancl_refl)
qed

lemma solo_start: "(test_run env bact 1)\<^sup>*\<^sup>* (run_start 1) (solo 0)"
proof -
  let ?s = "(run_start 1)\<lparr>run_pc := R_create 1, upcs := (\<lambda>_. U_none)(0 := U_test 0)\<rparr>"
  have "run_barriers bact 1 0 (run_start 1) = Some ?s" "run_barriers bact 1 0 ?s = Some (solo 0)"
    by (simp_all add: run_barriers_def run_start_def solo_def fresh_bsys_def)
  then have "test_run env bact 1 (run_start 1) ?s" "test_run env bact 1 ?s (solo 0)"
    by (auto intro!: test_run.boss [where cret = 0])
  then show ?thesis by (meson converse_rtranclp_into_rtranclp rtranclp.rtrancl_refl)
qed

lemma solo_reach: "c \<le> 100 \<Longrightarrow> (test_run env bact 1)\<^sup>*\<^sup>* (run_start 1) (solo c)"
proof (induction c)
  case 0
  show ?case by (rule solo_start)
next
  case (Suc c)
  with solo_round [of c env] show ?case by simp
qed

theorem barrier_test_in_step_witness:
  "(0, Suc 0) \<in> set (lines (solo 2)) \<and> (0, 0) \<in> set (lines (solo 2)) \<and> distinct (lines (solo 2))"
proof -
  have "(0, Suc 0) \<in> set (lines (solo 2))" by (simp add: solo_def)
  with barrier_test_in_step [OF _ _ solo_reach [of 2 "\<lparr>signals = True, create_fails = True\<rparr>"], of 0 0 0]
  show ?thesis by simp
qed

lemma barrier_test_destroys_unused_example:
  "\<exists>s s'. run_pc s = R_destroy \<and> lines s = map (Pair 0) [0..<101]
    \<and> (test_run \<lparr>signals = False, create_fails = False\<rparr> bact 1 ^^ 3) s s' \<and> freed (bar s')"
proof -
  let ?env = "\<lparr>signals = False, create_fails = False\<rparr>"
  let ?s1 = "(solo 100)\<lparr>lines := map (Pair 0) [0..<101], upcs := (\<lambda>_. U_none)(0 := U_done)\<rparr>"
  have "pfunction bact (Run 0) (solo 100) = Some ?s1"
    by (simp add: pfunction_def solo_def upt_rec [of 0 101] numeral_eq_Suc)
  then have "test_run ?env bact 1 (solo 100) ?s1"
    by (intro test_run.user [where t = 0 and a = "Run 0"]) simp_all
  moreover have "run_barriers bact 1 0 ?s1 = Some (?s1\<lparr>run_pc := R_join 1\<rparr>)"
    "run_barriers bact 1 0 (?s1\<lparr>run_pc := R_join 1\<rparr>) = Some (?s1\<lparr>run_pc := R_destroy\<rparr>)"
    by (simp_all add: run_barriers_def solo_def)
  then have "test_run ?env bact 1 ?s1 (?s1\<lparr>run_pc := R_join 1\<rparr>)"
    "test_run ?env bact 1 (?s1\<lparr>run_pc := R_join 1\<rparr>) (?s1\<lparr>run_pc := R_destroy\<rparr>)"
    by (auto intro!: test_run.boss [where cret = 0])
  ultimately have "(test_run ?env bact 1)\<^sup>*\<^sup>* (run_start 1) (?s1\<lparr>run_pc := R_destroy\<rparr>)"
    using solo_reach [of 100 ?env] by simp
  from barrier_test_destroys_unused [OF _ _ this] obtain s' where
    "(test_run ?env bact 1 ^^ 3) (?s1\<lparr>run_pc := R_destroy\<rparr>) s'" "freed (bar s')" by auto
  then show ?thesis by (intro exI [of _ "?s1\<lparr>run_pc := R_destroy\<rparr>"] exI [of _ s']) simp
qed

end
