(* ===== verification/Barrier_Test_Live.thy ===== *)
theory Barrier_Test_Live
  imports Barrier_Test
begin

text \<open>
  Whether the program of \<open>Barrier_Test\<close> comes to the end of its rounds. Without the window before
  \<open>prepare_to_wait\<close> it does, under every schedule and within a number of steps that is
  linear in the number of threads; from this it follows for the driver as it is, under the schedules in which
  no thread is interrupted in that window. For the driver as it is a schedule is also given after which
  nobody can go on.
\<close>

section \<open>Steps of the driver without the window\<close>

text \<open>
  The effect of a step of thread \<open>t\<close>, now with the queue: a thread that sleeps is queued,
  and both ends of a round empty the queue.
\<close>

inductive qeffect :: "nat \<Rightarrow> pid_t \<Rightarrow> bsys \<Rightarrow> bsys \<Rightarrow> bool" for n where
  q_sleeps: "pcs s t = At_lock r \<Longrightarrow> draining s \<longleftrightarrow> r \<noteq> Loop2 \<Longrightarrow> pcs s' = (pcs s)(t := Asleep r) \<Longrightarrow>
    set (waitQ (bs s')) = insert t (set (waitQ (bs s))) \<Longrightarrow> same_round s s' \<Longrightarrow> \<not> freed s' \<Longrightarrow> qeffect n t s s'"
| q_arrives: "pcs s t = At_lock Loop1 \<Longrightarrow> \<not> draining s \<Longrightarrow> pcs s' = (pcs s)(t := Asleep Loop2) \<Longrightarrow>
    set (waitQ (bs s')) = insert t (set (waitQ (bs s))) \<Longrightarrow> members s' = insert t (members s) \<Longrightarrow>
    \<not> draining s' \<Longrightarrow> \<not> freed s' \<Longrightarrow> qeffect n t s s'"
| q_last: "pcs s t = At_lock Loop1 \<Longrightarrow> \<not> draining s \<Longrightarrow> Suc (card (members s)) = n \<Longrightarrow>
    pcs s' = (pcs s)(t := Idle) \<Longrightarrow> waitQ (bs s') = [] \<Longrightarrow> members s' = members s \<Longrightarrow>
    draining s' \<longleftrightarrow> members s \<noteq> {} \<Longrightarrow> \<not> freed s' \<Longrightarrow> qeffect n t s s'"
| q_leaves: "pcs s t = At_lock Loop2 \<Longrightarrow> draining s \<Longrightarrow> pcs s' = (pcs s)(t := Idle) \<Longrightarrow>
    members s' = members s - {t} \<Longrightarrow> draining s' \<longleftrightarrow> members s' \<noteq> {} \<Longrightarrow>
    waitQ (bs s') = (if members s' = {} then [] else waitQ (bs s)) \<Longrightarrow> \<not> freed s' \<Longrightarrow> qeffect n t s s'"
| q_wakes: "pcs s t = Asleep r \<Longrightarrow> t \<notin> set (waitQ (bs s)) \<Longrightarrow> pcs s' = (pcs s)(t := At_lock r) \<Longrightarrow>
    waitQ (bs s') = waitQ (bs s) \<Longrightarrow> same_round s s' \<Longrightarrow> \<not> freed s' \<Longrightarrow> qeffect n t s s'"
| q_drained: "pcs s t = At_lock Drain \<Longrightarrow> \<not> draining s \<Longrightarrow> pcs s' = (pcs s)(t := Recycling) \<Longrightarrow>
    waitQ (bs s') = waitQ (bs s) \<Longrightarrow> same_round s s' \<Longrightarrow> \<not> freed s' \<Longrightarrow> qeffect n t s s'"
| q_frees: "pcs s t = Recycling \<Longrightarrow> pcs s' = (pcs s)(t := Idle) \<Longrightarrow> waitQ (bs s') = waitQ (bs s) \<Longrightarrow>
    same_round s s' \<Longrightarrow> freed s' \<Longrightarrow> qeffect n t s s'"

lemma set_enqueue [simp]: "set (waitQ (sleep_here_enqueue t b)) = insert t (set (waitQ b))"
  by (auto simp: sleep_here_enqueue_def)

lemma waitQ_finish: "t \<notin> set (waitQ b) \<Longrightarrow> waitQ (sleep_here_finish t b) = waitQ b"
  by (auto simp: sleep_here_finish_def filter_id_conv)

text \<open>A critical section that ends in \<open>At_prepare\<close> is followed by the queueing.\<close>

lemma atomic_prepare:
  assumes "bact (Run t) s = Some (goto t (At_prepare r) s1)" and "bact_atomic (Run t) s = Some s'" and "\<not> freed s1"
  shows "s' = goto t (Asleep r) (s1\<lparr>bs := sleep_here_enqueue t (bs s1)\<rparr>)"
  using assms by (simp add: bact_atomic_def bact_def goto_def split: if_splits)

lemma atomic_other:
  assumes "bact (Run t) s = Some u" and "\<And>r. pcs u t \<noteq> At_prepare r" and "bact_atomic (Run t) s = Some s'"
  shows "s' = u"
  using assms by (cases "pcs u t") (auto simp: bact_atomic_def)

lemma atomic_loop1_effect:
  assumes inv: "binv n s" and pc: "pcs s t = At_lock Loop1" and f: "\<not> freed s"
    and a: "bact_atomic (Run t) s = Some s'"
  shows "qeffect n t s s'"
proof -
  let ?m = "card (members s)"
  have ok: "total_ok n ?m (b_total (bs s))" and n: "n < 2 ^ 63" and c: "unat (b_count (bs s)) = n"
    and fin: "finite (members s)" using inv by (auto simp: binv_def)
  note sec = section1_total [OF ok c n]
  have t: "members s - {t} = members s" using pc by (auto simp: in_members)
  have run: "bact (Run t) s = Some (run_loop1 t s)" using pc f by (simp add: bact_def run_lock_def)
  consider "draining s" | "\<not> draining s" "Suc ?m = n" | "\<not> draining s" "Suc ?m < n"
    using total_ok_less [OF ok] by linarith
  then show ?thesis
  proof cases
    case 1
    then have s': "s' = goto t (Asleep Loop1) (s\<lparr>bs := sleep_here_enqueue t (bs s)\<rparr>)"
      using atomic_prepare [OF _ a, of Loop1 s] run f by (simp add: run_loop1_def sec)
    show ?thesis
      using 1 pc f t by (intro qeffect.q_sleeps [where r = Loop1]) (auto simp: s' same_round_def members_goto)
  next
    case 2
    then have "s' = run_loop1 t s" by (intro atomic_other [OF run _ a]) (simp add: run_loop1_def sec)
    with 2 show ?thesis
      using pc f t fin total_ok_last(2) [OF 2(2) n]
      by (intro qeffect.q_last) (auto simp: run_loop1_def sec members_goto)
  next
    case 3
    let ?s = "s\<lparr>bs := (bs s)\<lparr>b_total := of_nat (Suc ?m)\<rparr>, arrivals := arrivals s + 1\<rparr>"
    have s': "s' = goto t (Asleep Loop2) (?s\<lparr>bs := sleep_here_enqueue t (bs ?s)\<rparr>)"
      using 3 atomic_prepare [OF _ a, of Loop2 ?s] run f by (simp add: run_loop1_def sec)
    show ?thesis
      using 3 pc f total_ok_arrive(2) [OF 3(2) n]
      by (intro qeffect.q_arrives) (auto simp: s' members_goto simp del: of_nat_Suc)
  qed
qed

lemma atomic_loop2_effect:
  assumes inv: "binv n s" and pc: "pcs s t = At_lock Loop2" and f: "\<not> freed s"
    and a: "bact_atomic (Run t) s = Some s'"
  shows "qeffect n t s s'"
proof -
  let ?m = "card (members s)"
  have t: "t \<in> members s" "insert t (members s) = members s" using pc by (auto simp: in_members)
  have ok: "total_ok n ?m (b_total (bs s))" and fin: "finite (members s)" and m0: "0 < ?m"
    using inv t by (auto simp: binv_def card_gt_0_iff)
  note sec = section2_total [OF ok m0]
  have run: "bact (Run t) s = Some (run_loop2 t s)" using pc f by (simp add: bact_def run_lock_def)
  show ?thesis
  proof (cases "draining s")
    case False
    then have s': "s' = goto t (Asleep Loop2) (s\<lparr>bs := sleep_here_enqueue t (bs s)\<rparr>)"
      using atomic_prepare [OF _ a, of Loop2 s] run f by (simp add: run_loop2_def sec)
    show ?thesis
      using False pc f t by (intro qeffect.q_sleeps [where r = Loop2]) (auto simp: s' same_round_def members_goto)
  next
    case True
    then have s': "s' = run_loop2 t s" by (intro atomic_other [OF run _ a]) (simp add: run_loop2_def sec)
    have m: "members (run_loop2 t s) = members s - {t}" using True by (simp add: run_loop2_def sec members_goto)
    have one: "members s - {t} = {} \<longleftrightarrow> ?m = 1" using t(1) fin by (auto simp: card_1_singleton_iff)
    show ?thesis
      unfolding s' using True f pc total_ok_leave(2) [OF ok True]
      by (intro qeffect.q_leaves) (simp_all only: m one, auto simp: run_loop2_def sec)
  qed
qed

lemma atomic_qeffect:
  assumes inv: "binv n s" and q: "queue_ok s" and a: "bact_atomic (Run t) s = Some s'"
  shows "qeffect n t s s'"
proof -
  have f: "\<not> freed s" using a by (auto simp: bact_atomic_def bact_def split: if_splits)
  have np: "\<And>r. pcs s t \<noteq> At_prepare r" using q by (simp add: queue_ok_def)
  show ?thesis
  proof (cases "pcs s t")
    case (At_lock r)
    show ?thesis
    proof (cases r)
      case Drain
      have out: "t \<notin> members s" using At_lock Drain by (simp add: in_members)
      have run: "bact (Run t) s = Some (run_drain t s)" using At_lock Drain f by (simp add: bact_def run_lock_def)
      show ?thesis
      proof (cases "draining s")
        case True
        then have "s' = goto t (Asleep Drain) (s\<lparr>bs := sleep_here_enqueue t (bs s)\<rparr>)"
          using atomic_prepare [OF _ a, of Drain s] run f by (simp add: run_drain_def destroy_section_def)
        then show ?thesis
          using True At_lock Drain f out
          by (intro qeffect.q_sleeps [where r = Drain]) (auto simp: same_round_def members_goto)
      next
        case False
        then have "s' = run_drain t s"
          by (intro atomic_other [OF run _ a]) (simp add: run_drain_def destroy_section_def)
        then show ?thesis
          using False At_lock Drain f out
          by (intro qeffect.q_drained) (auto simp: run_drain_def destroy_section_def same_round_def members_goto)
      qed
    qed (use At_lock f a atomic_loop1_effect [OF inv] atomic_loop2_effect [OF inv] in auto)
  next
    case (Asleep r)
    then have nq: "t \<notin> set (waitQ (bs s))"
      and run: "bact (Run t) s = Some (goto t (At_lock r) (s\<lparr>bs := sleep_here_finish t (bs s)\<rparr>))"
      using a f by (auto simp: bact_atomic_def bact_def split: if_splits)
    from atomic_other [OF run _ a] have s': "s' = goto t (At_lock r) (s\<lparr>bs := sleep_here_finish t (bs s)\<rparr>)"
      by simp
    have "members s' = members s" using Asleep by (auto simp: s' members_goto in_members)
    then show ?thesis
      using Asleep f nq by (intro qeffect.q_wakes) (auto simp: s' same_round_def waitQ_finish)
  next
    case Recycling
    then have run: "bact (Run t) s = Some (goto t Idle (s\<lparr>freed := True\<rparr>))" using f by (simp add: bact_def)
    from atomic_other [OF run _ a] have s': "s' = goto t Idle (s\<lparr>freed := True\<rparr>)" by simp
    have "members s' = members s" using Recycling by (auto simp: s' members_goto in_members)
    then show ?thesis using Recycling by (intro qeffect.q_frees) (auto simp: s' same_round_def)
  qed (use a f np in \<open>auto simp: bact_atomic_def bact_def\<close>)
qed

section \<open>No wake-up is lost\<close>

text \<open>Whoever was taken off the queue finds what it waited for.\<close>

fun awake_at :: "bool \<Rightarrow> bool \<Rightarrow> wpc \<Rightarrow> bool" where
  "awake_at d q (At_lock r) = (r = Loop2 \<longrightarrow> d)"
| "awake_at d q (Asleep r) = (q \<or> r = Drain \<or> (r = Loop2 \<longleftrightarrow> d))"
| "awake_at d q _ = True"

definition awake_ok :: "bsys \<Rightarrow> bool" where
  "awake_ok s \<longleftrightarrow> (\<forall>t. awake_at (draining s) (t \<in> set (waitQ (bs s))) (pcs s t))"

lemma awake_okD: "awake_ok s \<Longrightarrow> awake_at (draining s) (t \<in> set (waitQ (bs s))) (pcs s t)"
  by (simp add: awake_ok_def)

lemma awake_at_member: "in_round pc \<Longrightarrow> awake_at True q pc"
  by (cases pc) auto

lemma awake_at_other: "\<not> in_round pc \<Longrightarrow> awake_at False q pc"
  by (cases pc) auto

lemma awake_at_mono: "awake_at d q pc \<Longrightarrow> (q \<Longrightarrow> q') \<Longrightarrow> awake_at d q' pc"
  by (cases pc) auto

lemma awake_ok_step:
  assumes aw: "awake_ok s" and e: "qeffect n t s s'"
    and all: "pcs s t = At_lock Loop1 \<Longrightarrow> Suc (card (members s)) = n \<Longrightarrow>
      \<forall>u. u \<noteq> t \<longrightarrow> in_round (pcs s u) \<or> awake_at True False (pcs s u) \<and> awake_at False False (pcs s u)"
    and fin: "finite (members s)"
  shows "awake_ok s'"
proof -
  have other: "awake_at (draining s') (u \<in> set (waitQ (bs s'))) (pcs s u)" if u: "u \<noteq> t" for u
    using e
  proof cases
    case q_last
    show ?thesis
    proof (cases "in_round (pcs s u)")
      case True
      then have "members s \<noteq> {}" by (auto simp: members_def)
      with True q_last show ?thesis by (simp add: awake_at_member)
    next
      case False
      with all [OF q_last(1,3)] u q_last show ?thesis by (cases "draining s'") auto
    qed
  next
    case q_leaves
    have in_m: "u \<in> members s' \<longleftrightarrow> in_round (pcs s u)" using u q_leaves(4) by (auto simp: in_members)
    show ?thesis
    proof (cases "members s' = {}")
      case True
      with q_leaves in_m show ?thesis by (simp add: awake_at_other)
    next
      case False
      with q_leaves awake_okD [OF aw, of u] show ?thesis by simp
    qed
  qed (use awake_okD [OF aw, of u] u in \<open>auto simp: same_round_def elim: awake_at_mono\<close>)
  have "awake_at (draining s') (t \<in> set (waitQ (bs s'))) (pcs s' t)"
    using e by cases (use awake_okD [OF aw, of t] in \<open>auto simp: same_round_def\<close>)
  moreover have "pcs s' u = pcs s u" if "u \<noteq> t" for u using e that by cases simp_all
  ultimately show ?thesis using other unfolding awake_ok_def by metis
qed

text \<open>All threads are started unless one cannot be created.\<close>

definition started :: "nat \<Rightarrow> btest \<Rightarrow> bool" where
  "started n s \<longleftrightarrow>
    (case run_pc s of
       R_create i \<Rightarrow> i \<le> n \<and> (\<forall>t \<in> users n. t < int i \<longrightarrow> upcs s t \<noteq> U_none)
     | R_join i \<Rightarrow> i \<le> n \<and> (\<forall>t \<in> users n. upcs s t \<noteq> U_none)
     | R_undefined \<Rightarrow> False
     | _ \<Rightarrow> \<forall>t \<in> users n. upcs s t \<noteq> U_none)"

definition live_ok :: "nat \<Rightarrow> btest \<Rightarrow> bool" where
  "live_ok n s \<longleftrightarrow> client_ok n s \<and> queue_ok (bar s) \<and> awake_ok (bar s) \<and> started n s"

abbreviation calm :: circumstances where
  "calm \<equiv> \<lparr>signals = False, create_fails = False\<rparr>"

lemma started_step:
  assumes "started n s" and "test_run calm act n s s'"
  shows "started n s'"
  using assms(2)
proof cases
  case (user t a)
  then have "run_pc s' = run_pc s" "upcs s t \<noteq> U_none" "upcs s' t \<noteq> U_none" "\<And>u. u \<noteq> t \<Longrightarrow> upcs s' u = upcs s u"
    by (auto simp: pfunction_def Let_def split: upc.splits if_splits)
  then have "upcs s u \<noteq> U_none \<Longrightarrow> upcs s' u \<noteq> U_none" for u by (cases "u = t") auto
  with assms(1) \<open>run_pc s' = run_pc s\<close> show ?thesis by (auto simp: started_def split: rpc.splits)
next
  case (boss cret)
  show ?thesis
  proof (cases "run_pc s")
    case (R_create i)
    have "t < int i \<or> t = int i" if "t < 1 + int i" for t using that by linarith
    with R_create boss assms(1) show ?thesis
      by (auto simp: run_barriers_def started_def split: if_splits)
  next
    case (R_join i)
    with boss assms(1) show ?thesis
      by (auto simp: run_barriers_def started_def split: if_splits upc.splits)
  qed (use boss assms(1) in \<open>auto simp: run_barriers_def started_def split: if_splits\<close>)
qed

text \<open>Every step of the program moves one thread of the driver, or none.\<close>

lemma full_round:
  assumes "client_ok n s" and "t \<in> users n" and "Suc (card (members (bar s))) = n" and "t \<notin> members (bar s)"
  shows "u \<noteq> t \<Longrightarrow> in_round (pcs (bar s) u) \<or> pcs (bar s) u = Idle \<or> closing (pcs (bar s) u)"
proof -
  assume "u \<noteq> t"
  have us: "users_ok n s" using assms(1) by (simp add: client_ok_def)
  note all = everybody [OF assms(2) members_users [OF us] assms(4,3)]
  show ?thesis
  proof (cases "u \<in> users n")
    case True
    with all \<open>u \<noteq> t\<close> have "u \<in> members (bar s)" by blast
    then show ?thesis by (simp add: in_members)
  next
    case False
    with us show ?thesis by (auto simp: users_ok_def)
  qed
qed

lemma closing_awake: "pc = Idle \<or> closing pc \<Longrightarrow> awake_at d q pc"
  by (cases pc) auto

lemma atomic_call:
  assumes "bact_atomic (Call_wait t) b = Some b' \<and> pc = At_lock Loop1
    \<or> bact_atomic (Call_destroy t) b = Some b' \<and> pc = At_lock Drain"
  shows "b' = goto t pc b" and "pcs b t = Idle"
  using assms by (auto simp: bact_atomic_def bact_def split: if_splits)

lemma awake_ok_call:
  "awake_ok b \<Longrightarrow> pc \<in> {At_lock Loop1, At_lock Drain} \<Longrightarrow> awake_ok (goto t pc b)"
  by (auto simp: awake_ok_def)

lemma awake_run:
  assumes ok: "live_ok n s" and b: "bact_atomic (Run t) (bar s) = Some b" "t \<in> users n \<or> closing (pcs (bar s) t)"
  shows "awake_ok b"
proof -
  have o: "binv n (bar s)" "queue_ok (bar s)" "awake_ok (bar s)" "client_ok n s"
    using ok by (simp_all add: live_ok_def client_ok_def)
  show ?thesis
  proof (rule awake_ok_step [OF o(3) atomic_qeffect [OF o(1,2) b(1)]])
    assume l: "pcs (bar s) t = At_lock Loop1" "Suc (card (members (bar s))) = n"
    then have "t \<in> users n" "t \<notin> members (bar s)" using b(2) by (auto simp: in_members)
    with full_round [OF o(4) _ l(2)] closing_awake
    show "\<forall>u. u \<noteq> t \<longrightarrow> in_round (pcs (bar s) u)
      \<or> awake_at True False (pcs (bar s) u) \<and> awake_at False False (pcs (bar s) u)" by blast
  qed (use o(1) in \<open>simp add: binv_def\<close>)
qed

lemma live_step:
  assumes ok: "live_ok n s" and step: "test_run calm bact_atomic n s s'"
  shows "live_ok n s'"
proof -
  have o: "binv n (bar s)" "queue_ok (bar s)" "awake_ok (bar s)" "client_ok n s" "started n s" "run_ok n s"
    using ok by (simp_all add: live_ok_def client_ok_def)
  have q: "queue_ok b" if "bact_atomic a (bar s) = Some b" for a b
    using atomic_queue_ok [OF o(1,2) that] .
  have "queue_ok (bar s') \<and> awake_ok (bar s')"
    using step
  proof cases
    case (user t a)
    then show ?thesis
      using o(2,3) q awake_run [OF ok, of t] atomic_call [of t "bar s"] awake_ok_call [OF o(3), of "At_lock Loop1" t]
      by (auto simp: pfunction_def split: upc.splits)
  next
    case (boss cret)
    then show ?thesis
      using o(2,3,6) q awake_run [OF ok, of runner] atomic_call [of runner "bar s"]
        awake_ok_call [OF o(3), of "At_lock Drain" runner]
      by (auto simp: run_barriers_def run_ok_def split: rpc.splits if_splits upc.splits)
  qed
  with closed_window.run_step [OF o(4) step] started_step [OF o(5) step] show ?thesis
    by (simp add: live_ok_def)
qed

lemma live_start:
  assumes "0 < n" and "n < 2 ^ 31"
  shows "live_ok n (run_start n)"
  using start_ok [OF assms]
  by (auto simp: live_ok_def run_start_def queue_ok_def awake_ok_def started_def fresh_bsys_def
      init_barrier_struct_def)

section \<open>A measure\<close>

text \<open>
  What a user still has to do: eight units for every round that is left, and within a round
  the distance from its end. A thread in front of the first loop has farther to go while
  the last round drains.
\<close>

fun wait_rank :: "bool \<Rightarrow> wpc \<Rightarrow> nat" where
  "wait_rank d (At_lock Loop1) = (if d then 5 else 3)"
| "wait_rank d (Asleep Loop1) = 4"
| "wait_rank d (Asleep Loop2) = 2"
| "wait_rank d (At_lock Loop2) = 1"
| "wait_rank d _ = 0"

fun user_rank :: "bool \<Rightarrow> wpc \<Rightarrow> upc \<Rightarrow> nat" where
  "user_rank d pc U_none = 808"
| "user_rank d pc (U_test c) = 8 * (SYNC_ROUNS - c) + 7"
| "user_rank d pc (U_sleep c) = 8 * (Suc SYNC_ROUNS - c) + 6"
| "user_rank d pc (U_wait c) = 8 * (Suc SYNC_ROUNS - c) + wait_rank d pc"
| "user_rank d pc U_done = 0"

fun run_rank :: "nat \<Rightarrow> wpc \<Rightarrow> rpc \<Rightarrow> nat" where
  "run_rank n pc (R_create i) = 2 * n + 7 - i"
| "run_rank n pc (R_join i) = n + 6 - i"
| "run_rank n pc R_destroy = 5"
| "run_rank n pc R_closing = (if pc = At_lock Drain then 3 else if pc = Recycling then 2 else 4)"
| "run_rank n pc R_end = 0"
| "run_rank n pc R_undefined = 0"

definition place_rank :: "btest \<Rightarrow> pid_t \<Rightarrow> nat" where
  "place_rank s t = user_rank (draining (bar s)) (pcs (bar s) t) (upcs s t)"

definition work_left :: "nat \<Rightarrow> btest \<Rightarrow> nat" where
  "work_left n s = sum (place_rank s) (users n) + run_rank n (pcs (bar s) runner) (run_pc s)"

lemma work_user:
  assumes "t \<in> users n" and "place_rank s' t < place_rank s t"
    and "\<And>u. u \<in> users n \<Longrightarrow> u \<noteq> t \<Longrightarrow> place_rank s' u \<le> place_rank s u"
    and "run_rank n (pcs (bar s') runner) (run_pc s') \<le> run_rank n (pcs (bar s) runner) (run_pc s)"
  shows "work_left n s' < work_left n s"
proof -
  have "place_rank s' u \<le> place_rank s u" if "u \<in> users n" for u
    using assms(2,3) that by (cases "u = t") auto
  then have "sum (place_rank s') (users n) < sum (place_rank s) (users n)"
    using assms(1,2) by (intro sum_strict_mono_ex1) auto
  with assms(4) show ?thesis by (simp add: work_left_def)
qed

lemma work_runner:
  assumes "\<And>u. u \<in> users n \<Longrightarrow> place_rank s' u \<le> place_rank s u"
    and "run_rank n (pcs (bar s') runner) (run_pc s') < run_rank n (pcs (bar s) runner) (run_pc s)"
  shows "work_left n s' < work_left n s"
  using sum_mono [of "users n" "place_rank s'" "place_rank s"] assms by (simp add: work_left_def)

text \<open>A step in the driver brings the thread closer to the end of its round and hinders nobody.\<close>

lemma qeffect_rank:
  assumes e: "qeffect n t b b'" and aw: "awake_ok b" and pc: "pcs b t \<noteq> Idle" "\<not> closing (pcs b t)"
  shows "(pcs b' t = Idle \<or> wait_rank (draining b') (pcs b' t) < wait_rank (draining b) (pcs b t))
    \<and> (\<forall>u. u \<noteq> t \<longrightarrow> pcs b' u = pcs b u)
    \<and> (\<not> draining b \<longrightarrow> draining b' \<longrightarrow> Suc (card (members b)) = n \<and> t \<notin> members b)"
  using e
proof cases
  case (q_sleeps r)
  with awake_okD [OF aw, of t] pc show ?thesis by (cases r) (auto simp: same_round_def)
next
  case (q_wakes r)
  with awake_okD [OF aw, of t] pc show ?thesis by (cases r) (auto simp: same_round_def)
qed (use pc in \<open>auto simp: in_members same_round_def\<close>)

lemma wait_rank_drain:
  "d' \<longrightarrow> d \<or> pc \<noteq> At_lock Loop1 \<Longrightarrow> wait_rank d' pc \<le> wait_rank d pc"
  by (cases "(d, pc)" rule: wait_rank.cases) auto

lemma user_rank_drain:
  "(d' \<longrightarrow> d \<or> pc \<noteq> At_lock Loop1) \<Longrightarrow> user_rank d' pc p \<le> user_rank d pc p"
  using wait_rank_drain by (cases p) auto

lemma work_wait:
  assumes ok: "live_ok n s" and t: "t \<in> users n" and pc: "upcs s t = U_wait c"
    and b: "bact_atomic (Run t) (bar s) = Some b"
    and s': "s' = s\<lparr>bar := b, upcs := (if pcs b t = Idle then (upcs s)(t := U_test c) else upcs s)\<rparr>"
  shows "work_left n s' < work_left n s"
proof -
  have o: "binv n (bar s)" "queue_ok (bar s)" "awake_ok (bar s)" "client_ok n s" "users_ok n s"
    using ok by (simp_all add: live_ok_def client_ok_def)
  have p: "pcs (bar s) t \<noteq> Idle" "\<not> closing (pcs (bar s) t)" "1 \<le> c" "c \<le> SYNC_ROUNS"
    using users_okD [OF o(5) t] pc by auto
  have e: "pcs b t = Idle \<or> wait_rank (draining b) (pcs b t) < wait_rank (draining (bar s)) (pcs (bar s) t)"
    "\<And>u. u \<noteq> t \<Longrightarrow> pcs b u = pcs (bar s) u"
    "\<not> draining (bar s) \<Longrightarrow> draining b \<Longrightarrow> Suc (card (members (bar s))) = n \<and> t \<notin> members (bar s)"
    using qeffect_rank [OF atomic_qeffect [OF o(1,2) b] o(3) p(1,2)] by blast+
  show ?thesis
  proof (rule work_user [OF t])
    show "place_rank s' t < place_rank s t" using e(1) pc p(3,4) by (auto simp: place_rank_def s')
    show "place_rank s' u \<le> place_rank s u" if u: "u \<in> users n" "u \<noteq> t" for u
    proof -
      have "draining b \<longrightarrow> draining (bar s) \<or> pcs (bar s) u \<noteq> At_lock Loop1"
        using full_round [OF o(4) t _ _ u(2)] e(3) by auto
      then show ?thesis using u e(2) user_rank_drain by (simp add: place_rank_def s')
    qed
    show "run_rank n (pcs (bar s') runner) (run_pc s') \<le> run_rank n (pcs (bar s) runner) (run_pc s)"
      using e(2) [of runner] t by (simp add: s')
  qed
qed

lemma work_user_step:
  assumes ok: "live_ok n s" and t: "t \<in> users n" and step: "pfunction bact_atomic (Run t) s = Some s'"
  shows "work_left n s' < work_left n s"
proof -
  have us: "users_ok n s" using ok by (simp add: live_ok_def client_ok_def)
  show ?thesis
  proof (cases "upcs s t")
    case (U_test c)
    then have "c \<le> SYNC_ROUNS" using users_okD(1) [OF us t] by simp
    with U_test step t show ?thesis
      by (intro work_user [OF t]) (auto simp: pfunction_def place_rank_def split: if_splits)
  next
    case (U_sleep c)
    then obtain b where b: "bact_atomic (Call_wait t) (bar s) = Some b"
      "s' = s\<lparr>bar := b, upcs := (upcs s)(t := U_wait c)\<rparr>" using step by (auto simp: pfunction_def)
    moreover have "b = goto t (At_lock Loop1) (bar s)" using atomic_call [of t "bar s" b] b(1) by blast
    ultimately show ?thesis
      using U_sleep t by (intro work_user [OF t]) (auto simp: place_rank_def)
  next
    case (U_wait c)
    then obtain b where "bact_atomic (Run t) (bar s) = Some b"
      "s' = s\<lparr>bar := b, upcs := (if pcs b t = Idle then (upcs s)(t := U_test c) else upcs s)\<rparr>"
      using step by (auto simp: pfunction_def)
    then show ?thesis by (intro work_wait [OF ok t U_wait])
  qed (use step in \<open>auto simp: pfunction_def\<close>)
qed

lemma work_boss_step:
  assumes ok: "live_ok n s" and step: "run_barriers bact_atomic n cret s = Some s'"
  shows "work_left n s' < work_left n s"
proof -
  have o: "binv n (bar s)" "queue_ok (bar s)" "client_ok n s" "run_ok n s" "started n s"
    using ok by (simp_all add: live_ok_def client_ok_def)
  show ?thesis
  proof (cases "run_pc s")
    case (R_create i)
    then show ?thesis
      using step o(4,5) by (intro work_runner)
        (auto simp: run_barriers_def place_rank_def run_ok_def started_def split: if_splits)
  next
    case (R_join i)
    then show ?thesis
      using step o(5) by (intro work_runner)
        (auto simp: run_barriers_def place_rank_def started_def split: if_splits upc.splits)
  next
    case R_destroy
    then obtain b where b: "bact_atomic (Call_destroy runner) (bar s) = Some b"
      "s' = s\<lparr>bar := b, run_pc := R_closing\<rparr>" using step by (auto simp: run_barriers_def)
    moreover have "b = goto runner (At_lock Drain) (bar s)" using atomic_call [of runner "bar s" b] b(1) by blast
    ultimately show ?thesis
      using R_destroy by (intro work_runner) (auto simp: place_rank_def)
  next
    case R_closing
    then obtain b where b: "bact_atomic (Run runner) (bar s) = Some b"
      "s' = s\<lparr>bar := b, run_pc := (if pcs b runner = Idle then R_end else R_closing)\<rparr>"
      using step by (auto simp: run_barriers_def)
    have c: "all_done n s" "closing (pcs (bar s) runner)" using o(4) R_closing by (auto simp: run_ok_def)
    note d = all_done_idle(2) [OF o(3) c(1)]
    have "run_rank n (pcs b runner) (run_pc s') < run_rank n (pcs (bar s) runner) R_closing
      \<and> (\<forall>u. u \<noteq> runner \<longrightarrow> pcs b u = pcs (bar s) u)"
      using atomic_qeffect [OF o(1,2) b(1)]
      by cases (use c d b(2) in \<open>auto simp: in_members same_round_def\<close>)
    with R_closing b(2) c(1) show ?thesis
      by (intro work_runner) (auto simp: place_rank_def all_done_def)
  qed (use step in \<open>auto simp: run_barriers_def\<close>)
qed

lemma work_step:
  assumes ok: "live_ok n s" and step: "test_run calm bact_atomic n s s'"
  shows "work_left n s' < work_left n s"
  using step
proof cases
  case (user t a)
  then show ?thesis using work_user_step [OF ok, of t] by simp
next
  case (boss cret)
  then show ?thesis by (intro work_boss_step [OF ok])
qed

section \<open>Somebody can always go on\<close>

lemma atomic_runs:
  assumes "\<not> freed b" and "pcs b t \<noteq> Idle" and "\<And>r. pcs b t = Asleep r \<Longrightarrow> t \<notin> set (waitQ (bs b))"
  shows "\<exists>b'. bact_atomic (Run t) b = Some b'"
proof -
  obtain u where u: "bact (Run t) b = Some u" using assms by (cases "pcs b t") (auto simp: bact_def)
  have "freed u \<Longrightarrow> pcs u t = Idle"
    using u assms(1) by (auto simp: bact_def run_lock_def run_loop1_def run_loop2_def run_drain_def
        split: wpc.splits resume.splits prod.splits sysret.splits if_splits)
  then have "bact (Run t) u \<noteq> None" if "pcs u t = At_prepare r" for r using that by (auto simp: bact_def)
  with u show ?thesis by (auto simp: bact_atomic_def split: wpc.splits)
qed

text \<open>While a thread has rounds to go, not all of the threads that are not done are asleep in the queue.\<close>

lemma someone_awake:
  assumes ok: "live_ok n s" and i: "i \<in> users n" "upcs s i \<noteq> U_done" "upcs s i \<noteq> U_none"
  shows "\<exists>t \<in> users n. upcs s t \<noteq> U_done \<and> (\<forall>r. pcs (bar s) t = Asleep r \<longrightarrow> t \<notin> set (waitQ (bs (bar s))))"
proof (rule ccontr)
  assume "\<not> ?thesis"
  then have q: "\<And>t. t \<in> users n \<Longrightarrow> upcs s t \<noteq> U_done \<Longrightarrow>
      t \<in> set (waitQ (bs (bar s))) \<and> (\<exists>r. pcs (bar s) t = Asleep r)" by blast
  have o: "binv n (bar s)" "queue_ok (bar s)" "users_ok n s" "in_step n s"
    using ok by (simp_all add: live_ok_def client_ok_def)
  have w: "waits_for (b_total (bs (bar s))) (pcs (bar s) t)" "\<not> closing (pcs (bar s) t)"
    if "t \<in> users n" "upcs s t \<noteq> U_done" for t
    using q [OF that] o(2) users_okD(3) [OF o(3) that(1)] by (auto simp: queue_ok_def)
  have nd: "\<not> draining (bar s)"
  proof
    assume d: "draining (bar s)"
    then have "members (bar s) \<noteq> {}" using o(1) by (auto simp: binv_def total_ok_def split: if_splits)
    then obtain t where t: "t \<in> members (bar s)" by blast
    then have u: "t \<in> users n" "in_round (pcs (bar s) t)"
      using members_users [OF o(3)] by (auto simp: in_members)
    moreover have "upcs s t \<noteq> U_done" using users_okD(2) [OF o(3) u(1)] u(2) by auto
    ultimately show False using w [of t] q [of t] d by (auto split: if_splits)
  qed
  obtain r where r: "\<And>t. t \<in> users n \<Longrightarrow> rounds (upcs s t) = r" using o(4) nd by (auto simp: in_step_def)
  have "r < SYNC_ROUNS"
    using r [OF i(1)] q [OF i(1,2)] users_okD [OF o(3) i(1)] i(2,3) by (cases "upcs s i") auto
  then have "upcs s t \<noteq> U_done" if "t \<in> users n" for t using r [OF that] by auto
  then have "t \<in> members (bar s)" if "t \<in> users n" for t
    using w [OF that] q [OF that] nd that by (auto simp: in_members split: if_splits)
  then have "card (users n) \<le> card (members (bar s))"
    using o(1) by (intro card_mono) (auto simp: binv_def)
  with o(1) show False by (auto simp: binv_def total_ok_def)
qed

text \<open>The runner can go on unless it waits for a thread.\<close>

lemma runner_waits:
  assumes ok: "live_ok n s" and "run_pc s \<noteq> R_end" and no: "run_barriers bact_atomic n 0 s = None"
  shows "\<exists>i. run_pc s = R_join i \<and> i < n \<and> upcs s (int i) \<noteq> U_done"
proof (cases "run_pc s")
  have o: "queue_ok (bar s)" "client_ok n s" "run_ok n s" "started n s"
    using ok by (simp_all add: live_ok_def client_ok_def)
  {
    case (R_join i)
    with no show ?thesis by (auto simp: run_barriers_def split: if_splits upc.splits)
  next
    case R_destroy
    with no o(3) show ?thesis by (auto simp: run_barriers_def run_ok_def bact_atomic_def bact_def)
  next
    case R_closing
    then have c: "closing (pcs (bar s) runner)" "\<not> freed (bar s)" "all_done n s" using o(3) by (auto simp: run_ok_def)
    have "runner \<notin> set (waitQ (bs (bar s)))" if "pcs (bar s) runner = Asleep r" for r
      using o(1) c(1) that all_done_idle(2) [OF o(2) c(3)] by (auto simp: queue_ok_def)
    with c have "\<exists>b. bact_atomic (Run runner) (bar s) = Some b" by (intro atomic_runs) auto
    with R_closing no show ?thesis by (auto simp: run_barriers_def)
  next
    case R_undefined
    with o(4) show ?thesis by (simp add: started_def)
  }
qed (use no assms(2) in \<open>auto simp: run_barriers_def split: if_splits\<close>)

lemma live_progress:
  assumes ok: "live_ok n s" and "run_pc s \<noteq> R_end"
  shows "\<exists>s'. test_run calm bact_atomic n s s'"
proof (cases "run_barriers bact_atomic n 0 s")
  case (Some s')
  then show ?thesis by (auto intro: test_run.boss [where cret = 0])
next
  case None
  have o: "users_ok n s" "run_ok n s" "started n s" using ok by (simp_all add: live_ok_def client_ok_def)
  obtain i where i: "run_pc s = R_join i" "i < n" "upcs s (int i) \<noteq> U_done"
    using runner_waits [OF assms None] by blast
  have f: "\<not> freed (bar s)" and none: "\<And>t. t \<in> users n \<Longrightarrow> upcs s t \<noteq> U_none"
    using i o(2,3) by (auto simp: run_ok_def started_def)
  have "int i \<in> users n" using i(2) by simp
  from someone_awake [OF ok this i(3) none [OF this]]
  obtain t where t: "t \<in> users n" "upcs s t \<noteq> U_done"
    "\<And>r. pcs (bar s) t = Asleep r \<Longrightarrow> t \<notin> set (waitQ (bs (bar s)))" by blast
  have "\<exists>s'. pfunction bact_atomic (Run t) s = Some s'"
  proof (cases "upcs s t")
    case (U_sleep c)
    then have "pcs (bar s) t = Idle" using users_okD(2) [OF o(1) t(1)] by auto
    with U_sleep f show ?thesis by (auto simp: pfunction_def bact_atomic_def bact_def)
  next
    case (U_wait c)
    then have "pcs (bar s) t \<noteq> Idle" using users_okD(2) [OF o(1) t(1)] by auto
    with atomic_runs [OF f this t(3)] U_wait show ?thesis by (auto simp: pfunction_def)
  qed (use t none in \<open>auto simp: pfunction_def\<close>)
  then obtain s' where "pfunction bact_atomic (Run t) s = Some s'" by blast
  with t(1) have "test_run calm bact_atomic n s s'"
    by (intro test_run.user [where t = t and a = "Run t"]) simp_all
  then show ?thesis by blast
qed

lemma live_steps:
  assumes "0 < n" and "n < 2 ^ 31" and "(test_run calm bact_atomic n ^^ k) (run_start n) s"
  shows "k + work_left n s \<le> 810 * n + 7 \<and> live_ok n s"
  using assms(3)
proof (induction k arbitrary: s)
  case 0
  then have s: "s = run_start n" by simp
  have "work_left n (run_start n) = 810 * n + 7"
    by (simp add: work_left_def run_start_def place_rank_def)
  with live_start [OF assms(1,2)] show ?case by (simp add: s)
next
  case (Suc k)
  then obtain r where r: "(test_run calm bact_atomic n ^^ k) (run_start n) r" "test_run calm bact_atomic n r s" by auto
  from Suc.IH [OF r(1)] work_step [OF _ r(2)] live_step [OF _ r(2)] show ?case by fastforce
qed

section \<open>Schedules of the driver as it is\<close>

text \<open>
  On the driver as it is, the schedules in which nobody runs between a thread's unlock and its
  \<open>prepare_to_wait\<close>: as long as a thread is there, it takes the next step. The schedules end
  where the runner is about to free the barrier.
\<close>

inductive prompt :: "nat \<Rightarrow> btest \<Rightarrow> btest \<Rightarrow> bool" for n where
  user: "t \<in> users n \<Longrightarrow> \<forall>t' r. pcs (bar s) t' = At_prepare r \<longrightarrow> t' = t \<Longrightarrow> pfunction bact (Run t) s = Some s' \<Longrightarrow> prompt n s s'"
| boss: "\<forall>t' r. pcs (bar s) t' = At_prepare r \<longrightarrow> t' = runner \<Longrightarrow> pcs (bar s) runner \<noteq> Recycling \<Longrightarrow>
    run_barriers bact n 0 s = Some s' \<Longrightarrow> prompt n s s'"

text \<open>Nobody has still to queue; \<open>t\<close> has, and when it has done so the state is \<open>u\<close>.\<close>

definition settled :: "btest \<Rightarrow> bool" where
  "settled s \<longleftrightarrow> (\<forall>t r. pcs (bar s) t \<noteq> At_prepare r)"

definition queues :: "nat \<Rightarrow> pid_t \<Rightarrow> btest \<Rightarrow> btest \<Rightarrow> bool" where
  "queues n t s u \<longleftrightarrow> (\<exists>r b. pcs (bar s) t = At_prepare r \<and> bact (Run t) (bar s) = Some b \<and> u = s\<lparr>bar := b\<rparr> \<and> pcs b t = Asleep r)
     \<and> (\<forall>t' r. pcs (bar s) t' = At_prepare r \<longrightarrow> t' = t) \<and> settled u
     \<and> (t \<in> users n \<and> upcs s t \<in> range U_wait \<or> t = runner \<and> run_pc s = R_closing)"

lemma bact_pcs: "bact a s = Some s' \<Longrightarrow> t \<noteq> who a \<Longrightarrow> pcs s' t = pcs s t"
  by (cases a) (auto simp: bact_def run_lock_def run_loop1_def run_loop2_def run_drain_def
      split: if_splits wpc.splits resume.splits prod.splits sysret.splits)

text \<open>A step of a thread is one without the window, or the first half of one.\<close>

lemma bact_half:
  assumes "bact (Run t) b = Some b1"
  shows "bact_atomic (Run t) b = Some b1 \<and> (\<forall>r. pcs b1 t \<noteq> At_prepare r)
    \<or> (\<exists>r b2. pcs b1 t = At_prepare r \<and> bact (Run t) b1 = Some b2 \<and> pcs b2 t = Asleep r \<and> bact_atomic (Run t) b = Some b2)"
proof (cases "\<exists>r. pcs b1 t = At_prepare r")
  case False
  with assms show ?thesis by (auto simp: bact_atomic_def split: wpc.splits)
next
  case True
  then obtain r where r: "pcs b1 t = At_prepare r" by blast
  have "\<not> freed b1"
    using assms r by (auto simp: bact_def run_lock_def run_loop1_def run_loop2_def run_drain_def
        split: wpc.splits resume.splits prod.splits sysret.splits if_splits)
  with assms r show ?thesis by (auto simp: bact_atomic_def bact_def)
qed

lemma settled_half:
  assumes s: "settled s" and b: "bact (Run t) (bar s) = Some b1"
  shows "bact_atomic (Run t) (bar s) = Some b1 \<and> settled (s\<lparr>bar := b1\<rparr>)
    \<or> (\<exists>b2. bact_atomic (Run t) (bar s) = Some b2 \<and> pcs b1 t \<noteq> Idle \<and> pcs b2 t \<noteq> Idle
         \<and> (t \<in> users n \<and> upcs s t \<in> range U_wait \<or> t = runner \<and> run_pc s = R_closing \<longrightarrow>
               queues n t (s\<lparr>bar := b1\<rparr>) (s\<lparr>bar := b2\<rparr>)))"
proof -
  have o1: "pcs b1 t' = pcs (bar s) t'" if "t' \<noteq> t" for t' using bact_pcs [OF b] that by simp
  have n: "pcs (bar s) t' \<noteq> At_prepare r'" for t' r' using s by (simp add: settled_def)
  from bact_half [OF b] show ?thesis
  proof (elim disjE exE conjE)
    assume "bact_atomic (Run t) (bar s) = Some b1" "\<forall>r. pcs b1 t \<noteq> At_prepare r"
    moreover have "pcs b1 t' \<noteq> At_prepare r'" for t' r'
      using o1 [of t'] n [of t' r'] calculation(2) by (cases "t' = t") auto
    ultimately show ?thesis by (simp add: settled_def)
  next
    fix r b2
    assume b2: "pcs b1 t = At_prepare r" "bact (Run t) b1 = Some b2" "pcs b2 t = Asleep r" "bact_atomic (Run t) (bar s) = Some b2"
    have o2: "pcs b2 t' = pcs (bar s) t'" if "t' \<noteq> t" for t' using bact_pcs [OF b2(2)] o1 that by simp
    have "\<forall>t' r'. pcs b1 t' = At_prepare r' \<longrightarrow> t' = t" using o1 n by metis
    moreover have "settled (s\<lparr>bar := b2\<rparr>)"
    proof -
      have "pcs b2 t' \<noteq> At_prepare r'" for t' r' using o2 [of t'] n [of t' r'] b2(3) by (cases "t' = t") auto
      then show ?thesis by (simp add: settled_def)
    qed
    ultimately show ?thesis using b2 by (intro disjI2 exI [of _ b2]) (auto simp: queues_def)
  qed
qed

lemma prompt_settled:
  assumes s: "settled s" and p: "prompt n s s'"
  shows "settled s' \<and> test_run calm bact_atomic n s s' \<or> (\<exists>t u. queues n t s' u \<and> test_run calm bact_atomic n s u)"
  using p
proof cases
  case (user t)
  have atom: "test_run calm bact_atomic n s u" if "pfunction bact_atomic (Run t) s = Some u" for u
    using that user(1) by (intro test_run.user [where t = t and a = "Run t"]) simp_all
  show ?thesis
  proof (cases "upcs s t")
    case (U_sleep c)
    then obtain b where b: "bact (Call_wait t) (bar s) = Some b" "s' = s\<lparr>bar := b, upcs := (upcs s)(t := U_wait c)\<rparr>"
      using user(3) by (auto simp: pfunction_def)
    then have e: "b = goto t (At_lock Loop1) (bar s)" by (auto simp: bact_def split: if_splits)
    have "pfunction bact_atomic (Run t) s = Some s'" using U_sleep b e by (simp add: pfunction_def bact_atomic_def)
    moreover have "settled s'" using s e b(2) by (auto simp: settled_def)
    ultimately show ?thesis using atom by blast
  next
    case (U_wait c)
    then obtain b1 where b1: "bact (Run t) (bar s) = Some b1"
      "s' = s\<lparr>bar := b1, upcs := (if pcs b1 t = Idle then (upcs s)(t := U_test c) else upcs s)\<rparr>"
      using user(3) by (auto simp: pfunction_def)
    from settled_half [OF s b1(1), of n] show ?thesis
    proof (elim disjE exE conjE)
      assume "bact_atomic (Run t) (bar s) = Some b1" "settled (s\<lparr>bar := b1\<rparr>)"
      then show ?thesis using U_wait b1(2) atom [of s'] by (simp add: pfunction_def settled_def)
    next
      fix b2
      assume b2: "bact_atomic (Run t) (bar s) = Some b2" "pcs b1 t \<noteq> Idle" "pcs b2 t \<noteq> Idle"
        "t \<in> users n \<and> upcs s t \<in> range U_wait \<or> t = runner \<and> run_pc s = R_closing \<longrightarrow>
               queues n t (s\<lparr>bar := b1\<rparr>) (s\<lparr>bar := b2\<rparr>)"
      then have "queues n t s' (s\<lparr>bar := b2\<rparr>)" using U_wait user(1) b1(2) by simp
      moreover have "test_run calm bact_atomic n s (s\<lparr>bar := b2\<rparr>)"
        by (rule atom) (use U_wait b2 in \<open>simp add: pfunction_def\<close>)
      ultimately show ?thesis by blast
    qed
  qed (use user atom s in \<open>auto simp: pfunction_def settled_def\<close>)
next
  case boss
  have atom: "test_run calm bact_atomic n s u" if "run_barriers bact_atomic n 0 s = Some u" for u
    using that by (intro test_run.boss [where cret = 0]) simp_all
  show ?thesis
  proof (cases "run_pc s")
    case R_destroy
    then obtain b where b: "bact (Call_destroy runner) (bar s) = Some b" "s' = s\<lparr>bar := b, run_pc := R_closing\<rparr>"
      using boss(3) by (auto simp: run_barriers_def)
    then have e: "b = goto runner (At_lock Drain) (bar s)" by (auto simp: bact_def split: if_splits)
    have "run_barriers bact_atomic n 0 s = Some s'" using R_destroy b e by (simp add: run_barriers_def bact_atomic_def)
    moreover have "settled s'" using s e b(2) by (auto simp: settled_def)
    ultimately show ?thesis using atom by blast
  next
    case R_closing
    then obtain b1 where b1: "bact (Run runner) (bar s) = Some b1"
      "s' = s\<lparr>bar := b1, run_pc := (if pcs b1 runner = Idle then R_end else R_closing)\<rparr>"
      using boss(3) by (auto simp: run_barriers_def)
    from settled_half [OF s b1(1), of n] show ?thesis
    proof (elim disjE exE conjE)
      assume "bact_atomic (Run runner) (bar s) = Some b1" "settled (s\<lparr>bar := b1\<rparr>)"
      then show ?thesis using R_closing b1(2) atom [of s'] by (simp add: run_barriers_def settled_def)
    next
      fix b2
      assume b2: "bact_atomic (Run runner) (bar s) = Some b2" "pcs b1 runner \<noteq> Idle" "pcs b2 runner \<noteq> Idle"
        "runner \<in> users n \<and> upcs s runner \<in> range U_wait \<or> runner = runner \<and> run_pc s = R_closing \<longrightarrow>
               queues n runner (s\<lparr>bar := b1\<rparr>) (s\<lparr>bar := b2\<rparr>)"
      have keep: "x\<lparr>run_pc := R_closing\<rparr> = x" if "run_pc x = R_closing" for x :: btest using that by simp
      have "queues n runner s' (s\<lparr>bar := b2\<rparr>)" using R_closing b1(2) b2(2,4) keep [of "s\<lparr>bar := b1\<rparr>"] by simp
      moreover have "test_run calm bact_atomic n s (s\<lparr>bar := b2\<rparr>)"
        by (rule atom) (use R_closing b2 keep [of "s\<lparr>bar := b2\<rparr>"] in \<open>simp add: run_barriers_def\<close>)
      ultimately show ?thesis by blast
    qed
  qed (use boss atom s in \<open>auto simp: run_barriers_def settled_def split: if_splits upc.splits\<close>)
qed

text \<open>While a thread has to queue, that is the only step.\<close>

lemma prompt_queues:
  assumes q: "queues n t s u"
  shows "prompt n s s' \<longleftrightarrow> s' = u"
proof -
  have q': "\<exists>r b. pcs (bar s) t = At_prepare r \<and> bact (Run t) (bar s) = Some b \<and> u = s\<lparr>bar := b\<rparr> \<and> pcs b t = Asleep r"
    and o: "\<forall>t' r. pcs (bar s) t' = At_prepare r \<longrightarrow> t' = t"
    and t: "t \<in> users n \<and> upcs s t \<in> range U_wait \<or> t = runner \<and> run_pc s = R_closing"
    using q unfolding queues_def by - (elim conjE, assumption)+
  from q' obtain r b where b: "pcs (bar s) t = At_prepare r" "bact (Run t) (bar s) = Some b" "u = s\<lparr>bar := b\<rparr>" "pcs b t = Asleep r"
    by (elim exE conjE)
  note b = b o
  from t show ?thesis
  proof (elim disjE conjE)
    assume t: "t \<in> users n" "upcs s t \<in> range U_wait"
    then have p: "pfunction bact (Run t) s = Some u" using b(2-4) by (auto simp: pfunction_def)
    have nr: "t \<noteq> runner" using t(1) by auto
    have "s' = u" if "prompt n s s'" using that
    proof cases
      case (user t')
      then have "t' = t" using b(1) by blast
      with user p show ?thesis by simp
    next
      case boss
      with b(1) nr show ?thesis by blast
    qed
    moreover have "prompt n s u" by (rule prompt.user [OF t(1) b(5) p])
    ultimately show ?thesis by blast
  next
    assume t: "t = runner" "run_pc s = R_closing"
    have e: "u\<lparr>run_pc := R_closing\<rparr> = u" using t(2) b(3) by simp
    have p: "run_barriers bact n 0 s = Some u" using b(2,3,4) t e by (simp add: run_barriers_def)
    have "s' = u" if "prompt n s s'" using that
    proof cases
      case (user t')
      then have "t' = runner" using b(1) t(1) by blast
      with user(1) show ?thesis by simp
    next
      case boss
      with p show ?thesis by simp
    qed
    moreover have "pcs (bar s) runner \<noteq> Recycling" using b(1) t(1) by simp
    then have "prompt n s u" by (rule prompt.boss [OF o [unfolded t(1)] _ p])
    ultimately show ?thesis by blast
  qed
qed

lemma prompt_steps:
  assumes "(prompt n ^^ k) (run_start n) s"
  shows "\<exists>j u. (test_run calm bact_atomic n ^^ j) (run_start n) u
    \<and> (settled s \<and> u = s \<and> k \<le> 2 * j \<or> (\<exists>t. queues n t s u) \<and> k + 1 \<le> 2 * j)"
  using assms
proof (induction k arbitrary: s)
  case 0
  then have "s = run_start n" by simp
  moreover have "settled (run_start n)" by (simp add: settled_def run_start_def fresh_bsys_def)
  ultimately show ?case by (intro exI [of _ 0] exI [of _ s]) simp
next
  case (Suc k)
  then obtain r where r: "(prompt n ^^ k) (run_start n) r" "prompt n r s" by auto
  from Suc.IH [OF r(1)] obtain j u where j: "(test_run calm bact_atomic n ^^ j) (run_start n) u"
    "settled r \<and> u = r \<and> k \<le> 2 * j \<or> (\<exists>t. queues n t r u) \<and> k + 1 \<le> 2 * j" by blast
  from j(2) show ?case
  proof (elim disjE conjE exE)
    fix t assume q: "queues n t r u" "k + 1 \<le> 2 * j"
    then have "s = u" "settled u" using prompt_queues [OF q(1)] r(2) by (simp_all add: queues_def)
    with j(1) q(2) show ?thesis by (intro exI [of _ j] exI [of _ u]) simp
  next
    assume a: "settled r" "u = r" "k \<le> 2 * j"
    have next_step: "(test_run calm bact_atomic n ^^ Suc j) (run_start n) v" if "test_run calm bact_atomic n r v" for v
      using j(1) a(2) that by auto
    from prompt_settled [OF a(1) r(2)] show ?thesis
    proof (elim disjE conjE exE)
      assume "settled s" "test_run calm bact_atomic n r s"
      with next_step a(3) show ?thesis by (intro exI [of _ "Suc j"] exI [of _ s]) simp
    next
      fix t v assume v: "queues n t s v" "test_run calm bact_atomic n r v"
      show ?thesis
      proof (intro exI [of _ "Suc j"] exI [of _ v] conjI disjI2)
        show "(test_run calm bact_atomic n ^^ Suc j) (run_start n) v" by (rule next_step [OF v(2)])
      qed (use v(1) a(3) in auto)
    qed
  qed
qed

lemma prompt_can_go:
  assumes ok: "live_ok n s" and s: "settled s" and "pcs (bar s) runner \<noteq> Recycling" and "run_pc s \<noteq> R_end"
  shows "\<exists>s'. prompt n s s'"
proof -
  have b: "\<exists>v. bact a b = Some v" if "bact_atomic a b = Some u" for a b u
    using that by (auto simp: bact_atomic_def split: option.splits)
  have n: "\<forall>t' r. pcs (bar s) t' = At_prepare r \<longrightarrow> t' = t" for t using s by (simp add: settled_def)
  from live_progress [OF ok assms(4)] obtain u where "test_run calm bact_atomic n s u" by blast
  then show ?thesis
  proof cases
    case (user t a)
    then have "\<exists>v. pfunction bact (Run t) s = Some v"
      using b by (auto simp: pfunction_def split: upc.splits)
    with user(1) n [of t] show ?thesis by (blast intro: prompt.user)
  next
    case (boss cret)
    then have "\<exists>v. run_barriers bact n 0 s = Some v"
      using b by (auto simp: run_barriers_def split: rpc.splits if_splits upc.splits)
    with n [of runner] assms(3) show ?thesis by (blast intro: prompt.boss)
  qed
qed

text \<open>The runner does not come past the point where it frees the barrier.\<close>

definition before_free :: "btest \<Rightarrow> bool" where
  "before_free s \<longleftrightarrow> run_pc s \<noteq> R_end \<and> (run_pc s = R_closing \<longrightarrow> closing (pcs (bar s) runner))"

lemma closing_run:
  assumes "bact (Run runner) b = Some b'" and "closing (pcs b runner)" and "pcs b runner \<noteq> Recycling"
  shows "closing (pcs b' runner)"
  using assms by (cases "pcs b runner")
    (auto simp: bact_def run_lock_def run_drain_def destroy_section_def split: if_splits)

lemma closing_not_idle: "closing pc \<Longrightarrow> pc \<noteq> Idle"
  by (cases pc) auto

lemma prompt_before_free:
  assumes f: "before_free s" and "prompt n s s'"
  shows "before_free s'"
  using assms(2)
proof cases
  case (user t)
  then have "t \<noteq> runner" by auto
  then have "pcs (bar s') runner = pcs (bar s) runner"
    using user(3) bact_pcs [of _ "bar s"] by (auto simp: pfunction_def split: upc.splits)
  moreover have "run_pc s' = run_pc s" using user(3) by (auto simp: pfunction_def split: upc.splits)
  ultimately show ?thesis using f by (simp add: before_free_def)
next
  case boss
  show ?thesis
  proof (cases "run_pc s")
    case R_destroy
    with boss(3) show ?thesis by (auto simp: run_barriers_def before_free_def bact_def split: if_splits)
  next
    case R_closing
    then obtain b where b: "bact (Run runner) (bar s) = Some b"
      "s' = s\<lparr>bar := b, run_pc := (if pcs b runner = Idle then R_end else R_closing)\<rparr>"
      using boss(3) by (auto simp: run_barriers_def)
    have "closing (pcs b runner)" using closing_run [OF b(1) _ boss(2)] f R_closing by (simp add: before_free_def)
    with closing_not_idle b(2) show ?thesis by (auto simp: before_free_def)
  qed (use boss(3) f in \<open>auto simp: run_barriers_def before_free_def split: if_splits upc.splits\<close>)
qed

lemma prompt_before_frees: "(prompt n ^^ k) (run_start n) s \<Longrightarrow> before_free s"
proof (induction k arbitrary: s)
  case (Suc k)
  then show ?case using prompt_before_free by (auto simp del: prompt.simps)
qed (simp add: before_free_def run_start_def)

section \<open>Properties\<close>

text \<open>
  (C37) When no thread is interrupted between giving back the lock and queueing, the test program comes to the
  end of its rounds, on the driver as it is: with \<open>n\<close> threads, all of them created and no signals, no such schedule has
  more than \<open>1620 n + 14\<close> steps, and until \<open>barrier_destroy\<close> is about to free the barrier somebody can go
  on. Then all threads have ended, and each has printed its lines 0 to 100. (What \<open>barrier_destroy\<close> does from there on, with the
  block of the process, is not claimed here; in \<open>Barrier\<close> it uses the block after freeing it.)
\<close>

theorem barrier_test_terminates:
  assumes "0 < n" and "n < 2 ^ 31" and "(prompt n ^^ k) (run_start n) s"
  shows "k \<le> 1620 * n + 14 \<and> (pcs (bar s) runner = Recycling \<or> (\<exists>s'. prompt n s s'))
    \<and> (pcs (bar s) runner = Recycling \<longrightarrow> (\<forall>t \<in> users n. upcs s t = U_done \<and> (\<forall>c. (t, c) \<in> set (lines s) \<longleftrightarrow> c \<le> 100)))"
proof -
  obtain j u where u: "(test_run calm bact_atomic n ^^ j) (run_start n) u"
    "settled s \<and> u = s \<and> k \<le> 2 * j \<or> (\<exists>t. queues n t s u) \<and> k + 1 \<le> 2 * j" using prompt_steps [OF assms(3)] by blast
  have j: "j \<le> 810 * n + 7" "live_ok n u" using live_steps [OF assms(1,2) u(1)] by simp_all
  have f: "before_free s" using prompt_before_frees [OF assms(3)] .
  from u(2) show ?thesis
  proof (elim disjE conjE exE)
    fix t assume q: "queues n t s u" "k + 1 \<le> 2 * j"
    have "pcs (bar s) runner \<noteq> Recycling"
    proof
      assume r: "pcs (bar s) runner = Recycling"
      from q(1) have "t \<noteq> runner" using r by (auto simp: queues_def)
      with q(1) r have "pcs (bar u) runner = Recycling" "pcs (bar u) t \<noteq> Idle" "t \<in> users n"
        using bact_pcs [of "Run t" "bar s"] by (auto simp: queues_def)
      moreover from this j(2) have "all_done n u"
        by (auto simp: live_ok_def client_ok_def run_ok_def split: rpc.splits)
      ultimately show False using users_okD(2) [of n u t] j(2) by (auto simp: live_ok_def client_ok_def all_done_def)
    qed
    with q j(1) prompt_queues [OF q(1)] show ?thesis by auto
  next
    assume a: "settled s" "u = s" "k \<le> 2 * j"
    have "run_pc s \<noteq> R_end" using f by (simp add: before_free_def)
    with prompt_can_go [of n s] j(2) a(1,2) have g: "pcs (bar s) runner = Recycling \<or> (\<exists>s'. prompt n s s')" by blast
    have d: "upcs s t = U_done \<and> (\<forall>c. (t, c) \<in> set (lines s) \<longleftrightarrow> c \<le> 100)"
      if "pcs (bar s) runner = Recycling" "t \<in> users n" for t
    proof -
      have c: "client_ok n s" using j(2) a(2) by (simp add: live_ok_def)
      then have "all_done n s" using that(1) by (auto simp: client_ok_def run_ok_def split: rpc.splits)
      with c that(2) show ?thesis by (auto simp: all_done_def client_ok_def log_ok_def)
    qed
    from j(1) a(3) g d show ?thesis by auto
  qed
qed

text \<open>
  A schedule of the driver as it is, with two threads: the first is counted and gives back
  the lock; the second completes the round and returns; the first queues and sleeps; the
  second comes back for the next round and sleeps until the first leaves.
\<close>

fun test_exec :: "nat \<Rightarrow> action option list \<Rightarrow> btest \<Rightarrow> btest option" where
  "test_exec n [] s = Some s"
| "test_exec n (None # as) s = Option.bind (run_barriers bact n 0 s) (test_exec n as)"
| "test_exec n (Some a # as) s = Option.bind (pfunction bact a s) (test_exec n as)"

definition hang_schedule :: "action option list" where
  "hang_schedule = [None, None, None] @ map (Some \<circ> Run) [0, 0, 0, 1, 1, 1, 0, 1, 1, 1, 1]"

lemma test_exec_reach:
  "test_exec n as s = Some s' \<Longrightarrow> set as \<subseteq> insert None (Some ` Run ` users n) \<Longrightarrow> (test_run env bact n)\<^sup>*\<^sup>* s s'"
proof (induction n as s rule: test_exec.induct)
  case (2 n as s)
  then obtain u where u: "run_barriers bact n 0 s = Some u" "test_exec n as u = Some s'"
    by (auto simp: bind_eq_Some_conv)
  then have "test_run env bact n s u" by (auto intro: test_run.boss [where cret = 0])
  with 2 u show ?case by (simp add: converse_rtranclp_into_rtranclp)
next
  case (3 n a as s)
  then obtain u t where u: "pfunction bact a s = Some u" "test_exec n as u = Some s'" "a = Run t" "t \<in> users n"
    by (auto simp: bind_eq_Some_conv)
  then have "test_run env bact n s u" by (auto intro: test_run.user)
  with 3 u show ?case by (simp add: converse_rtranclp_into_rtranclp)
qed simp

text \<open>
  On the driver as it is the same program can hang: after that schedule both threads
  sleep in the queue, one in a round that is complete and one behind it, the runner waits
  for them, and no step is possible any more unless a signal arrives.
\<close>

lemma barrier_test_can_hang:
  "\<exists>s. (test_run calm bact 2)\<^sup>*\<^sup>* (run_start 2) s \<and> run_pc s = R_join 0
     \<and> pcs (bar s) 0 = Asleep Loop2 \<and> pcs (bar s) 1 = Asleep Loop1 \<and> draining (bar s)
     \<and> (\<nexists>s'. test_run calm bact 2 s s')"
proof -
  let ?s = "(run_start 2)\<lparr>bar := (fresh_bsys 2)\<lparr>bs := (bs (fresh_bsys 2))\<lparr>b_total := BARRIER_FLAG + 1,
      waitQ := [1, 0]\<rparr>, pcs := (\<lambda>_. Idle)(0 := Asleep Loop2, 1 := Asleep Loop1), arrivals := 2, departures := 1\<rparr>,
    upcs := (\<lambda>_. U_none)(0 := U_wait 1, 1 := U_wait 2), run_pc := R_join 0,
    lines := [(0, 0), (1, 0), (1, 1)]\<rparr>"
  have "test_exec 2 hang_schedule (run_start 2) = Some ?s"
    by (simp add: hang_schedule_def run_start_def run_barriers_def pfunction_def fresh_bsys_def bact_def
        goto_def run_lock_def run_loop1_def wait_section1_def wait_section2_def init_barrier_struct_def
        wake_up_here_def sleep_here_enqueue_def BARRIER_FLAG_def fun_eq_iff)
  then have "(test_run calm bact 2)\<^sup>*\<^sup>* (run_start 2) ?s"
    by (rule test_exec_reach) (auto simp: hang_schedule_def)
  moreover have "\<not> test_run calm bact 2 ?s s'" for s'
  proof
    assume "test_run calm bact 2 ?s s'"
    then show False
    proof cases
      case (user t a)
      then have "t = 0 \<or> t = 1" by auto
      with user show False by (auto simp: pfunction_def bact_def fresh_bsys_def)
    qed (simp add: run_barriers_def)
  qed
  ultimately show ?thesis by (intro exI [of _ ?s]) (simp add: BARRIER_FLAG_def)
qed

section \<open>Instances\<close>

theorem barrier_test_terminates_witness:
  "\<not> (\<exists>s. (prompt 5 ^^ 8115) (run_start 5) s) \<and> (\<exists>s'. prompt 5 (run_start 5) s')"
proof -
  have "\<not> (prompt 5 ^^ 8115) (run_start 5) s" for s
    using barrier_test_terminates [of 5 8115 s] by auto
  moreover have "pcs (bar (run_start 5)) runner \<noteq> Recycling" by (simp add: run_start_def fresh_bsys_def)
  then have "\<exists>s'. prompt 5 (run_start 5) s'"
    using barrier_test_terminates [of 5 0 "run_start 5"] by auto
  ultimately show ?thesis by blast
qed

end
