(* ===== verification/Barrier_Syscall.thy ===== *)
theory Barrier_Syscall
  imports Barrier
begin

text \<open>
  The system-call version of the barrier, \<open>04_barrier_driver_module/kern_backup/barrier.c\<close>
  (the file the patch of \<open>05_barrier_system_call\<close> adds to the kernel). The registry is the
  one of theory \<open>Barrier\<close>. Here \<open>do_barrier_wait\<close> and \<open>do_barrier_destroy\<close> are
  written with the loops of the source: what the other threads do to the barrier between
  giving back the lock for a sleep and taking it again is an argument, one function per
  sleep, and a call whose wake-ups run out has not returned (\<open>None\<close>). The theorems relate
  the loops to the critical sections that the other barrier theories interleave.
\<close>

section \<open>The loops\<close>

type_synonym wakeups = "(barrier_struct \<Rightarrow> barrier_struct) list"

text \<open>
  \<open>while (barrier->total > BARRIER_FLAG)\<close>, in \<open>do_barrier_wait\<close> and
  \<open>do_barrier_destroy\<close>: whether the loop was left, the barrier, the wake-ups not used.
\<close>

fun while_above :: "wakeups \<Rightarrow> barrier_struct \<Rightarrow> bool \<times> barrier_struct \<times> wakeups" where
  "while_above ws b =
     (if b_total b > BARRIER_FLAG
      then (case ws of [] \<Rightarrow> (False, b, []) | w # ws' \<Rightarrow> while_above ws' (w b))
      else (True, b, ws))"

text \<open>\<open>while (barrier->total < BARRIER_FLAG)\<close>.\<close>

fun while_below :: "wakeups \<Rightarrow> barrier_struct \<Rightarrow> bool \<times> barrier_struct \<times> wakeups" where
  "while_below ws b =
     (if b_total b < BARRIER_FLAG
      then (case ws of [] \<Rightarrow> (False, b, []) | w # ws' \<Rightarrow> while_below ws' (w b))
      else (True, b, ws))"

declare while_above.simps [simp del] while_below.simps [simp del]

definition do_barrier_wait :: "wakeups \<Rightarrow> barrier_struct \<Rightarrow> int option \<times> barrier_struct \<times> wakeups" where
  "do_barrier_wait ws b =
     (case while_above ws b of
        (False, b0, _) \<Rightarrow> (None, b0, [])
      | (True, b0, ws0) \<Rightarrow>
          let b1 = (if BARRIER_FLAG = b_total b0 then b0\<lparr>b_total := 0\<rparr> else b0);
              b2 = b1\<lparr>b_total := b_total b1 + 1\<rparr>
          in if b_total b2 = b_count b2
             then (Some 0, wake_up_here (b2\<lparr>b_total := b_total b2 + (BARRIER_FLAG - 1)\<rparr>), ws0)
             else
               (case while_below ws0 b2 of
                  (False, b3, _) \<Rightarrow> (None, b3, [])
                | (True, b3, ws1) \<Rightarrow>
                    let b4 = b3\<lparr>b_total := b_total b3 - 1\<rparr>
                    in if b_total b4 = BARRIER_FLAG then (Some 0, wake_up_here b4, ws1)
                       else (Some 0, b4, ws1)))"

text \<open>Iterating the critical sections of theory \<open>Barrier\<close> over the same wake-ups.\<close>

definition section_of :: "resume \<Rightarrow> barrier_struct \<Rightarrow> sysret \<times> barrier_struct" where
  "section_of r = (case r of Loop1 \<Rightarrow> wait_section1 | Loop2 \<Rightarrow> wait_section2
     | Drain \<Rightarrow> (\<lambda>b. (destroy_section b, b)))"

fun run_sections :: "resume \<Rightarrow> wakeups \<Rightarrow> barrier_struct \<Rightarrow> int option \<times> barrier_struct \<times> wakeups" where
  "run_sections r ws b =
     (case section_of r b of
        (Value v, b') \<Rightarrow> (Some v, b', ws)
      | (Sleeps r', b') \<Rightarrow>
          (case ws of [] \<Rightarrow> (None, b', []) | w # ws' \<Rightarrow> run_sections r' ws' (w b')))"

declare run_sections.simps [simp del]

section \<open>The system calls\<close>

text \<open>
  \<open>do_barrier_init\<close> differs from the driver's \<open>barrier_init\<close> only in its messages, so its
  registry part is shared. \<open>sys_barrier_init\<close> copies the id out: \<open>failed\<close> is the number of
  bytes \<open>copy_to_user\<close> could not write, \<open>um\<close> the caller's memory at the given address. The
  log line that follows reads the id back through the user pointer; \<open>mapped\<close> says whether
  that address can be read.
\<close>

definition do_barrier_init ::
  "pid_t \<times> pid_t \<Rightarrow> bool \<Rightarrow> bool \<Rightarrow> s32 \<Rightarrow> (int \<times> u32 option, barrier_mod) cmd" where
  "do_barrier_init current km1 km2 count =
     (if 0 > sint count then ret (- 1, None)
      else
        bnd (spin_lock G_tgid_list_lock) (\<lambda>_.
        bnd (get_ptgid_without_lock (fst current)) (\<lambda>ptgid.
        bnd (case ptgid of
               Some _ \<Rightarrow> ret ()
             | None \<Rightarrow>
                 if km1 then upd (\<lambda>st. st\<lparr>tgid_list := new_ptgid (fst current) # tgid_list st\<rparr>)
                 else crash NullDeref) (\<lambda>_.
        bnd (spin_unlock G_tgid_list_lock) (\<lambda>_.
        bnd (deref_ptgid (fst current)) (\<lambda>p.
        bnd (get_barrier_from_ptgid (Some (fst current)) (bid_count p)) (\<lambda>barrier.
          case barrier of
            Some _ \<Rightarrow> ret (- 1, None)
          | None \<Rightarrow>
              bnd (spin_lock (Barrier_head_lock (fst current))) (\<lambda>_.
              bnd (deref_ptgid (fst current)) (\<lambda>p.
              bnd (upd (upd_ptgid (fst current) (\<lambda>p. p\<lparr>bid_count := bid_count p + 1\<rparr>))) (\<lambda>_.
              if km2
              then
                bnd (upd (upd_ptgid (fst current) (\<lambda>q. q\<lparr>barrier_size := barrier_size q + 1,
                     barrier_head := init_barrier_struct current count (bid_count p) # barrier_head q\<rparr>)))
                  (\<lambda>_.
                bnd (spin_unlock (Barrier_head_lock (fst current))) (\<lambda>_.
                ret (0, Some (bid_count p))))
              else crash NullDeref))))))))))"

definition sys_barrier_init ::
  "pid_t \<times> pid_t \<Rightarrow> bool \<Rightarrow> bool \<Rightarrow> s32 \<Rightarrow> nat \<Rightarrow> bool \<Rightarrow> byte list \<Rightarrow> (int \<times> byte list, barrier_mod) cmd" where
  "sys_barrier_init current km1 km2 count failed mapped um =
     bnd (do_barrier_init current km1 km2 count) (\<lambda>(r, bid).
       if 0 > r then ret (r, um)
       else
         let i = (case bid of Some i \<Rightarrow> i | None \<Rightarrow> 0);
             um' = copy_to_user 0 (le32 i) failed um;
             r' = int failed
         in if 0 > r' then ret (r', um')
            else if mapped then ret (r', um') else crash PageFault)"

text \<open>
  \<open>sys_barrier_wait\<close> and \<open>sys_barrier_destroy\<close> look the barrier up, run the loops on
  it and put it back as the call leaves it; \<open>None\<close> is a call that is still asleep (the
  lock is given back in that case too).
\<close>

definition put_bar :: "pid_t \<times> u32 \<Rightarrow> barrier_struct \<Rightarrow> (unit, barrier_mod) cmd" where
  "put_bar pt b = upd (upd_ptgid (fst pt) (upd_bar (snd pt) (\<lambda>_. b)))"

definition sys_barrier_wait :: "pid_t \<times> pid_t \<Rightarrow> wakeups \<Rightarrow> u32 \<Rightarrow> (int option, barrier_mod) cmd" where
  "sys_barrier_wait current ws barrier_id =
     bnd (get_barrier_only_from_id current barrier_id) (\<lambda>barrier.
       case barrier of
         None \<Rightarrow> crash NullDeref
       | Some pt \<Rightarrow>
           bnd (deref_bar pt) (\<lambda>_.
           bnd (spin_lock (Lock_total (fst pt) (snd pt))) (\<lambda>_.
           bnd (deref_bar pt) (\<lambda>b.
             let (v, b', _) = do_barrier_wait ws b
             in bnd (put_bar pt b') (\<lambda>_.
                bnd (spin_unlock (Lock_total (fst pt) (snd pt))) (\<lambda>_.
                ret v))))))"

definition do_barrier_destroy :: "wakeups \<Rightarrow> pid_t \<times> u32 \<Rightarrow> (int option, barrier_mod) cmd" where
  "do_barrier_destroy ws pt =
     bnd (deref_bar pt) (\<lambda>_.
     bnd (spin_lock (Lock_total (fst pt) (snd pt))) (\<lambda>_.
     bnd (deref_bar pt) (\<lambda>b.
       let (left, b', _) = while_above ws b
       in bnd (put_bar pt b') (\<lambda>_.
          bnd (spin_unlock (Lock_total (fst pt) (snd pt))) (\<lambda>_.
          if left then bnd (destroy_recycle pt) (\<lambda>_. ret (Some 0)) else ret None)))))"

definition sys_barrier_destroy :: "pid_t \<times> pid_t \<Rightarrow> wakeups \<Rightarrow> u32 \<Rightarrow> (int option, barrier_mod) cmd" where
  "sys_barrier_destroy current ws barrier_id =
     bnd (get_ptgid (fst current)) (\<lambda>ptgid.
       case ptgid of
         None \<Rightarrow> ret (Some (- 1))
       | Some _ \<Rightarrow>
           bnd (get_barrier_from_ptgid ptgid barrier_id) (\<lambda>barrier.
             case barrier of
               None \<Rightarrow> ret (Some (- 1))
             | Some pt \<Rightarrow> do_barrier_destroy ws pt))"

section \<open>Loops and critical sections\<close>

lemma while_below_sections:
  "run_sections Loop2 ws b =
     (case while_below ws b of
        (False, b3, _) \<Rightarrow> (None, b3, [])
      | (True, b3, ws1) \<Rightarrow>
          let b4 = b3\<lparr>b_total := b_total b3 - 1\<rparr>
          in if b_total b4 = BARRIER_FLAG then (Some 0, wake_up_here b4, ws1) else (Some 0, b4, ws1))"
proof (induction ws arbitrary: b)
  case Nil
  show ?case
    by (auto simp: run_sections.simps [of Loop2 _ b] while_below.simps [of _ b] section_of_def
        wait_section2_def Let_def)
next
  case (Cons w ws)
  show ?case
    using Cons.IH [of "w b"]
    by (auto simp: run_sections.simps [of Loop2 _ b] while_below.simps [of _ b] section_of_def
        wait_section2_def Let_def)
qed

text \<open>A thread that is counted but not the last goes on as if it had just entered the second loop.\<close>

lemma enter_second_loop:
  assumes "\<not> b_total b > BARRIER_FLAG"
    and "b2 = b\<lparr>b_total := (if BARRIER_FLAG = b_total b then 0 else b_total b) + 1\<rparr>"
    and "b_total b2 \<noteq> b_count b2"
  shows "run_sections Loop1 ws b = run_sections Loop2 ws b2"
proof -
  have "section_of Loop1 b = section_of Loop2 b2"
    using assms by (auto simp: section_of_def wait_section1_def Let_def)
  then show ?thesis by (simp add: run_sections.simps [of Loop1] run_sections.simps [of Loop2])
qed

lemma wait_counted:
  assumes "\<not> b_total b > BARRIER_FLAG"
  shows "do_barrier_wait ws b = run_sections Loop1 ws b"
proof -
  let ?b2 = "b\<lparr>b_total := (if BARRIER_FLAG = b_total b then 0 else b_total b) + 1\<rparr>"
  show ?thesis
  proof (cases "b_total ?b2 = b_count ?b2")
    case True
    with assms show ?thesis
      by (auto simp: do_barrier_wait_def while_above.simps run_sections.simps [of Loop1]
          section_of_def wait_section1_def Let_def)
  next
    case False
    then have "do_barrier_wait ws b = run_sections Loop2 ws ?b2"
      using assms by (auto simp: do_barrier_wait_def while_above.simps while_below_sections Let_def)
    with enter_second_loop [OF assms refl False] show ?thesis by simp
  qed
qed

lemma do_barrier_wait_sections: "do_barrier_wait ws b = run_sections Loop1 ws b"
proof (induction ws arbitrary: b)
  case Nil
  show ?case
  proof (cases "b_total b > BARRIER_FLAG")
    case True
    then show ?thesis
      by (simp add: do_barrier_wait_def while_above.simps run_sections.simps section_of_def wait_section1_def)
  next
    case False
    then show ?thesis by (rule wait_counted)
  qed
next
  case (Cons w ws)
  show ?case
  proof (cases "b_total b > BARRIER_FLAG")
    case True
    then show ?thesis
      using Cons.IH [of "w b"]
      by (simp add: do_barrier_wait_def while_above.simps [of _ b] run_sections.simps [of _ _ b]
          section_of_def wait_section1_def)
  next
    case False
    then show ?thesis by (rule wait_counted)
  qed
qed

lemma while_above_sections:
  "while_above ws b = (let (v, b', ws') = run_sections Drain ws b in (v \<noteq> None, b', ws'))"
proof (induction ws arbitrary: b)
  case Nil
  show ?case
    by (simp add: while_above.simps run_sections.simps section_of_def destroy_section_def)
next
  case (Cons w ws)
  show ?case
    using Cons.IH [of "w b"]
    by (simp add: while_above.simps [of _ b] run_sections.simps [of _ _ b] section_of_def
        destroy_section_def)
qed

text \<open>The answer of a system call, from the driver's.\<close>

definition answer :: "sysret \<Rightarrow> int option" where
  "answer r = (case r of Value v \<Rightarrow> Some v | Sleeps _ \<Rightarrow> None)"

lemma first_section:
  "do_barrier_wait [] b = (answer (fst (wait_section1 b)), snd (wait_section1 b), [])"
  "while_above [] b = (destroy_section b = Value 0, b, [])"
  by (auto simp: do_barrier_wait_sections run_sections.simps section_of_def answer_def
      while_above.simps destroy_section_def split: prod.splits sysret.splits)

lemma do_barrier_init_same: "do_barrier_init = barrier_init"
  by (intro ext)
     (auto simp: do_barrier_init_def barrier_init_def Let_def run_simps get_ptgid_without_lock_def
       split: option.splits outcome.splits)

text \<open>\<open>barrier_init\<close> answers 0 with an id, or -1 without one.\<close>

lemma init_answers: "barrier_init current km1 km2 count st = Ret (r, bid) st' \<Longrightarrow> r = 0 \<and> bid \<noteq> None \<or> r = - 1 \<and> bid = None"
  by (auto simp: barrier_init_def Let_def bnd_def ret_def crash_def split: outcome.splits option.splits if_splits)

lemma recycle_value: "destroy_recycle pt st = Ret r st' \<Longrightarrow> r = Value 0"
  by (auto simp: destroy_recycle_def Let_def bnd_def ret_def split: outcome.splits)

section \<open>Properties\<close>

text \<open>
  (C38) The loops of \<open>do_barrier_wait\<close> and \<open>do_barrier_destroy\<close>, run to the end of any
  sequence of wake-ups, do what iterating the critical sections does: the same result (or
  the call still asleep), the same barrier, the same wake-ups consumed. What is proved of
  the interleaved critical sections is therefore about the loops of the source.
\<close>

theorem syscall_loops_are_sections:
  "do_barrier_wait ws b = run_sections Loop1 ws b
   \<and> while_above ws b = (let (v, b', ws') = run_sections Drain ws b in (v \<noteq> None, b', ws'))"
  by (simp add: do_barrier_wait_sections while_above_sections)

text \<open>
  (C39) Where the system calls and the driver agree, on a well-formed registry. A \<open>sys_barrier_init\<close> whose id can be
  copied to the caller returns what the driver's \<open>barrier_init\<close> returns, leaves the same registry (or hits the same fault) and writes the driver's id to
  the caller; nothing is claimed when the copy fails, where the answers differ. Waiting and destroying give the same answer and
  leave the same registry (or hit the same fault) as the driver's operations do up to their first sleep, a call that sleeps having no answer yet.
  For any sequence of wake-ups, waiting on an existing barrier is the driver's critical sections run one after the other on that barrier.
  (The lookups and the recycling are the same text in both files and the same definitions here; the loops and the calls are not.)
\<close>

theorem syscall_agrees_with_driver:
  assumes "reg_inv st"
  shows "sys_barrier_init current km1 km2 count 0 True um st =
        (case barrier_init current km1 km2 count st of
           Ret (r, bid) st' \<Rightarrow> Ret (r, case bid of None \<Rightarrow> um | Some k \<Rightarrow> copy_to_user 0 (le32 k) 0 um) st'
         | Oops f st' \<Rightarrow> Oops f st')
    \<and> sys_barrier_wait current [] i st =
        (case barrier_wait current i st of Ret r st' \<Rightarrow> Ret (answer r) st' | Oops f st' \<Rightarrow> Oops f st')
    \<and> sys_barrier_destroy current [] i st =
        (case barrier_destroy current i st of Ret r st' \<Rightarrow> Ret (answer r) st' | Oops f st' \<Rightarrow> Oops f st')
    \<and> (bar_at st (fst current, i) = Some b \<and> run_sections Loop1 ws b = (v, b', ws') \<longrightarrow>
        sys_barrier_wait current ws i st = Ret v (upd_ptgid (fst current) (upd_bar i (\<lambda>_. b')) st))"
proof (intro conjI impI)
  note h = reg_invD(1) [OF assms]
  show "sys_barrier_init current km1 km2 count 0 True um st =
      (case barrier_init current km1 km2 count st of
         Ret (r, bid) st' \<Rightarrow> Ret (r, case bid of None \<Rightarrow> um | Some k \<Rightarrow> copy_to_user 0 (le32 k) 0 um) st'
       | Oops f st' \<Rightarrow> Oops f st')"
    using init_answers [of current km1 km2 count st]
    by (auto simp: sys_barrier_init_def do_barrier_init_same run_simps split: outcome.splits)
  show "sys_barrier_wait current [] i st =
      (case barrier_wait current i st of Ret r st' \<Rightarrow> Ret (answer r) st' | Oops f st' \<Rightarrow> Oops f st')"
    using h
    by (auto simp: first_section sys_barrier_wait_def barrier_wait_def run_simps run_section_def put_bar_def
        get_barrier_only_from_id_eq [OF assms] deref_bar_eq held_same Let_def
        split: option.splits prod.splits)
  show "sys_barrier_destroy current [] i st =
      (case barrier_destroy current i st of Ret r st' \<Rightarrow> Ret (answer r) st' | Oops f st' \<Rightarrow> Oops f st')"
    using h
    by (auto simp: first_section sys_barrier_destroy_def barrier_destroy_def run_simps run_section_def put_bar_def
        do_barrier_destroy_def destroy_loop_def answer_def destroy_section_def
        get_ptgid_eq [OF assms] deref_bar_eq held_same Let_def
        split: option.splits prod.splits outcome.splits sysret.splits dest: recycle_value)
  assume "bar_at st (fst current, i) = Some b \<and> run_sections Loop1 ws b = (v, b', ws')"
  then show "sys_barrier_wait current ws i st = Ret v (upd_ptgid (fst current) (upd_bar i (\<lambda>_. b')) st)"
    using h by (simp add: sys_barrier_wait_def do_barrier_wait_sections run_simps put_bar_def
        get_barrier_only_from_id_eq [OF assms] deref_bar_eq held_same Let_def)
qed

theorem syscall_agrees_with_driver_witness:
  "sys_barrier_wait (7, 8) [] 5 boot = Oops NullDeref boot
   \<and> (\<exists>st'. sys_barrier_wait (7, 8) [] 0 one_barrier = Ret None st')"
proof -
  have w: "\<exists>st'. barrier_wait (7, 8) 0 one_barrier = Ret (Sleeps Loop2) st'"
    using wait_spec [OF one_barrier_inv, of "(7, 8)" 0]
    by (auto simp: wait_section1_def wait_section2_def init_barrier_struct_def BARRIER_FLAG_def)
  show ?thesis
    using syscall_agrees_with_driver [OF boot_inv, of "(7, 8)" True True 1 "[]" 5]
      syscall_agrees_with_driver [OF one_barrier_inv, of "(7, 8)" True True 1 "[]" 0] w
    by (auto simp: wait_unknown answer_def)
qed

text \<open>
  What \<open>sys_barrier_init\<close> returns when a barrier is made: the number of bytes of the
  id that could not be written to the caller, which is never negative, so the check that
  follows the copy never fires. With nothing left out the caller finds the id at its
  address and the result is 0; with a bad address the result is a positive number, and the
  barrier, whose id the caller does not learn, stays registered.
\<close>

lemma sys_barrier_init_result:
  assumes "reg_inv st" and "0 \<le> sint count"
    and "bar_at st (fst current, next_bid st (fst current)) = None" and "4 \<le> length um"
  shows "\<exists>um' st'. sys_barrier_init current True True count failed True um st = Ret (int failed, um') st'
    \<and> reg_inv st' \<and> bar_at st' (fst current, next_bid st (fst current)) \<noteq> None
    \<and> (failed = 0 \<longrightarrow> of_le32 (take 4 um') = next_bid st (fst current) \<and> drop 4 um' = drop 4 um)
    \<and> (4 \<le> failed \<longrightarrow> um' = um)"
proof -
  let ?i = "next_bid st (fst current)"
  from init_spec [OF assms(1-3)] obtain st' where
    st': "barrier_init current True True count st = Ret (0, Some ?i) st'" "reg_inv st'"
      "bar_at st' (fst current, ?i) \<noteq> None" by auto
  let ?um = "copy_to_user 0 (le32 ?i) failed um"
  have "sys_barrier_init current True True count failed True um st = Ret (int failed, ?um) st'"
    by (simp add: sys_barrier_init_def do_barrier_init_same run_simps st'(1) Let_def)
  moreover have "of_le32 (take 4 ?um) = ?i" "drop 4 ?um = drop 4 um" if "failed = 0"
    using that assms(4) by (simp_all add: copy_to_user_def Let_def)
  moreover have "?um = um" if "4 \<le> failed"
    using that by (simp add: copy_to_user_def Let_def)
  ultimately show ?thesis using st' by (intro exI [of _ ?um] exI [of _ st']) auto
qed

lemma sys_barrier_init_result_example:
  "\<exists>um' st'. sys_barrier_init (7, 8) True True 2 0 True [9, 9, 9, 9] boot = Ret (0, um') st'
     \<and> of_le32 (take 4 um') = 0"
  using sys_barrier_init_result [OF boot_inv, of 2 "(7, 8)" "[9, 9, 9, 9]" 0]
  by auto

end
