(* ===== verification/Barrier_Main.thy ===== *)
theory Barrier_Main
  imports Barrier_Test_Live Barrier_Syscall
begin

text \<open>
  The rest of \<open>barrier_test\<close>: the library functions of \<open>barrier_user_sys.h\<close> in their two
  builds (module and system calls), and \<open>main\<close> with the processes it forks. The barriers of
  different processes, and of different calls of \<open>run_barriers\<close>, do not share anything the
  threads wait for, so the program is a family of runs of \<open>Barrier_Test\<close> side by side.
\<close>

section \<open>The library functions\<close>

text \<open>
  The module build: the result of the ioctl is dropped, and the id is read from a variable
  the driver writes only when it succeeds (\<open>junk\<close> is what the variable held).
\<close>

definition lib_barrier_init ::
  "u32 \<Rightarrow> pid_t \<times> pid_t \<Rightarrow> bool \<Rightarrow> bool \<Rightarrow> u32 \<Rightarrow> s32 \<Rightarrow> (int \<times> u32, barrier_mod) cmd" where
  "lib_barrier_init ps current km1 km2 junk count =
     bnd (eosi_barrier_ioctl ps current km1 km2 (BARRIER_INIT ps) 0 count) (\<lambda>(_, bid).
     ret (0, case bid of None \<Rightarrow> junk | Some i \<Rightarrow> i))"

text \<open>A call that sleeps has not returned yet; otherwise the result is 0 in any case.\<close>

definition lib_barrier_wait :: "u32 \<Rightarrow> pid_t \<times> pid_t \<Rightarrow> u32 \<Rightarrow> (sysret, barrier_mod) cmd" where
  "lib_barrier_wait ps current barrier_id =
     bnd (eosi_barrier_ioctl ps current True True (BARRIER_WAIT ps) barrier_id 0) (\<lambda>(r, _).
     ret (case r of Sleeps w \<Rightarrow> Sleeps w | Value _ \<Rightarrow> Value 0))"

definition lib_barrier_destroy :: "u32 \<Rightarrow> pid_t \<times> pid_t \<Rightarrow> u32 \<Rightarrow> (sysret, barrier_mod) cmd" where
  "lib_barrier_destroy ps current barrier_id =
     bnd (eosi_barrier_ioctl ps current True True (BARRIER_DESTROY ps) barrier_id 0) (\<lambda>(r, _).
     ret (case r of Sleeps w \<Rightarrow> Sleeps w | Value _ \<Rightarrow> Value 0))"

text \<open>The system-call build passes the calls on; a negative result becomes \<open>-1\<close> in \<open>syscall\<close>.\<close>

definition syscall_result :: "int \<Rightarrow> int" where
  "syscall_result r = (if r < 0 then - 1 else r)"

definition lib_sys_barrier_init ::
  "pid_t \<times> pid_t \<Rightarrow> bool \<Rightarrow> bool \<Rightarrow> s32 \<Rightarrow> byte list \<Rightarrow> (int \<times> byte list, barrier_mod) cmd" where
  "lib_sys_barrier_init current km1 km2 count um =
     bnd (sys_barrier_init current km1 km2 count 0 True um) (\<lambda>(r, um'). ret (syscall_result r, um'))"

definition lib_sys_barrier_wait ::
  "pid_t \<times> pid_t \<Rightarrow> wakeups \<Rightarrow> u32 \<Rightarrow> (int option, barrier_mod) cmd" where
  "lib_sys_barrier_wait current ws barrier_id =
     bnd (sys_barrier_wait current ws barrier_id) (\<lambda>r. ret (map_option syscall_result r))"

definition lib_sys_barrier_destroy ::
  "pid_t \<times> pid_t \<Rightarrow> wakeups \<Rightarrow> u32 \<Rightarrow> (int option, barrier_mod) cmd" where
  "lib_sys_barrier_destroy current ws barrier_id =
     bnd (sys_barrier_destroy current ws barrier_id) (\<lambda>r. ret (map_option syscall_result r))"

section \<open>The program\<close>

text \<open>The numbers of threads of the calls of \<open>run_barriers\<close> a process starts.\<close>

definition fork_run :: "nat list" where "fork_run = [5, 20]"
definition dev_run :: "nat list" where "dev_run = [3]"
definition dev_run2 :: "nat list" where "dev_run2 = [2]"
definition dev_run3 :: "nat list" where "dev_run3 = [2, 2]"

datatype message = Default_sleep u32 | Given_sleep u32 | At_most_one

text \<open>
  \<open>main\<close>: what it prints about its argument, the sleeping time, and the processes it forks,
  each with its calls of \<open>run_barriers\<close>. \<open>atoi\<close> is the value of the argument.
\<close>

definition main_forks :: "nat \<Rightarrow> u32 \<Rightarrow> message option \<times> u32 \<times> nat list list" where
  "main_forks argc atoi =
     (if argc = 1 then (Some (Default_sleep 50), 50, [fork_run, fork_run])
      else if argc = 2 then (Some (Given_sleep atoi), atoi, [fork_run, fork_run])
      else if 2 < argc then (Some At_most_one, 50, [])
      else (None, 50, [fork_run, fork_run]))"

text \<open>All the runs side by side; a step is a step of one of them.\<close>

inductive side_by_side :: "service \<Rightarrow> nat list \<Rightarrow> btest list \<Rightarrow> btest list \<Rightarrow> bool" for act ns where
  "i < length ns \<Longrightarrow> test_run calm act (ns ! i) (ss ! i) s' \<Longrightarrow> side_by_side act ns ss (ss[i := s'])"

inductive_simps side_by_side_iff: "side_by_side act ns ss ss'"

definition all_live :: "nat list \<Rightarrow> btest list \<Rightarrow> bool" where
  "all_live ns ss \<longleftrightarrow> list_all2 live_ok ns ss"

definition all_work :: "nat list \<Rightarrow> btest list \<Rightarrow> nat" where
  "all_work ns ss = (\<Sum>i < length ns. work_left (ns ! i) (ss ! i))"

lemma side_live: "all_live ns ss \<Longrightarrow> side_by_side bact_atomic ns ss ss' \<Longrightarrow> all_live ns ss'"
  unfolding all_live_def side_by_side_iff
  by (auto simp: list_all2_conv_all_nth nth_list_update) (metis live_step)

lemma side_work:
  assumes "all_live ns ss" and "side_by_side bact_atomic ns ss ss'"
  shows "all_work ns ss' < all_work ns ss"
proof -
  from assms(2) obtain i s' where i: "i < length ns" "test_run calm bact_atomic (ns ! i) (ss ! i) s'" "ss' = ss[i := s']"
    by (auto simp: side_by_side_iff)
  have l: "length ss = length ns" "live_ok (ns ! i) (ss ! i)"
    using assms(1) i(1) by (auto simp: all_live_def list_all2_conv_all_nth)
  have w: "work_left (ns ! i) s' < work_left (ns ! i) (ss ! i)" using work_step [OF l(2) i(2)] .
  have "work_left (ns ! j) (ss' ! j) \<le> work_left (ns ! j) (ss ! j)" if "j < length ns" for j
    using w i l that by (cases "j = i") auto
  moreover have "work_left (ns ! i) (ss' ! i) < work_left (ns ! i) (ss ! i)" using w i l by simp
  ultimately show ?thesis
    unfolding all_work_def using i(1) by (intro sum_strict_mono_ex1) auto
qed

lemma side_start:
  assumes "\<forall>n \<in> set ns. 0 < n \<and> n < 2 ^ 31"
  shows "all_live ns (map run_start ns)" and "all_work ns (map run_start ns) = (\<Sum>n \<leftarrow> ns. 810 * n + 7)"
proof -
  show "all_live ns (map run_start ns)"
    using assms by (auto simp: all_live_def list_all2_conv_all_nth live_start)
  have "work_left n (run_start n) = 810 * n + 7" for n
    by (simp add: work_left_def run_start_def place_rank_def)
  then show "all_work ns (map run_start ns) = (\<Sum>n \<leftarrow> ns. 810 * n + 7)"
    by (simp add: all_work_def sum_list_sum_nth atLeast0LessThan)
qed

lemma side_steps:
  assumes "\<forall>n \<in> set ns. 0 < n \<and> n < 2 ^ 31" and "(side_by_side bact_atomic ns ^^ k) (map run_start ns) ss"
  shows "k + all_work ns ss \<le> (\<Sum>n \<leftarrow> ns. 810 * n + 7) \<and> all_live ns ss"
  using assms(2)
proof (induction k arbitrary: ss)
  case 0
  then have "ss = map run_start ns" by simp
  then show ?case using side_start [OF assms(1)] by simp
next
  case (Suc k)
  then obtain rs where r: "(side_by_side bact_atomic ns ^^ k) (map run_start ns) rs" "side_by_side bact_atomic ns rs ss" by auto
  from Suc.IH [OF r(1)] side_work [OF _ r(2)] side_live [OF _ r(2)] show ?case by fastforce
qed

section \<open>What they do\<close>

text \<open>
  Started with at most one argument, the whole program (two processes with a barrier of 5
  and one of 20 threads each) comes to its end on the driver without the window: no
  schedule has more than 40528 steps, and while a call of \<open>run_barriers\<close> has not returned,
  some thread can go on.
\<close>

lemma barrier_main_terminates:
  assumes "argc = 1 \<or> argc = 2" and "ns = concat (snd (snd (main_forks argc atoi)))"
    and "(side_by_side bact_atomic ns ^^ k) (map run_start ns) ss"
  shows "k \<le> 40528 \<and> (list_all (\<lambda>s. run_pc s = R_end) ss \<or> (\<exists>ss'. side_by_side bact_atomic ns ss ss'))"
proof -
  have ns: "ns = [5, 20, 5, 20]" using assms(1,2) by (auto simp: main_forks_def fork_run_def)
  then have "\<forall>n \<in> set ns. 0 < n \<and> n < 2 ^ 31" by simp
  from side_steps [OF this assms(3)] have s: "k \<le> 40528" "all_live ns ss" by (auto simp: ns)
  have "\<exists>ss'. side_by_side bact_atomic ns ss ss'" if "\<not> list_all (\<lambda>s. run_pc s = R_end) ss"
  proof -
    from that obtain i where i: "i < length ss" "run_pc (ss ! i) \<noteq> R_end" by (auto simp: list_all_length)
    have l: "length ss = length ns" "live_ok (ns ! i) (ss ! i)"
      using s(2) i(1) by (auto simp: all_live_def list_all2_conv_all_nth)
    from live_progress [OF l(2) i(2)] i(1) l(1) show ?thesis by (metis side_by_side.intros)
  qed
  with s(1) show ?thesis by blast
qed

lemma barrier_main_terminates_example:
  "\<not> (\<exists>ss. (side_by_side bact_atomic [5, 20, 5, 20] ^^ 40529) (map run_start [5, 20, 5, 20]) ss)"
proof -
  have "[5, 20, 5, 20] = concat (snd (snd (main_forks 1 0)))" by (simp add: main_forks_def fork_run_def)
  from barrier_main_terminates [OF _ this, of 40529] show ?thesis by fastforce
qed

text \<open>
  The module build hides errors: a negative number of threads is refused by the driver, but
  \<open>barrier_init\<close> of the library returns 0 and hands out whatever the variable contained; the
  system-call build returns \<open>-1\<close>.
\<close>

lemma lib_init_hides_errors:
  assumes "sint count < 0"
  shows "lib_barrier_init ps current km1 km2 junk count st = Ret (0, junk) st"
    and "lib_sys_barrier_init current km1 km2 count um st = Ret (- 1, um) st"
  using assms
  by (simp_all add: lib_barrier_init_def eosi_barrier_ioctl_def barrier_init_def lib_sys_barrier_init_def
      sys_barrier_init_def do_barrier_init_def syscall_result_def run_simps)

end
