(* ===== verification/Barrier_Race.thy ===== *)
theory Barrier_Race
  imports Barrier
begin

text \<open>
  The whole barrier driver \<open>eosi_barrier.c\<close> with any number of threads of any number of
  processes in its three operations at once. Blocks have addresses, a freed block is gone,
  and every critical section and every unprotected access is a step of its own. Shown: which
  use of the driver is free of faults, that in such a use the driver simulates a table of
  barriers with atomic operations, and the races of the driver: a \<open>barrier_init\<close>
  that fails for no reason, and uses of a block or a barrier that another thread has freed.
  The sleeping and waking inside \<open>barrier_wait\<close> is that of \<open>Barrier_Wait\<close>; here a thread that
  sleeps may look at the barrier again at any time (the sleep is interruptible).
  Log output is left out, except where it reads a barrier after the lock has been given back:
  the last lines of \<open>barrier_init\<close> and of \<open>barrier_wait\<close> are steps of their own, which fault when
  the barrier is gone.
\<close>

section \<open>State\<close>

text \<open>A thread is given by its process id and its own id.\<close>

type_synonym thread = "pid_t \<times> pid_t"

text \<open>The per-process block; barriers are known by their addresses, the lock by its owner.\<close>

record ptblock =
  r_tgid :: pid_t
  r_count :: u32
  r_size :: int
  r_head :: "nat list"
  r_lock :: "thread option"

datatype call = Init s32 | Wait u32 | Destroy u32

text \<open>
  Where a thread is: the section it will run next, with the pointers and values it holds.
  \<open>I_log\<close> and \<open>W_log\<close>: the lock is given back, and the barrier is read once more for the log.
  \<open>Back\<close>: the call has returned, \<open>barrier_init\<close> with the id.
\<close>

datatype place =
    Outside
  | I_find s32 | I_read nat s32 | I_dup nat s32 u32 | I_link nat s32 | I_log nat u32
  | W_find u32 | W_look nat u32 | W_sec resume nat u32 | W_log nat u32 int
  | D_find u32 | D_look nat u32 | D_drain nat nat u32 | D_recycle nat nat u32
  | D_unlink nat | D_free nat | D_unlock nat
  | Back int "u32 option"

record dsys =
  blk :: "nat \<Rightarrow> ptblock option"
  bar :: "nat \<Rightarrow> barrier_struct option"
  unused :: nat
  glist :: "nat list"
  place :: "thread \<Rightarrow> place"
  fault_of :: "fault option"

section \<open>Steps\<close>

definition go :: "thread \<Rightarrow> place \<Rightarrow> dsys \<Rightarrow> dsys" where
  "go t l s = s\<lparr>place := (place s)(t := l)\<rparr>"

definition die :: "fault \<Rightarrow> dsys \<Rightarrow> dsys" where
  "die e s = s\<lparr>fault_of := Some e\<rparr>"

text \<open>The walk along \<open>tgid_list\<close>, and the walk along the barriers of a block.\<close>

definition find_block :: "pid_t \<Rightarrow> dsys \<Rightarrow> nat option" where
  "find_block tg s = find (\<lambda>p. map_option r_tgid (blk s p) = Some tg) (glist s)"

definition find_barrier :: "ptblock \<Rightarrow> u32 \<Rightarrow> dsys \<Rightarrow> nat option" where
  "find_barrier q i s = find (\<lambda>a. map_option b_id (bar s a) = Some i) (r_head q)"

text \<open>
  A section under \<open>barrier_head_lock\<close> of the block at \<open>p\<close>: a freed block is a fault, a lock
  that is taken makes the thread wait.
\<close>

definition under_head :: "nat \<Rightarrow> (ptblock \<Rightarrow> dsys) \<Rightarrow> dsys \<Rightarrow> dsys option" where
  "under_head p f s =
    (case blk s p of
       None \<Rightarrow> Some (die UseAfterFree s)
     | Some q \<Rightarrow> if r_lock q \<noteq> None then None else Some (f q))"

definition new_block :: "pid_t \<Rightarrow> ptblock" where
  "new_block tg = \<lparr>r_tgid = tg, r_count = 0, r_size = 0, r_head = [], r_lock = None\<rparr>"

text \<open>\<open>barrier_init\<close>: find or make the block, read the counter, look for a duplicate, link.\<close>

definition init_find :: "bool \<Rightarrow> thread \<Rightarrow> s32 \<Rightarrow> dsys \<Rightarrow> dsys" where
  "init_find km t c s =
    (case find_block (fst t) s of
       Some p \<Rightarrow> go t (I_read p c) s
     | None \<Rightarrow>
         if km
         then go t (I_read (unused s) c)
           (s\<lparr>blk := (blk s)(unused s \<mapsto> new_block (fst t)), glist := unused s # glist s,
              unused := Suc (unused s)\<rparr>)
         else die NullDeref s)"

definition init_link :: "bool \<Rightarrow> thread \<Rightarrow> nat \<Rightarrow> s32 \<Rightarrow> ptblock \<Rightarrow> dsys \<Rightarrow> dsys" where
  "init_link km t p c q s =
    (let q1 = q\<lparr>r_count := r_count q + 1\<rparr> in
     if \<not> km then die NullDeref (s\<lparr>blk := (blk s)(p \<mapsto> q1)\<rparr>)
     else go t (I_log (unused s) (r_count q))
       (s\<lparr>bar := (bar s)(unused s \<mapsto> init_barrier_struct t c (r_count q)),
          blk := (blk s)(p \<mapsto> q1\<lparr>r_size := r_size q + 1, r_head := unused s # r_head q\<rparr>),
          unused := Suc (unused s)\<rparr>))"

text \<open>
  \<open>barrier_destroy\<close>, recycling: the barrier is unlinked and freed; the lock is kept when it
  was the last one.
\<close>

definition destroy_unlink :: "thread \<Rightarrow> nat \<Rightarrow> nat \<Rightarrow> ptblock \<Rightarrow> dsys \<Rightarrow> dsys" where
  "destroy_unlink t p a q s =
    (if bar s a = None then die UseAfterFree s
     else
       let q1 = q\<lparr>r_head := remove1 a (r_head q), r_size := r_size q - 1\<rparr>; s1 = s\<lparr>bar := (bar s)(a := None)\<rparr> in
       if r_size q1 = 0 then go t (D_unlink p) (s1\<lparr>blk := (blk s)(p \<mapsto> q1\<lparr>r_lock := Some t\<rparr>)\<rparr>)
       else go t (Back 0 None) (s1\<lparr>blk := (blk s)(p \<mapsto> q1)\<rparr>))"

text \<open>The next step of a thread that is in a call; \<open>km\<close>: an allocation succeeds.\<close>

definition race_exec :: "bool \<Rightarrow> thread \<Rightarrow> dsys \<Rightarrow> dsys option" where
  "race_exec km t s =
    (if fault_of s \<noteq> None then None else
     case place s t of
       Outside \<Rightarrow> None
     | I_find c \<Rightarrow> Some (init_find km t c s)
     | I_read p c \<Rightarrow>
         Some (case blk s p of None \<Rightarrow> die UseAfterFree s | Some q \<Rightarrow> go t (I_dup p c (r_count q)) s)
     | I_dup p c i \<Rightarrow>
         under_head p (\<lambda>q. go t (if find_barrier q i s \<noteq> None then Back (- 1) None else I_link p c) s) s
     | I_link p c \<Rightarrow> under_head p (\<lambda>q. init_link km t p c q s) s
     | I_log a i \<Rightarrow> Some (if bar s a = None then die UseAfterFree s else go t (Back 0 (Some i)) s)
     | W_find i \<Rightarrow>
         Some (case find_block (fst t) s of None \<Rightarrow> die NullDeref s | Some p \<Rightarrow> go t (W_look p i) s)
     | W_look p i \<Rightarrow>
         under_head p (\<lambda>q.
           case find_barrier q i s of None \<Rightarrow> die NullDeref s | Some a \<Rightarrow> go t (W_sec Loop1 a i) s) s
     | W_sec r a i \<Rightarrow>
         Some (case bar s a of
             None \<Rightarrow> die UseAfterFree s
           | Some b \<Rightarrow>
               (case (if r = Loop1 then wait_section1 b else wait_section2 b) of
                  (Value v, b') \<Rightarrow> go t (W_log a i v) (s\<lparr>bar := (bar s)(a \<mapsto> b')\<rparr>)
                | (Sleeps r', b') \<Rightarrow> go t (W_sec r' a i) (s\<lparr>bar := (bar s)(a \<mapsto> b')\<rparr>)))
     | W_log a i v \<Rightarrow> Some (if bar s a = None then die UseAfterFree s else go t (Back v None) s)
     | D_find i \<Rightarrow>
         Some (case find_block (fst t) s of None \<Rightarrow> go t (Back (- 1) None) s | Some p \<Rightarrow> go t (D_look p i) s)
     | D_look p i \<Rightarrow>
         under_head p (\<lambda>q.
           case find_barrier q i s of None \<Rightarrow> go t (Back (- 1) None) s | Some a \<Rightarrow> go t (D_drain p a i) s) s
     | D_drain p a i \<Rightarrow>
         Some (case bar s a of
             None \<Rightarrow> die UseAfterFree s
           | Some b \<Rightarrow> if destroy_section b = Sleeps Drain then s else go t (D_recycle p a i) s)
     | D_recycle p a i \<Rightarrow> under_head p (\<lambda>q. destroy_unlink t p a q s) s
     | D_unlink p \<Rightarrow>
         Some (if blk s p = None then die UseAfterFree s
               else go t (D_free p) (s\<lparr>glist := remove1 p (glist s)\<rparr>))
     | D_free p \<Rightarrow>
         Some (if blk s p = None then die UseAfterFree s else go t (D_unlock p) (s\<lparr>blk := (blk s)(p := None)\<rparr>))
     | D_unlock p \<Rightarrow>
         Some (case blk s p of
             None \<Rightarrow> die UseAfterFree s
           | Some q \<Rightarrow> go t (Back 0 None) (s\<lparr>blk := (blk s)(p \<mapsto> q\<lparr>r_lock := None\<rparr>)\<rparr>))
     | Back v i \<Rightarrow> None)"

text \<open>A thread that is in no call makes one.\<close>

definition call_place :: "call \<Rightarrow> place" where
  "call_place op =
    (case op of
       Init c \<Rightarrow> if 0 > sint c then Back (- 1) None else I_find c
     | Wait i \<Rightarrow> W_find i
     | Destroy i \<Rightarrow> D_find i)"

definition idle :: "thread \<Rightarrow> dsys \<Rightarrow> bool" where
  "idle t s \<longleftrightarrow> (case place s t of Outside \<Rightarrow> True | Back _ _ \<Rightarrow> True | _ \<Rightarrow> False)"

definition empty_dsys :: dsys where
  "empty_dsys = \<lparr>blk = (\<lambda>_. None), bar = (\<lambda>_. None), unused = 0, glist = [], place = (\<lambda>_. Outside),
     fault_of = None\<rparr>"

inductive race_step :: "dsys \<Rightarrow> dsys \<Rightarrow> bool" where
  Enter: "fault_of s = None \<Longrightarrow> idle t s \<Longrightarrow> race_step s (go t (call_place op) s)"
| Proceed: "race_exec km t s = Some s' \<Longrightarrow> race_step s s'"

section \<open>A careful use of the driver\<close>

definition destroying :: "dsys \<Rightarrow> thread \<Rightarrow> u32 \<Rightarrow> bool" where
  "destroying s t i \<longleftrightarrow>
    (case place s t of D_find j \<Rightarrow> j = i | D_look _ j \<Rightarrow> j = i | D_drain _ _ j \<Rightarrow> j = i | D_recycle _ _ j \<Rightarrow> j = i
     | _ \<Rightarrow> False)"

text \<open>
  The thread is in a call that reads this barrier: a wait on it, or the \<open>barrier_init\<close> that made
  it and has not returned.
\<close>

definition busy_on :: "dsys \<Rightarrow> thread \<Rightarrow> u32 \<Rightarrow> bool" where
  "busy_on s t i \<longleftrightarrow>
    (case place s t of I_log _ j \<Rightarrow> j = i | W_find j \<Rightarrow> j = i | W_look _ j \<Rightarrow> j = i | W_sec _ _ j \<Rightarrow> j = i
     | W_log _ j _ \<Rightarrow> j = i | _ \<Rightarrow> False)"

text \<open>The thread is in \<open>barrier_init\<close> and has not linked its barrier.\<close>

fun creating :: "place \<Rightarrow> bool" where
  "creating (I_find _) = True"
| "creating (I_read _ _) = True"
| "creating (I_dup _ _ _) = True"
| "creating (I_link _ _) = True"
| "creating _ = False"

text \<open>The process has been given this id.\<close>

definition given :: "dsys \<Rightarrow> pid_t \<Rightarrow> u32 \<Rightarrow> bool" where
  "given s tg i \<longleftrightarrow> (\<exists>p q. blk s p = Some q \<and> r_tgid q = tg \<and> i < r_count q)"

text \<open>The process has a barrier with this id.\<close>

definition present :: "dsys \<Rightarrow> pid_t \<Rightarrow> u32 \<Rightarrow> bool" where
  "present s tg i \<longleftrightarrow> (\<exists>p q a b. blk s p = Some q \<and> r_tgid q = tg \<and> a \<in> set (r_head q) \<and> bar s a = Some b \<and> b_id b = i)"

text \<open>
  The calls a careful program makes: it waits on a barrier that exists and that no thread is
  destroying; it destroys a barrier that no other call uses, a \<open>barrier_init\<close> that has not
  returned included, and always keeps another one that nobody is destroying; and it does not
  destroy an id it has not been given while it creates barriers.
\<close>

definition careful :: "dsys \<Rightarrow> thread \<Rightarrow> call \<Rightarrow> bool" where
  "careful s t op \<longleftrightarrow>
    (case op of
       Init c \<Rightarrow> (\<forall>t' i. fst t' = fst t \<longrightarrow> destroying s t' i \<longrightarrow> given s (fst t) i)
     | Wait i \<Rightarrow> present s (fst t) i \<and> (\<forall>t'. fst t' = fst t \<longrightarrow> \<not> destroying s t' i)
     | Destroy i \<Rightarrow> (\<forall>t'. fst t' = fst t \<longrightarrow> \<not> destroying s t' i \<and> \<not> busy_on s t' i)
         \<and> (\<exists>j. j \<noteq> i \<and> present s (fst t) j \<and> (\<forall>t'. fst t' = fst t \<longrightarrow> \<not> destroying s t' j))
         \<and> (given s (fst t) i \<or> (\<forall>t'. fst t' = fst t \<longrightarrow> \<not> creating (place s t'))))"

text \<open>No process has used up its barrier ids.\<close>

definition ids_left :: "dsys \<Rightarrow> bool" where
  "ids_left s \<longleftrightarrow> (\<forall>p q. blk s p = Some q \<longrightarrow> r_count q \<noteq> - 1)"

inductive careful_step :: "dsys \<Rightarrow> dsys \<Rightarrow> bool" where
  Enter: "idle t s \<Longrightarrow> careful s t op \<Longrightarrow> careful_step s (go t (call_place op) s)"
| Proceed: "ids_left s \<Longrightarrow> race_exec True t s = Some s' \<Longrightarrow> careful_step s s'"

section \<open>The invariant of a careful use\<close>

fun destr :: "place \<Rightarrow> u32 \<Rightarrow> bool" where
  "destr (D_find j) i = (j = i)"
| "destr (D_look _ j) i = (j = i)"
| "destr (D_drain _ _ j) i = (j = i)"
| "destr (D_recycle _ _ j) i = (j = i)"
| "destr _ i = False"

fun busy :: "place \<Rightarrow> u32 \<Rightarrow> bool" where
  "busy (I_log _ j) i = (j = i)"
| "busy (W_find j) i = (j = i)"
| "busy (W_look _ j) i = (j = i)"
| "busy (W_sec _ _ j) i = (j = i)"
| "busy (W_log _ j _) i = (j = i)"
| "busy _ i = False"

lemma destroying_destr: "destroying s t i = destr (place s t) i"
  by (cases "place s t") (simp_all add: destroying_def)

lemma busy_on_busy: "busy_on s t i = busy (place s t) i"
  by (cases "place s t") (simp_all add: busy_on_def)

text \<open>The thread holds a pointer to the live block of its process, or to a live barrier in it.\<close>

definition owns :: "dsys \<Rightarrow> thread \<Rightarrow> nat \<Rightarrow> bool" where
  "owns s t p \<longleftrightarrow> (\<exists>q. blk s p = Some q \<and> r_tgid q = fst t)"

definition has_bar :: "dsys \<Rightarrow> thread \<Rightarrow> nat \<Rightarrow> u32 \<Rightarrow> bool" where
  "has_bar s t a i \<longleftrightarrow>
     (\<exists>p q b. blk s p = Some q \<and> r_tgid q = fst t \<and> a \<in> set (r_head q) \<and> bar s a = Some b \<and> b_id b = i)"

fun place_ok :: "dsys \<Rightarrow> thread \<Rightarrow> place \<Rightarrow> bool" where
  "place_ok s t (I_read p _) = owns s t p"
| "place_ok s t (I_dup p _ _) = owns s t p"
| "place_ok s t (I_link p _) = owns s t p"
| "place_ok s t (I_log a i) = has_bar s t a i"
| "place_ok s t (W_find i) = present s (fst t) i"
| "place_ok s t (W_look p i) = (owns s t p \<and> present s (fst t) i)"
| "place_ok s t (W_sec _ a i) = has_bar s t a i"
| "place_ok s t (W_log a i _) = has_bar s t a i"
| "place_ok s t (D_look p _) = owns s t p"
| "place_ok s t (D_drain p a i) = (owns s t p \<and> has_bar s t a i)"
| "place_ok s t (D_recycle p a i) = (owns s t p \<and> has_bar s t a i)"
| "place_ok s t (D_unlink _) = False"
| "place_ok s t (D_free _) = False"
| "place_ok s t (D_unlock _) = False"
| "place_ok s t _ = True"

definition block_ok :: "dsys \<Rightarrow> nat \<Rightarrow> ptblock \<Rightarrow> bool" where
  "block_ok s p q \<longleftrightarrow> p \<in> set (glist s) \<and> p < unused s \<and> r_lock q = None
     \<and> r_size q = int (length (r_head q)) \<and> distinct (map (\<lambda>a. map_option b_id (bar s a)) (r_head q))
     \<and> (\<forall>a \<in> set (r_head q). \<exists>b. bar s a = Some b \<and> b_tgid b = r_tgid q \<and> b_id b < r_count q)"

definition heap_ok :: "dsys \<Rightarrow> bool" where
  "heap_ok s \<longleftrightarrow> (\<forall>p q. blk s p = Some q \<longrightarrow> block_ok s p q) \<and> (\<forall>p \<in> set (glist s). blk s p \<noteq> None)
     \<and> (\<forall>p q p' q'. blk s p = Some q \<longrightarrow> blk s p' = Some q' \<longrightarrow> r_tgid q = r_tgid q' \<longrightarrow> p = p')
     \<and> (\<forall>a. bar s a \<noteq> None \<longrightarrow> a < unused s)"

text \<open>A barrier is destroyed by one thread that nobody disturbs, and another barrier stays.\<close>

definition alone :: "dsys \<Rightarrow> bool" where
  "alone s \<longleftrightarrow> (\<forall>t t' i. destr (place s t) i \<longrightarrow> destr (place s t') i \<or> busy (place s t') i \<longrightarrow>
     fst t = fst t' \<longrightarrow> t = t')"

lemma aloneI:
  "(\<And>t t' i. destr (place s t) i \<Longrightarrow> destr (place s t') i \<or> busy (place s t') i \<Longrightarrow> fst t = fst t' \<Longrightarrow> t = t')
    \<Longrightarrow> alone s"
  unfolding alone_def by blast

lemma aloneD:
  "alone s \<Longrightarrow> destr (place s t) i \<Longrightarrow> destr (place s t') i \<or> busy (place s t') i \<Longrightarrow> fst t = fst t' \<Longrightarrow> t = t'"
  unfolding alone_def by blast

definition keeps_one :: "dsys \<Rightarrow> bool" where
  "keeps_one s \<longleftrightarrow> (\<forall>t i. destr (place s t) i \<longrightarrow>
     (\<exists>j. present s (fst t) j \<and> (\<forall>t'. fst t' = fst t \<longrightarrow> \<not> destr (place s t') j)))"

lemma keeps_oneI:
  "(\<And>t i. destr (place s t) i \<Longrightarrow>
      \<exists>j. present s (fst t) j \<and> (\<forall>t'. fst t' = fst t \<longrightarrow> \<not> destr (place s t') j)) \<Longrightarrow> keeps_one s"
  unfolding keeps_one_def by blast

lemma keeps_oneD:
  assumes "keeps_one s" and "destr (place s t) i"
  obtains j where "present s (fst t) j" "\<And>t'. fst t' = fst t \<Longrightarrow> \<not> destr (place s t') j"
  using assms unfolding keeps_one_def by blast

text \<open>No thread destroys an id that a thread of its process is about to be given.\<close>

definition not_early :: "dsys \<Rightarrow> bool" where
  "not_early s \<longleftrightarrow> (\<forall>t t' i. destr (place s t) i \<longrightarrow> creating (place s t') \<longrightarrow> fst t = fst t' \<longrightarrow> given s (fst t) i)"

lemma not_earlyI:
  "(\<And>t t' i. destr (place s t) i \<Longrightarrow> creating (place s t') \<Longrightarrow> fst t = fst t' \<Longrightarrow> given s (fst t) i) \<Longrightarrow> not_early s"
  unfolding not_early_def by blast

lemma not_earlyD:
  "not_early s \<Longrightarrow> destr (place s t) i \<Longrightarrow> creating (place s t') \<Longrightarrow> fst t = fst t' \<Longrightarrow> given s (fst t) i"
  unfolding not_early_def by blast

definition race_inv :: "dsys \<Rightarrow> bool" where
  "race_inv s \<longleftrightarrow> fault_of s = None \<and> heap_ok s \<and> (\<forall>t. place_ok s t (place s t)) \<and> alone s \<and> keeps_one s
     \<and> not_early s"

lemma go_simps [simp]:
  "blk (go t l s) = blk s" "bar (go t l s) = bar s" "unused (go t l s) = unused s" "glist (go t l s) = glist s"
  "place (go t l s) = (place s)(t := l)" "fault_of (go t l s) = fault_of s"
  by (simp_all add: go_def)

text \<open>Steps that only add blocks and barriers, or change a barrier without its id.\<close>

definition grows :: "dsys \<Rightarrow> dsys \<Rightarrow> bool" where
  "grows s s' \<longleftrightarrow>
     (\<forall>p q. blk s p = Some q \<longrightarrow> (\<exists>q'. blk s' p = Some q' \<and> r_tgid q' = r_tgid q \<and> set (r_head q) \<subseteq> set (r_head q')
        \<and> r_count q \<le> r_count q'))
     \<and> (\<forall>a b. bar s a = Some b \<longrightarrow> (\<exists>b'. bar s' a = Some b' \<and> b_id b' = b_id b))"

lemma grows_refl [simp]: "grows s s"
  by (simp add: grows_def)

lemma grows_owns: "grows s s' \<Longrightarrow> owns s t p \<Longrightarrow> owns s' t p"
  by (fastforce simp: grows_def owns_def)

lemma grows_bar:
  assumes "grows s s'" and "blk s p = Some q" and "a \<in> set (r_head q)" and "bar s a = Some b"
  obtains q' b' where "blk s' p = Some q'" "r_tgid q' = r_tgid q" "a \<in> set (r_head q')" "bar s' a = Some b'"
    "b_id b' = b_id b"
proof -
  from assms(1,2) obtain q' where "blk s' p = Some q'" "r_tgid q' = r_tgid q" "set (r_head q) \<subseteq> set (r_head q')"
    unfolding grows_def by blast
  moreover from assms(1,4) obtain b' where "bar s' a = Some b'" "b_id b' = b_id b" unfolding grows_def by blast
  ultimately show ?thesis using that assms(3) by blast
qed

lemma grows_has_bar:
  assumes g: "grows s s'" and h: "has_bar s t a i"
  shows "has_bar s' t a i"
proof -
  from h obtain p q b where *: "blk s p = Some q" "r_tgid q = fst t" "a \<in> set (r_head q)" "bar s a = Some b" "b_id b = i"
    unfolding has_bar_def by blast
  from grows_bar [OF g *(1,3,4)] * show ?thesis unfolding has_bar_def by metis
qed

lemma has_bar_present: "present s tg i \<longleftrightarrow> (\<exists>a. has_bar s (tg, 0) a i)"
  by (auto simp: present_def has_bar_def)

lemma grows_present: "grows s s' \<Longrightarrow> present s tg i \<Longrightarrow> present s' tg i"
  unfolding has_bar_present using grows_has_bar by blast

lemma grows_given:
  assumes "grows s s'" and "given s tg i"
  shows "given s' tg i"
proof -
  from assms(2) obtain p q where q: "blk s p = Some q" "r_tgid q = tg" "i < r_count q" unfolding given_def by blast
  with assms(1) obtain q' where "blk s' p = Some q'" "r_tgid q' = r_tgid q" "r_count q \<le> r_count q'"
    unfolding grows_def by blast
  with q show ?thesis unfolding given_def by (metis order_less_le_trans)
qed

lemmas grows_intros = grows_owns grows_has_bar grows_present

lemma grows_place: "grows s s' \<Longrightarrow> place_ok s t l \<Longrightarrow> place_ok s' t l"
  by (cases l) (auto intro: grows_intros)

lemma place_ok_go [simp]: "place_ok (go t' l' s) t l = place_ok s t l"
  by (cases l) (simp_all add: owns_def has_bar_def present_def)

lemma heap_ok_go [simp]: "heap_ok (go t l s) = heap_ok s"
  by (simp add: heap_ok_def block_ok_def)

lemma present_go [simp]: "present (go t l s) tg i = present s tg i"
  by (simp add: present_def)

lemma given_go [simp]: "given (go t l s) tg i = given s tg i"
  by (simp add: given_def)

text \<open>
  A thread goes on inside its call, or returns, after a step that leaves the pointers of the
  other threads alone and takes away no barrier that is not being destroyed.
\<close>

lemma inv_shift:
  assumes inv: "race_inv s" and h: "heap_ok s1" and p: "place s1 = place s" "fault_of s1 = None"
    and o: "\<And>t'. t' \<noteq> t \<Longrightarrow> place_ok s1 t' (place s t')"
    and k: "\<And>tg j. present s tg j \<Longrightarrow> \<forall>t'. fst t' = tg \<longrightarrow> \<not> destr (place s t') j \<Longrightarrow> present s1 tg j"
    and g: "\<And>tg j. given s tg j \<Longrightarrow> given s1 tg j"
    and l: "place_ok s1 t l" and d: "\<And>i. destr l i \<Longrightarrow> destr (place s t) i"
    and w: "\<And>i. busy l i \<Longrightarrow> busy (place s t) i \<or> (\<forall>t'. fst t' = fst t \<longrightarrow> \<not> destr (place s t') i)"
    and c: "creating l \<Longrightarrow> creating (place s t)"
  shows "race_inv (go t l s1)"
proof -
  have ak: "alone s" "keeps_one s" "not_early s" using inv by (simp_all add: race_inv_def)
  have d': "destr (place (go t l s1) t') i \<Longrightarrow> destr (place s t') i" for t' i
    using d by (cases "t' = t") (simp_all add: p)
  have "place_ok (go t l s1) t' (place (go t l s1) t')" for t' using l o by (cases "t' = t") (simp_all add: p)
  moreover have "alone (go t l s1)"
  proof (rule aloneI)
    fix t1 t2 i
    assume a: "destr (place (go t l s1) t1) i"
      "destr (place (go t l s1) t2) i \<or> busy (place (go t l s1) t2) i" "fst t1 = fst t2"
    have "destr (place s t2) i \<or> busy (place s t2) i"
    proof (cases "t2 = t")
      case True
      with w [of i] d [of i] a(2,3) d' [OF a(1)] show ?thesis by (cases t1) auto
    qed (use a(2) in \<open>simp add: p\<close>)
    with aloneD [OF ak(1) d' [OF a(1)]] a(3) show "t1 = t2" by blast
  qed
  moreover have "not_early (go t l s1)"
  proof (rule not_earlyI)
    fix t1 t2 i
    assume a: "destr (place (go t l s1) t1) i" "creating (place (go t l s1) t2)" "fst t1 = fst t2"
    have "creating (place s t2)" using a(2) c by (cases "t2 = t") (auto simp: p)
    from not_earlyD [OF ak(3) d' [OF a(1)] this a(3)] g show "given (go t l s1) (fst t1) i" by simp
  qed
  moreover have "keeps_one (go t l s1)"
  proof (rule keeps_oneI)
    fix t' i
    assume "destr (place (go t l s1) t') i"
    from keeps_oneD [OF ak(2) d' [OF this]] obtain j where
      j: "present s (fst t') j" "\<And>t2. fst t2 = fst t' \<Longrightarrow> \<not> destr (place s t2) j" by blast
    then have "\<forall>t2. fst t2 = fst t' \<longrightarrow> \<not> destr (place (go t l s1) t2) j" using d' by blast
    with k [OF j(1)] j(2) show "\<exists>j. present (go t l s1) (fst t') j
        \<and> (\<forall>t2. fst t2 = fst t' \<longrightarrow> \<not> destr (place (go t l s1) t2) j)"
      by (intro exI [of _ j]) simp
  qed
  ultimately show ?thesis using h p unfolding race_inv_def by simp
qed

lemma inv_grow:
  assumes inv: "race_inv s" and g: "grows s s1" and "heap_ok s1" and "place s1 = place s" "fault_of s1 = None"
    and "place_ok s1 t l" and "\<And>i. destr l i \<Longrightarrow> destr (place s t) i"
    and "\<And>i. busy l i \<Longrightarrow> busy (place s t) i \<or> (\<forall>t'. fst t' = fst t \<longrightarrow> \<not> destr (place s t') i)"
    and "creating l \<Longrightarrow> creating (place s t)"
  shows "race_inv (go t l s1)"
proof (rule inv_shift [OF inv assms(3-5) _ _ _ assms(6-9)])
  show "place_ok s1 t' (place s t')" for t' using inv grows_place [OF g] unfolding race_inv_def by blast
qed (use grows_present [OF g] grows_given [OF g] in blast)+

lemma inv_move:
  assumes "race_inv s" and "place_ok s t l" and "\<And>i. destr l i \<Longrightarrow> destr (place s t) i"
    and "\<And>i. busy l i \<Longrightarrow> busy (place s t) i" and "creating l \<Longrightarrow> creating (place s t)"
  shows "race_inv (go t l s)"
  using inv_grow [OF assms(1) grows_refl _ _ _ assms(2,3) _ assms(5)] assms(1,4) by (simp add: race_inv_def)

section \<open>Calls\<close>

text \<open>A thread starts a call: the barriers that are left are the same for everybody else.\<close>

lemma keeps_one_enter:
  assumes ko: "keeps_one s"
    and l: "\<And>i. destr l i \<Longrightarrow> (\<exists>j. j \<noteq> i \<and> present s (fst t) j \<and> (\<forall>t'. fst t' = fst t \<longrightarrow> \<not> destr (place s t') j))"
  shows "keeps_one (go t l s)"
proof (rule keeps_oneI)
  fix t' i'
  assume d: "destr (place (go t l s) t') i'"
  have keep: "\<exists>j. present (go t l s) (fst t') j \<and> (\<forall>t2. fst t2 = fst t' \<longrightarrow> \<not> destr (place (go t l s) t2) j)"
    if j: "present s (fst t') j" "\<And>t2. fst t2 = fst t' \<Longrightarrow> \<not> destr (place s t2) j" "fst t' = fst t \<Longrightarrow> \<not> destr l j" for j
  proof -
    have "\<not> destr (place (go t l s) t2) j" if "fst t2 = fst t'" for t2
      using j(2) [OF that] j(3) that by (cases "t2 = t") auto
    with j(1) show ?thesis by (intro exI [of _ j]) simp
  qed
  show "\<exists>j. present (go t l s) (fst t') j \<and> (\<forall>t2. fst t2 = fst t' \<longrightarrow> \<not> destr (place (go t l s) t2) j)"
  proof (cases "fst t' = fst t \<and> (\<exists>i. destr l i)")
    case True
    then obtain i where i: "destr l i" by blast
    from l [OF i] obtain j where j: "j \<noteq> i" "present s (fst t) j" "\<forall>t'. fst t' = fst t \<longrightarrow> \<not> destr (place s t') j" by blast
    moreover have "\<not> destr l j" using i j(1) by (cases l) auto
    ultimately show ?thesis using True by (intro keep [of j]) auto
  next
    case False
    then have "destr (place s t') i'" using d by (cases "t' = t") auto
    from keeps_oneD [OF ko this] obtain k where "present s (fst t') k" "\<And>t2. fst t2 = fst t' \<Longrightarrow> \<not> destr (place s t2) k"
      by blast
    with False keep show ?thesis by blast
  qed
qed

lemma alone_enter:
  assumes al: "alone s"
    and d: "\<And>i t'. destr l i \<Longrightarrow> fst t' = fst t \<Longrightarrow> \<not> destr (place s t') i \<and> \<not> busy (place s t') i"
    and w: "\<And>i t'. busy l i \<Longrightarrow> fst t' = fst t \<Longrightarrow> \<not> destr (place s t') i"
  shows "alone (go t l s)"
proof (rule aloneI)
  fix t1 t2 k
  assume a: "destr (place (go t l s) t1) k" "destr (place (go t l s) t2) k \<or> busy (place (go t l s) t2) k" "fst t1 = fst t2"
  consider "t1 = t" "t2 = t" | "t1 = t" "t2 \<noteq> t" | "t1 \<noteq> t" "t2 = t" | "t1 \<noteq> t" "t2 \<noteq> t" by blast
  then show "t1 = t2"
  proof cases
    case 2
    with a d [of k t2] show ?thesis by auto
  next
    case 3
    with a d [of k t1] w [of k t1] show ?thesis by auto
  next
    case 4
    with a aloneD [OF al, of t1 k t2] show ?thesis by simp
  qed simp
qed

lemma inv_enter:
  assumes inv: "race_inv s" and c: "careful s t op"
  shows "race_inv (go t (call_place op) s)"
proof -
  have "place_ok s t (call_place op)" using c by (cases op) (auto simp: careful_def call_place_def)
  then have "\<forall>t'. place_ok (go t (call_place op) s) t' (place (go t (call_place op) s) t')"
    using inv by (simp add: race_inv_def)
  moreover have "alone (go t (call_place op) s)"
    by (rule alone_enter)
      (use inv c in \<open>cases op; auto simp: race_inv_def careful_def call_place_def destroying_destr busy_on_busy split: if_splits\<close>)+
  moreover have "not_early (go t (call_place op) s)"
  proof (rule not_earlyI)
    fix t1 t2 i
    assume "destr (place (go t (call_place op) s) t1) i" "creating (place (go t (call_place op) s) t2)" "fst t1 = fst t2"
    then show "given (go t (call_place op) s) (fst t1) i"
      using not_earlyD [of s t1 i t2] inv c
      by (cases "t1 = t"; cases "t2 = t"; cases op; cases t1; cases t2)
        (auto simp: race_inv_def careful_def call_place_def destroying_destr split: if_splits)
  qed
  moreover have "keeps_one (go t (call_place op) s)"
    by (rule keeps_one_enter)
      (use inv c in \<open>cases op; auto simp: race_inv_def careful_def call_place_def destroying_destr split: if_splits\<close>)+
  ultimately show ?thesis using inv by (simp add: race_inv_def)
qed

section \<open>Sections\<close>

lemma find_block_Some:
  assumes "heap_ok s" and "find_block tg s = Some p"
  shows "\<exists>q. blk s p = Some q \<and> r_tgid q = tg"
  using assms(2) by (auto simp: find_block_def dest!: find_in_set)

lemma find_block_None:
  assumes "heap_ok s" and "find_block tg s = None"
  shows "blk s p = Some q \<Longrightarrow> r_tgid q \<noteq> tg"
  using assms by (auto simp: find_block_def find_None_iff heap_ok_def block_ok_def)

lemma find_barrier_Some:
  assumes "find_barrier q i s = Some a"
  shows "a \<in> set (r_head q) \<and> (\<exists>b. bar s a = Some b \<and> b_id b = i)"
  using find_in_set [OF assms [unfolded find_barrier_def]] by auto

lemma find_barrier_None:
  assumes "find_barrier q i s = None" and "a \<in> set (r_head q)" and "bar s a = Some b"
  shows "b_id b \<noteq> i"
  using assms by (auto simp: find_barrier_def find_None_iff)

text \<open>The block a thread points to is the one its process has, so its barriers are in it.\<close>

lemma owns_bar:
  assumes h: "heap_ok s" and o: "owns s t p" "blk s p = Some q" and b: "has_bar s t a i"
  shows "a \<in> set (r_head q)"
proof -
  from b obtain p' q' where p': "blk s p' = Some q'" "r_tgid q' = fst t" "a \<in> set (r_head q')"
    unfolding has_bar_def by blast
  moreover have "r_tgid q = fst t" using o by (auto simp: owns_def)
  ultimately have "p' = p" using h o(2) unfolding heap_ok_def by metis
  with p' o(2) show ?thesis by simp
qed

lemma heap_ok_newblock:
  assumes h: "heap_ok s" and f: "find_block tg s = None"
  shows "heap_ok (s\<lparr>blk := (blk s)(unused s \<mapsto> new_block tg), glist := unused s # glist s, unused := Suc (unused s)\<rparr>)"
    (is "heap_ok ?s")
proof -
  have b: "blk s p = Some q \<Longrightarrow> block_ok s p q" for p q using h by (simp add: heap_ok_def)
  have n: "blk s (unused s) = None" using b [of "unused s"] by (cases "blk s (unused s)") (auto simp: block_ok_def)
  have "block_ok ?s p q" if "blk ?s p = Some q" for p q
    using that b [of p q] by (cases "p = unused s") (auto simp: block_ok_def new_block_def)
  moreover have "p = p'" if "blk ?s p = Some q" "blk ?s p' = Some q'" "r_tgid q = r_tgid q'" for p q p' q'
  proof -
    have "blk s p = Some q \<Longrightarrow> r_tgid q \<noteq> tg" "blk s p' = Some q' \<Longrightarrow> r_tgid q' \<noteq> tg"
      using find_block_None [OF h f] by blast+
    then have "p = unused s \<longleftrightarrow> p' = unused s" using that by (auto simp: new_block_def split: if_splits)
    with that h show ?thesis by (cases "p = unused s") (auto simp: heap_ok_def)
  qed
  moreover have "\<forall>p \<in> set (glist ?s). blk ?s p \<noteq> None" "\<forall>a. bar ?s a \<noteq> None \<longrightarrow> a < unused ?s"
    using h by (auto simp: heap_ok_def less_Suc_eq)
  ultimately show ?thesis unfolding heap_ok_def by blast
qed

lemma block_bar:
  assumes "block_ok s p q" and "a \<in> set (r_head q)"
  obtains b where "bar s a = Some b" "b_tgid b = r_tgid q" "b_id b < r_count q"
  using assms unfolding block_ok_def by blast

text \<open>A block stays well formed when its own barriers are left alone.\<close>

lemma block_ok_frame:
  assumes "block_ok s p q" and "set (glist s) \<subseteq> set (glist s')" and "unused s \<le> unused s'"
    and "\<And>a. a \<in> set (r_head q) \<Longrightarrow> bar s' a = bar s a"
  shows "block_ok s' p q"
proof -
  have "map (\<lambda>a. map_option b_id (bar s' a)) (r_head q) = map (\<lambda>a. map_option b_id (bar s a)) (r_head q)"
    using assms(4) by (intro map_cong) simp_all
  then have "distinct (map (\<lambda>a. map_option b_id (bar s' a)) (r_head q))"
    using assms(1) by (simp only: block_ok_def)
  moreover have "\<exists>b. bar s' a = Some b \<and> b_tgid b = r_tgid q \<and> b_id b < r_count q" if "a \<in> set (r_head q)" for a
    using assms(1) that by (simp add: assms(4) block_ok_def)
  ultimately show ?thesis using assms(1-3) unfolding block_ok_def by auto
qed

lemma less_next:
  fixes x r :: u32
  assumes "r \<noteq> - 1" and "x \<le> r"
  shows "x < r + 1"
proof -
  have "r + 1 \<noteq> 0" using assms(1) by (metis eq_neg_iff_add_eq_0)
  then have "unat (r + 1) = Suc (unat r)" using unatSuc [of r] by (simp add: add.commute)
  then show ?thesis using assms(2) by (simp add: word_less_nat_alt word_le_nat_alt)
qed

lemma heap_ok_link:
  assumes h: "heap_ok s" and q: "blk s p = Some q" "r_tgid q = fst t" and l: "r_count q \<noteq> - 1"
  shows "heap_ok (s\<lparr>bar := (bar s)(unused s \<mapsto> init_barrier_struct t c (r_count q)),
      blk := (blk s)(p \<mapsto> q\<lparr>r_count := r_count q + 1, r_size := r_size q + 1, r_head := unused s # r_head q\<rparr>),
      unused := Suc (unused s)\<rparr>)" (is "heap_ok ?s")
proof -
  let ?b = "init_barrier_struct t c (r_count q)"
  have b: "blk s p = Some q \<Longrightarrow> block_ok s p q" for p q using h by (simp add: heap_ok_def)
  have u: "bar s (unused s) = None" using h unfolding heap_ok_def by blast
  have old: "a \<noteq> unused s" if "blk s p' = Some q'" "a \<in> set (r_head q')" for p' q' a
    using block_bar [OF b [OF that(1)] that(2)] u by fastforce
  have nb: "b_id ?b = r_count q" "b_tgid ?b = r_tgid q" using q(2) by (simp_all add: init_barrier_struct_def)
  have same: "map (\<lambda>a. map_option b_id (bar ?s a)) (r_head q') = map (\<lambda>a. map_option b_id (bar s a)) (r_head q')"
    if "blk s p' = Some q'" for p' q'
    using old [OF that] by (auto simp: map_eq_conv)
  have lt: "b_id x < r_count q" if "a \<in> set (r_head q)" "bar s a = Some x" for a x
    using block_bar [OF b [OF q(1)] that(1)] that(2) by auto
  have new: "block_ok ?s p (q\<lparr>r_count := r_count q + 1, r_size := r_size q + 1, r_head := unused s # r_head q\<rparr>)"
  proof -
    have "Some (r_count q) \<notin> (\<lambda>a. map_option b_id (bar s a)) ` set (r_head q)"
    proof
      assume "Some (r_count q) \<in> (\<lambda>a. map_option b_id (bar s a)) ` set (r_head q)"
      then obtain a where a: "a \<in> set (r_head q)" "Some (r_count q) = map_option b_id (bar s a)" by blast
      from a(2) obtain x where "bar s a = Some x" "b_id x = r_count q" by (cases "bar s a") auto
      with a(1) lt [of a x] show False by simp
    qed
    moreover have "r_count q < r_count q + 1" using less_next [OF l] by simp
    moreover have "\<exists>x. bar ?s a = Some x \<and> b_tgid x = r_tgid q \<and> b_id x < r_count q + 1" if "a \<in> set (r_head q)" for a
    proof -
      from block_bar [OF b [OF q(1)] that] obtain x where
        x: "bar s a = Some x" "b_tgid x = r_tgid q" "b_id x < r_count q" .
      with old [OF q(1) that] less_next [OF l, of "b_id x"] show ?thesis by simp
    qed
    moreover have "distinct (map (\<lambda>a. map_option b_id (bar ?s a)) (r_head q))"
      unfolding same [OF q(1)] using b [OF q(1)] by (simp add: block_ok_def)
    moreover have "(\<lambda>a. map_option b_id (bar ?s a)) ` set (r_head q) = (\<lambda>a. map_option b_id (bar s a)) ` set (r_head q)"
      using arg_cong [OF same [OF q(1)], of set] by simp
    ultimately show ?thesis using b [OF q(1)] unfolding block_ok_def by (auto simp: nb)
  qed
  have "block_ok ?s p' q'" if "blk ?s p' = Some q'" for p' q'
  proof (cases "p' = p")
    case True
    with new that show ?thesis by simp
  next
    case False
    then have q': "blk s p' = Some q'" using that by simp
    show ?thesis by (rule block_ok_frame [OF b [OF q']]) (use old [OF q'] in auto)
  qed
  moreover have "p1 = p2" if "blk ?s p1 = Some q1" "blk ?s p2 = Some q2" "r_tgid q1 = r_tgid q2" for p1 q1 p2 q2
  proof -
    have "\<exists>q'. blk s x = Some q' \<and> r_tgid q' = r_tgid y" if "blk ?s x = Some y" for x y
      using that q by (cases "x = p") auto
    with that h show ?thesis unfolding heap_ok_def by metis
  qed
  moreover have "\<forall>p \<in> set (glist ?s). blk ?s p \<noteq> None" "\<forall>a. bar ?s a \<noteq> None \<longrightarrow> a < unused ?s"
    using h by (auto simp: heap_ok_def less_Suc_eq)
  ultimately show ?thesis unfolding heap_ok_def by blast
qed

text \<open>The sections of \<open>barrier_wait\<close> do not change who a barrier is.\<close>

lemma section_ids:
  "b_id (snd (wait_section1 b)) = b_id b" "b_tgid (snd (wait_section1 b)) = b_tgid b"
  "b_id (snd (wait_section2 b)) = b_id b" "b_tgid (snd (wait_section2 b)) = b_tgid b"
  by (auto simp: wait_section1_def wait_section2_def wake_up_here_def Let_def)

lemma heap_ok_section:
  assumes h: "heap_ok s" and a: "bar s a = Some b" and b: "b_id b' = b_id b" "b_tgid b' = b_tgid b"
  shows "heap_ok (s\<lparr>bar := (bar s)(a \<mapsto> b')\<rparr>)" (is "heap_ok ?s")
proof -
  have i: "map_option b_id (bar ?s x) = map_option b_id (bar s x)" for x using a b by simp
  have "block_ok ?s p q" if "blk s p = Some q" for p q
  proof -
    have bo: "block_ok s p q" using h that by (simp add: heap_ok_def)
    have "\<exists>y. bar ?s x = Some y \<and> b_tgid y = r_tgid q \<and> b_id y < r_count q" if "x \<in> set (r_head q)" for x
    proof -
      from block_bar [OF bo that] obtain y where "bar s x = Some y" "b_tgid y = r_tgid q" "b_id y < r_count q" .
      with a b show ?thesis by (cases "x = a") auto
    qed
    with bo i show ?thesis by (simp add: block_ok_def)
  qed
  with h a show ?thesis by (auto simp: heap_ok_def)
qed

lemma heap_ok_unlink:
  assumes h: "heap_ok s" and q: "blk s p = Some q" and a: "a \<in> set (r_head q)"
  shows "heap_ok (s\<lparr>bar := (bar s)(a := None),
      blk := (blk s)(p \<mapsto> q\<lparr>r_head := remove1 a (r_head q), r_size := r_size q - 1\<rparr>)\<rparr>)" (is "heap_ok ?s")
proof -
  have b: "blk s p = Some q \<Longrightarrow> block_ok s p q" for p q using h by (simp add: heap_ok_def)
  have d: "distinct (r_head q)" using b [OF q] by (auto simp: block_ok_def distinct_map)
  have na: "x \<noteq> a" if "x \<in> set (remove1 a (r_head q))" for x using that d by auto
  have other: "a \<notin> set (r_head q')" if "blk s p' = Some q'" "p' \<noteq> p" for p' q'
  proof
    assume x: "a \<in> set (r_head q')"
    from block_bar [OF b [OF q] a] obtain y where y: "bar s a = Some y" "b_tgid y = r_tgid q" .
    from block_bar [OF b [OF that(1)] x] obtain z where "bar s a = Some z" "b_tgid z = r_tgid q'" .
    with y have "r_tgid q = r_tgid q'" by simp
    with h q that show False unfolding heap_ok_def by blast
  qed
  have new: "block_ok ?s p (q\<lparr>r_head := remove1 a (r_head q), r_size := r_size q - 1\<rparr>)"
  proof -
    let ?q = "q\<lparr>r_head := remove1 a (r_head q), r_size := r_size q - 1\<rparr>"
    have "distinct (map (\<lambda>x. map_option b_id (bar s x)) (remove1 a (r_head q)))"
      using b [OF q] by (auto simp: block_ok_def distinct_map intro: inj_on_subset)
    moreover have "int (length (remove1 a (r_head q))) = int (length (r_head q)) - 1"
      using a length_pos_if_in_set [OF a] by (simp add: length_remove1 of_nat_diff Suc_leI)
    ultimately have "block_ok s p ?q"
      using b [OF q] by (auto simp: block_ok_def dest: notin_set_remove1)
    then show ?thesis by (rule block_ok_frame) (use na in auto)
  qed
  have "block_ok ?s p' q'" if "blk ?s p' = Some q'" for p' q'
  proof (cases "p' = p")
    case True
    with new that show ?thesis by simp
  next
    case False
    then have q': "blk s p' = Some q'" using that by simp
    show ?thesis by (rule block_ok_frame [OF b [OF q']]) (use other [OF q' False] in auto)
  qed
  moreover have "p1 = p2" if "blk ?s p1 = Some q1" "blk ?s p2 = Some q2" "r_tgid q1 = r_tgid q2" for p1 q1 p2 q2
  proof -
    have "\<exists>q'. blk s x = Some q' \<and> r_tgid q' = r_tgid y" if "blk ?s x = Some y" for x y
      using that q by (cases "x = p") auto
    with that h show ?thesis unfolding heap_ok_def by metis
  qed
  moreover have "\<forall>p \<in> set (glist ?s). blk ?s p \<noteq> None" "\<forall>a. bar ?s a \<noteq> None \<longrightarrow> a < unused ?s"
    using h by (auto simp: heap_ok_def)
  ultimately show ?thesis unfolding heap_ok_def by blast
qed

text \<open>
  The step that frees a barrier: no other thread points to it, and another barrier is left, so
  that the block of the process stays.
\<close>

lemma recycle_not_last:
  assumes inv: "race_inv s" and pl: "place s t = D_recycle p a i" and q: "blk s p = Some q"
  shows "1 < r_size q"
proof -
  have h: "heap_ok s" and ko: "keeps_one s" and pk: "place_ok s t (place s t)"
    using inv unfolding race_inv_def by blast+
  have o: "owns s t p" "has_bar s t a i" using pk pl by simp_all
  obtain j where j: "present s (fst t) j" "\<And>t'. fst t' = fst t \<Longrightarrow> \<not> destr (place s t') j"
    using keeps_oneD [OF ko, of t i] pl by auto
  have "j \<noteq> i" using j(2) [of t] pl by auto
  moreover from j(1) obtain a' where a': "has_bar s t a' j" by (auto simp: present_def has_bar_def)
  ultimately have "a \<noteq> a'" using o(2) by (auto simp: has_bar_def)
  moreover have "{a, a'} \<subseteq> set (r_head q)" using owns_bar [OF h o(1) q] o(2) a' by blast
  ultimately have "2 \<le> card (set (r_head q))" using card_mono [of "set (r_head q)" "{a, a'}"] by simp
  also have "\<dots> \<le> length (r_head q)" by (rule card_length)
  finally show ?thesis using h q by (simp add: heap_ok_def block_ok_def)
qed

lemma unlink_keeps:
  assumes h: "heap_ok s" and q: "blk s p = Some q" and a: "a \<in> set (r_head q)" "bar s a = Some b"
    and x: "has_bar s t' a' j" and n: "fst t' = r_tgid q \<longrightarrow> j \<noteq> b_id b"
  shows "has_bar (s\<lparr>bar := (bar s)(a := None),
    blk := (blk s)(p \<mapsto> q\<lparr>r_head := remove1 a (r_head q), r_size := r_size q - 1\<rparr>)\<rparr>) t' a' j"
proof -
  let ?q = "q\<lparr>r_head := remove1 a (r_head q), r_size := r_size q - 1\<rparr>"
  have bo: "block_ok s p q" using h q by (simp add: heap_ok_def)
  from x obtain p' q' b' where x': "blk s p' = Some q'" "r_tgid q' = fst t'" "a' \<in> set (r_head q')"
    "bar s a' = Some b'" "b_id b' = j" unfolding has_bar_def by blast
  have "a' \<noteq> a"
  proof
    assume e: "a' = a"
    have "block_ok s p' q'" using h x'(1) by (simp add: heap_ok_def)
    from block_bar [OF this x'(3)] obtain y where y: "bar s a' = Some y" "b_tgid y = r_tgid q'" .
    from block_bar [OF bo a(1)] obtain z where "bar s a = Some z" "b_tgid z = r_tgid q" .
    with y e have "r_tgid q' = r_tgid q" by simp
    with n x'(2,4,5) a(2) e show False by simp
  qed
  moreover have "distinct (r_head q)" using bo by (auto simp: block_ok_def distinct_map)
  ultimately show ?thesis unfolding has_bar_def using x' q
    by (intro exI [of _ p'] exI [of _ "if p' = p then ?q else q'"] exI [of _ b']) auto
qed

lemma inv_recycle:
  assumes inv: "race_inv s" and pl: "place s t = D_recycle p a i" and q: "blk s p = Some q"
  shows "race_inv (destroy_unlink t p a q s)"
proof -
  let ?s = "s\<lparr>bar := (bar s)(a := None),
    blk := (blk s)(p \<mapsto> q\<lparr>r_head := remove1 a (r_head q), r_size := r_size q - 1\<rparr>)\<rparr>"
  have h: "heap_ok s" and al: "alone s" and plc: "\<And>t. place_ok s t (place s t)"
    using inv unfolding race_inv_def by blast+
  have o: "owns s t p" "has_bar s t a i" using plc [of t] pl by simp_all
  have a: "a \<in> set (r_head q)" using owns_bar [OF h o(1) q o(2)] .
  have tg: "r_tgid q = fst t" using o(1) q by (auto simp: owns_def)
  obtain b where b: "bar s a = Some b" "b_id b = i" using o(2) by (auto simp: has_bar_def)
  have keep: "has_bar ?s t' a' j" if "has_bar s t' a' j" and "fst t' = fst t \<longrightarrow> j \<noteq> i" for t' a' j
    using unlink_keeps [OF h q a b(1) that(1)] that(2) tg b(2) by simp
  have kp: "present ?s tg' j" if "present s tg' j" and "tg' = fst t \<longrightarrow> j \<noteq> i" for tg' j
    using that keep [of "(tg', 0)"] unfolding has_bar_present by force
  have own: "owns ?s t' p'" if "owns s t' p'" for t' p' using that q by (auto simp: owns_def)
  have giv: "given ?s tg' j" if "given s tg' j" for tg' j
  proof -
    from that obtain p1 q1 where "blk s p1 = Some q1" "r_tgid q1 = tg'" "j < r_count q1" unfolding given_def by blast
    with q show ?thesis
      by (cases "p1 = p") (auto simp: given_def intro!: exI [of _ p1])
  qed
  have e: "destroy_unlink t p a q s = go t (Back 0 None) ?s"
    using b recycle_not_last [OF inv pl q] by (simp add: destroy_unlink_def Let_def)
  show ?thesis unfolding e
  proof (rule inv_shift [OF inv heap_ok_unlink [OF h q a]])
    fix t'
    assume n: "t' \<noteq> t"
    have "\<not> busy (place s t') i \<and> \<not> destr (place s t') i" if "fst t' = fst t"
      using aloneD [OF al, of t i t'] that pl n by auto
    with plc [of t'] show "place_ok ?s t' (place s t')" by (cases "place s t'") (auto intro: own kp keep)
  next
    fix tg' k
    assume k: "present s tg' k" "\<forall>t'. fst t' = tg' \<longrightarrow> \<not> destr (place s t') k"
    then have "tg' = fst t \<longrightarrow> \<not> destr (place s t) k" by blast
    with k(1) show "present ?s tg' k" using pl by (intro kp) auto
  qed (use inv giv in \<open>simp_all add: race_inv_def\<close>)
qed

lemma inv_link:
  assumes inv: "race_inv s" and pl: "place s t = I_link p c" and q: "blk s p = Some q" and l: "ids_left s"
  shows "race_inv (init_link True t p c q s)"
proof -
  let ?q = "q\<lparr>r_count := r_count q + 1, r_size := r_size q + 1, r_head := unused s # r_head q\<rparr>"
  let ?s = "s\<lparr>bar := (bar s)(unused s \<mapsto> init_barrier_struct t c (r_count q)), blk := (blk s)(p \<mapsto> ?q),
    unused := Suc (unused s)\<rparr>"
  have h: "heap_ok s" and f: "fault_of s = None" and pk: "place_ok s t (place s t)"
    using inv unfolding race_inv_def by blast+
  have tg: "r_tgid q = fst t" using pk pl q by (auto simp: owns_def)
  have c: "r_count q \<noteq> - 1" using l q by (simp add: ids_left_def)
  have "bar s (unused s) = None" using h unfolding heap_ok_def by blast
  moreover have "r_count q \<le> r_count q + 1" using less_next [OF c, of "r_count q"] by simp
  ultimately have g: "grows s ?s" using q by (auto simp: grows_def)
  have one: "x = q" if "blk s p' = Some x" "r_tgid x = fst t" for p' x
    using h q tg that unfolding heap_ok_def by (metis option.inject)
  have nd: "\<not> destr (place s t') (r_count q)" if "fst t' = fst t" for t'
  proof
    assume "destr (place s t') (r_count q)"
    from not_earlyD [OF _ this, of t] inv pl that have "given s (fst t) (r_count q)" by (simp add: race_inv_def)
    then obtain p' x where "blk s p' = Some x" "r_tgid x = fst t" "r_count q < r_count x" unfolding given_def by blast
    with one show False by force
  qed
  have "has_bar ?s t (unused s) (r_count q)" using tg
    by (auto simp: has_bar_def init_barrier_struct_def intro!: exI [of _ p])
  with inv_grow [OF inv g heap_ok_link [OF h q tg c], where t = t and l = "I_log (unused s) (r_count q)"] f nd
  show ?thesis by (simp add: init_link_def Let_def)
qed

lemma inv_find:
  assumes inv: "race_inv s" and pl: "place s t = I_find c"
  shows "race_inv (init_find True t c s)"
proof (cases "find_block (fst t) s")
  case None
  let ?s = "s\<lparr>blk := (blk s)(unused s \<mapsto> new_block (fst t)), glist := unused s # glist s, unused := Suc (unused s)\<rparr>"
  have h: "heap_ok s" and f: "fault_of s = None" using inv by (simp_all add: race_inv_def)
  have "blk s (unused s) = None"
    using h by (cases "blk s (unused s)") (auto simp: heap_ok_def block_ok_def)
  then have "grows s ?s" by (auto simp: grows_def)
  moreover have "owns ?s t (unused s)" by (simp add: owns_def new_block_def)
  ultimately show ?thesis
    using inv_grow [OF inv _ heap_ok_newblock [OF h None], where t = t and l = "I_read (unused s) c"] f pl
    by (simp add: init_find_def None)
next
  case (Some p)
  have "owns s t p" using find_block_Some [OF _ Some] inv by (auto simp: owns_def race_inv_def)
  with inv_move [OF inv, of t "I_read p c"] pl show ?thesis by (simp add: init_find_def Some)
qed

lemma inv_section:
  assumes inv: "race_inv s" and pl: "place s t = W_sec r a i"
    and b: "bar s a = Some b" and b': "b_id b' = b_id b" "b_tgid b' = b_tgid b"
    and l: "l = W_sec r' a i \<or> l = W_log a i v"
  shows "race_inv (go t l (s\<lparr>bar := (bar s)(a \<mapsto> b')\<rparr>))"
proof -
  let ?s = "s\<lparr>bar := (bar s)(a \<mapsto> b')\<rparr>"
  have h: "heap_ok s" and f: "fault_of s = None" and pk: "place_ok s t (place s t)"
    using inv unfolding race_inv_def by blast+
  have g: "grows s ?s" using b b' by (auto simp: grows_def)
  have "place_ok ?s t l" using grows_has_bar [OF g, of t a i] pk pl l by auto
  with inv_grow [OF inv g heap_ok_section [OF h b b'], of t l] f l pl show ?thesis by auto
qed

lemma owns_live:
  assumes "heap_ok s" and "owns s t p"
  obtains q where "blk s p = Some q" "r_tgid q = fst t" "r_lock q = None"
  using assms by (auto simp: owns_def heap_ok_def block_ok_def)

lemma found_bar:
  "blk s p = Some q \<Longrightarrow> r_tgid q = fst t \<Longrightarrow> find_barrier q i s = Some a \<Longrightarrow> has_bar s t a i"
  unfolding has_bar_def using find_barrier_Some by blast

lemma found_owns: "heap_ok s \<Longrightarrow> find_block (fst t) s = Some p \<Longrightarrow> owns s t p"
  using find_block_Some by (fastforce simp: owns_def)

lemma race_invD:
  assumes "race_inv s"
  shows "heap_ok s" and "fault_of s = None" and "place_ok s t (place s t)"
  using assms unfolding race_inv_def by blast+

lemmas sections = race_exec_def under_head_def

text \<open>One step of a thread in a careful use, in each of the calls: it can be made, and keeps the invariant.\<close>

lemma proceed_init:
  assumes inv: "race_inv s" and l: "ids_left s" and i: "\<exists>p c k. place s t \<in> {I_find c, I_read p c, I_dup p c k, I_link p c, I_log p k}"
  shows "\<exists>s'. race_exec True t s = Some s' \<and> race_inv s'"
proof -
  note h = race_invD [OF inv] and f = race_invD(2) [OF inv]
  from i consider (find) c where "place s t = I_find c" | (read) p c where "place s t = I_read p c"
    | (dup) p c k where "place s t = I_dup p c k" | (join) p c where "place s t = I_link p c"
    | (log) a k where "place s t = I_log a k" by blast
  then show ?thesis
  proof cases
    case find
    with inv_find [OF inv find] f show ?thesis by (simp add: sections)
  next
    case read
    then obtain q where "blk s p = Some q" using owns_live [OF h(1), of t p] h(3) [of t] by auto
    with inv_move [OF inv, of t "I_dup p c (r_count q)"] read h(3) [of t] f show ?thesis by (simp add: sections)
  next
    case dup
    then obtain q where "blk s p = Some q" "r_lock q = None" using owns_live [OF h(1), of t p] h(3) [of t] by auto
    with inv_move [OF inv, of t "I_link p c"] inv_move [OF inv, of t "Back (- 1) None"] dup h(3) [of t] f
    show ?thesis by (simp add: sections)
  next
    case join
    then obtain q where "blk s p = Some q" "r_lock q = None" using owns_live [OF h(1), of t p] h(3) [of t] by auto
    with inv_link [OF inv join _ l] join f show ?thesis by (simp add: sections)
  next
    case log
    then obtain b where "bar s a = Some b" using h(3) [of t] by (auto simp: has_bar_def)
    with inv_move [OF inv, of t "Back 0 (Some k)"] log f show ?thesis by (simp add: sections)
  qed
qed

lemma proceed_wait:
  assumes inv: "race_inv s" and w: "\<exists>p i r a v. place s t \<in> {W_find i, W_look p i, W_sec r a i, W_log a i v}"
  shows "\<exists>s'. race_exec True t s = Some s' \<and> race_inv s'"
proof -
  note h = race_invD [OF inv] and f = race_invD(2) [OF inv]
  from w consider (find) i where "place s t = W_find i" | (look) p i where "place s t = W_look p i"
    | (sec) r a i where "place s t = W_sec r a i" | (log) a i v where "place s t = W_log a i v" by blast
  then show ?thesis
  proof cases
    case find
    then have "find_block (fst t) s \<noteq> None"
      using h(3) [of t] find_block_None [OF h(1)] by (auto simp: present_def)
    then obtain p where p: "find_block (fst t) s = Some p" by auto
    with inv_move [OF inv, of t "W_look p i"] found_owns [OF h(1) p] h(3) [of t] find f show ?thesis by (simp add: sections)
  next
    case look
    then obtain q where q: "blk s p = Some q" "r_lock q = None" "r_tgid q = fst t"
      using owns_live [OF h(1), of t p] h(3) [of t] by auto
    from h(3) [of t] look obtain a0 where a0: "has_bar s (fst t, 0) a0 i" by (auto simp: has_bar_present)
    then have "a0 \<in> set (r_head q)" using owns_bar [OF h(1) _ q(1), of "(fst t, 0)"] q by (auto simp: owns_def)
    with a0 have "find_barrier q i s \<noteq> None" using find_barrier_None [of q i s a0] by (auto simp: has_bar_def)
    then obtain a where a: "find_barrier q i s = Some a" by auto
    with inv_move [OF inv, of t "W_sec Loop1 a i"] found_bar [OF q(1,3) a] q look f show ?thesis by (simp add: sections)
  next
    case sec
    then obtain b where b: "bar s a = Some b" using h(3) [of t] by (auto simp: has_bar_def)
    obtain v b' where v: "(if r = Loop1 then wait_section1 b else wait_section2 b) = (v, b')" by fastforce
    then have "b_id b' = b_id b" "b_tgid b' = b_tgid b" using section_ids [of b] by (cases "r = Loop1"; simp)+
    note k = inv_section [OF inv sec b this]
    show ?thesis
    proof (cases v)
      case (Value x)
      with k [of "W_log a i x"] b v sec f show ?thesis by (simp add: sections)
    next
      case (Sleeps r')
      with k [of "W_sec r' a i"] b v sec f show ?thesis by (simp add: sections)
    qed
  next
    case log
    then obtain b where "bar s a = Some b" using h(3) [of t] by (auto simp: has_bar_def)
    with inv_move [OF inv, of t "Back v None"] log f show ?thesis by (simp add: sections)
  qed
qed

lemma proceed_destroy:
  assumes inv: "race_inv s" and d: "\<exists>p i a. place s t \<in> {D_find i, D_look p i, D_drain p a i, D_recycle p a i}"
  shows "\<exists>s'. race_exec True t s = Some s' \<and> race_inv s'"
proof -
  note h = race_invD [OF inv] and f = race_invD(2) [OF inv] and err = inv_move [OF inv, of t "Back (- 1) None"]
  from d consider (find) i where "place s t = D_find i" | (look) p i where "place s t = D_look p i"
    | (drain) p a i where "place s t = D_drain p a i" | (recycle) p a i where "place s t = D_recycle p a i" by blast
  then show ?thesis
  proof cases
    case find
    show ?thesis
    proof (cases "find_block (fst t) s")
      case None
      with err find f show ?thesis by (simp add: sections)
    next
      case (Some p)
      with inv_move [OF inv, of t "D_look p i"] found_owns [OF h(1) Some] find f show ?thesis by (simp add: sections)
    qed
  next
    case look
    then obtain q where q: "blk s p = Some q" "r_lock q = None" "r_tgid q = fst t"
      using owns_live [OF h(1), of t p] h(3) [of t] by auto
    show ?thesis
    proof (cases "find_barrier q i s")
      case None
      with err q look f show ?thesis by (simp add: sections)
    next
      case (Some a)
      with inv_move [OF inv, of t "D_drain p a i"] found_bar [OF q(1,3) Some] q look h(3) [of t] f show ?thesis
        by (simp add: sections)
    qed
  next
    case drain
    then obtain b where b: "bar s a = Some b" using h(3) [of t] by (auto simp: has_bar_def)
    with inv_move [OF inv, of t "D_recycle p a i"] inv drain h(3) [of t] f show ?thesis by (simp add: sections)
  next
    case recycle
    then obtain q where "blk s p = Some q" "r_lock q = None" using owns_live [OF h(1), of t p] h(3) [of t] by auto
    with inv_recycle [OF inv recycle] recycle f show ?thesis by (simp add: sections)
  qed
qed

lemma inv_proceed:
  assumes inv: "race_inv s" and l: "ids_left s" and n: "\<not> idle t s"
  shows "\<exists>s'. race_exec True t s = Some s' \<and> race_inv s'"
  using race_invD(3) [OF inv, of t] n proceed_init [OF inv l, of t] proceed_wait [OF inv, of t] proceed_destroy [OF inv, of t]
  by (cases "place s t") (simp_all add: idle_def)

lemma inv_empty: "race_inv empty_dsys"
  by (simp add: race_inv_def empty_dsys_def heap_ok_def alone_def keeps_one_def not_early_def)

lemma exec_idle: "idle t s \<Longrightarrow> race_exec km t s = None"
  by (cases "place s t") (simp_all add: idle_def race_exec_def)

lemma careful_inv: "race_inv s \<Longrightarrow> careful_step s s' \<Longrightarrow> race_inv s'"
proof (erule careful_step.cases)
  fix t s0 op
  assume "race_inv s" "s = s0" "s' = go t (call_place op) s0" "idle t s0" "careful s0 t op"
  with inv_enter show "race_inv s'" by blast
next
  fix s0 t s1
  assume a: "race_inv s" "s = s0" "s' = s1" "ids_left s0" "race_exec True t s0 = Some s1"
  then have "\<not> idle t s0" using exec_idle by fastforce
  with inv_proceed [of s0 t] a show "race_inv s'" by auto
qed

section \<open>The registry the driver stands for\<close>

text \<open>
  The barriers by process and id, and the next id of each process; the atomic operations on
  them: a barrier is created with the next id, a section of \<open>barrier_wait\<close> runs on a barrier,
  a barrier is removed.
\<close>

record registry =
  tab :: "pid_t \<times> u32 \<Rightarrow> barrier_struct option"
  nxt_id :: "pid_t \<Rightarrow> u32"

inductive atomic_step :: "registry \<Rightarrow> registry \<Rightarrow> bool" where
  Create: "tab R (tg, nxt_id R tg) = None \<Longrightarrow>
    atomic_step R \<lparr>tab = (tab R)((tg, nxt_id R tg) \<mapsto> init_barrier_struct (tg, x) c (nxt_id R tg)),
      nxt_id = (nxt_id R)(tg := nxt_id R tg + 1)\<rparr>"
| Section: "tab R (tg, i) = Some b \<Longrightarrow> b' = snd (wait_section1 b) \<or> b' = snd (wait_section2 b) \<Longrightarrow>
    atomic_step R (R\<lparr>tab := (tab R)((tg, i) \<mapsto> b')\<rparr>)"
| Remove: "tab R (tg, i) = Some b \<Longrightarrow> atomic_step R (R\<lparr>tab := (tab R)((tg, i) := None)\<rparr>)"

definition empty_registry :: registry where
  "empty_registry = \<lparr>tab = (\<lambda>_. None), nxt_id = (\<lambda>_. 0)\<rparr>"

definition block_of :: "dsys \<Rightarrow> pid_t \<Rightarrow> ptblock option" where
  "block_of s tg = Option.bind (find_block tg s) (blk s)"

definition registry_of :: "dsys \<Rightarrow> registry" where
  "registry_of s =
    \<lparr>tab = (\<lambda>(tg, i). Option.bind (block_of s tg) (\<lambda>q. Option.bind (find_barrier q i s) (bar s))),
     nxt_id = (\<lambda>tg. case block_of s tg of None \<Rightarrow> 0 | Some q \<Rightarrow> r_count q)\<rparr>"

lemma block_of_iff:
  assumes "heap_ok s"
  shows "block_of s tg = Some q \<longleftrightarrow> (\<exists>p. blk s p = Some q \<and> r_tgid q = tg)"
proof
  assume "block_of s tg = Some q"
  then obtain p where "find_block tg s = Some p" "blk s p = Some q"
    by (auto simp: block_of_def bind_eq_Some_conv)
  with find_block_Some [OF assms this(1)] show "\<exists>p. blk s p = Some q \<and> r_tgid q = tg" by auto
next
  assume "\<exists>p. blk s p = Some q \<and> r_tgid q = tg"
  then obtain p where p: "blk s p = Some q" "r_tgid q = tg" by blast
  then obtain p' where p': "find_block tg s = Some p'"
    using find_block_None [OF assms, of tg p q] by (cases "find_block tg s") auto
  from find_block_Some [OF assms p'] p assms have "p' = p" unfolding heap_ok_def by blast
  with p p' show "block_of s tg = Some q" by (simp add: block_of_def)
qed

lemma find_barrier_iff:
  assumes "block_ok s p q"
  shows "find_barrier q i s = Some a \<longleftrightarrow> a \<in> set (r_head q) \<and> (\<exists>b. bar s a = Some b \<and> b_id b = i)"
proof
  assume r: "a \<in> set (r_head q) \<and> (\<exists>b. bar s a = Some b \<and> b_id b = i)"
  then obtain a' where a': "find_barrier q i s = Some a'"
    using find_barrier_None [of q i s a] by (cases "find_barrier q i s") auto
  from find_barrier_Some [OF a'] r assms have "a' = a"
    by (auto simp: block_ok_def distinct_map inj_on_def)
  with a' show "find_barrier q i s = Some a" by simp
qed (rule find_barrier_Some)

text \<open>Which barrier, at which address, a process has under an id.\<close>

definition entry :: "dsys \<Rightarrow> pid_t \<Rightarrow> u32 \<Rightarrow> nat \<Rightarrow> barrier_struct \<Rightarrow> bool" where
  "entry s tg i a b \<longleftrightarrow>
     (\<exists>p q. blk s p = Some q \<and> r_tgid q = tg \<and> a \<in> set (r_head q) \<and> bar s a = Some b \<and> b_id b = i)"

lemma entryI:
  "blk s p = Some q \<Longrightarrow> a \<in> set (r_head q) \<Longrightarrow> bar s a = Some b \<Longrightarrow> entry s (r_tgid q) (b_id b) a b"
  unfolding entry_def by blast

lemma entry_tgid:
  assumes "heap_ok s" and "entry s tg i a b"
  shows "bar s a = Some b \<and> b_id b = i \<and> b_tgid b = tg"
proof -
  from assms(2) obtain p q where q: "blk s p = Some q" "r_tgid q = tg" "a \<in> set (r_head q)" "bar s a = Some b" "b_id b = i"
    unfolding entry_def by blast
  have "block_ok s p q" using assms(1) q(1) by (simp add: heap_ok_def)
  from block_bar [OF this q(3)] q show ?thesis by auto
qed

lemma entry_inj:
  assumes "heap_ok s" and "entry s tg i a b" and "entry s tg' i' a b'"
  shows "tg' = tg \<and> i' = i \<and> b' = b"
  using entry_tgid [OF assms(1,2)] entry_tgid [OF assms(1,3)] by auto

lemma tab_entry:
  assumes h: "heap_ok s"
  shows "tab (registry_of s) (tg, i) = Some b \<longleftrightarrow> (\<exists>a. entry s tg i a b)"
proof -
  have "block_ok s p q" if "blk s p = Some q" for p q using h that by (simp add: heap_ok_def)
  then have f: "blk s p = Some q \<Longrightarrow> find_barrier q i s = Some a \<longleftrightarrow> a \<in> set (r_head q) \<and> (\<exists>b. bar s a = Some b \<and> b_id b = i)"
    for p q a using find_barrier_iff by blast
  have "tab (registry_of s) (tg, i) = Some b \<longleftrightarrow>
      (\<exists>p q a. blk s p = Some q \<and> r_tgid q = tg \<and> find_barrier q i s = Some a \<and> bar s a = Some b)"
    by (auto simp: registry_of_def bind_eq_Some_conv block_of_iff [OF h])
  then show ?thesis unfolding entry_def using f by fastforce
qed

lemma entry_fun:
  assumes h: "heap_ok s" and e: "entry s tg i a b" "entry s tg i a' b'"
  shows "a' = a \<and> b' = b"
proof -
  from e(1) obtain p q where q: "blk s p = Some q" "r_tgid q = tg" "a \<in> set (r_head q)" "bar s a = Some b" "b_id b = i"
    unfolding entry_def by blast
  from e(2) obtain p' q' where q': "blk s p' = Some q'" "r_tgid q' = tg" "a' \<in> set (r_head q')" "bar s a' = Some b'" "b_id b' = i"
    unfolding entry_def by blast
  have "p' = p" using h q(1,2) q'(1,2) unfolding heap_ok_def by metis
  then have "q' = q" using q(1) q'(1) by simp
  moreover have "block_ok s p q" using h q(1) by (simp add: heap_ok_def)
  ultimately have "find_barrier q i s = Some a" "find_barrier q i s = Some a'"
    using find_barrier_iff [of s p q i] q q' by auto
  with q(4) q'(4) show ?thesis by simp
qed

lemma nxt_id_block:
  assumes "heap_ok s" and "blk s p = Some q"
  shows "nxt_id (registry_of s) (r_tgid q) = r_count q"
proof -
  have "block_of s (r_tgid q) = Some q" using assms(2) unfolding block_of_iff [OF assms(1)] by blast
  then show ?thesis by (simp add: registry_of_def)
qed

text \<open>Two heaps stand for the same registry when they agree on blocks and barriers.\<close>

lemma registry_eqI:
  assumes "\<And>tg i b. tab R (tg, i) = Some b \<longleftrightarrow> tab R' (tg, i) = Some b" and "\<And>tg. nxt_id R tg = nxt_id R' tg"
  shows "R = (R' :: registry)"
proof -
  have "tab R x = tab R' x" for x
    using assms(1) [of "fst x" "snd x"] by (cases "tab R x"; cases "tab R' x") force+
  then show ?thesis using assms(2) by (intro registry.equality) auto
qed

lemma registry_go [simp]: "registry_of (go t l s) = registry_of s"
  by (simp add: registry_of_def block_of_def find_block_def find_barrier_def)

lemma registry_die [simp]: "registry_of (die e s) = registry_of s"
  by (simp add: registry_of_def block_of_def find_block_def find_barrier_def die_def)

lemma nxt_id_none:
  assumes "heap_ok s" and "\<And>p q. blk s p = Some q \<Longrightarrow> r_tgid q \<noteq> tg"
  shows "nxt_id (registry_of s) tg = 0"
proof -
  have "block_of s tg = None" using block_of_iff [OF assms(1), of tg] assms(2) by (cases "block_of s tg") auto
  then show ?thesis by (simp add: registry_of_def)
qed

text \<open>Steps that keep the counters of all blocks keep the next ids.\<close>

lemma nxt_id_same:
  assumes h: "heap_ok s" "heap_ok s'"
    and c: "\<And>p q. blk s p = Some q \<Longrightarrow> r_tgid q = tg \<Longrightarrow> \<exists>q'. blk s' p = Some q' \<and> r_tgid q' = tg \<and> r_count q' = r_count q"
    and n: "\<And>p q'. blk s' p = Some q' \<Longrightarrow> r_tgid q' = tg \<Longrightarrow> (\<nexists>q. blk s p = Some q \<and> r_tgid q = tg) \<Longrightarrow> r_count q' = 0"
  shows "nxt_id (registry_of s') tg = nxt_id (registry_of s) tg"
proof (cases "\<exists>p q. blk s p = Some q \<and> r_tgid q = tg")
  case True
  then obtain p q where q: "blk s p = Some q" "r_tgid q = tg" by blast
  from c [OF q] obtain q' where "blk s' p = Some q'" "r_tgid q' = tg" "r_count q' = r_count q" by blast
  with nxt_id_block [OF h(1) q(1)] nxt_id_block [OF h(2), of p q'] q(2) show ?thesis by simp
next
  case False
  then have "nxt_id (registry_of s) tg = 0" using nxt_id_none [OF h(1)] by blast
  moreover have "nxt_id (registry_of s') tg = 0"
  proof (cases "\<exists>p q. blk s' p = Some q \<and> r_tgid q = tg")
    case True
    then obtain p q where q: "blk s' p = Some q" "r_tgid q = tg" by blast
    with nxt_id_block [OF h(2) q(1)] n [OF q] False show ?thesis by auto
  next
    case False
    then show ?thesis using nxt_id_none [OF h(2)] by blast
  qed
  ultimately show ?thesis by simp
qed

lemma registry_newblock:
  assumes h: "heap_ok s" and f: "find_block tg s = None"
  shows "registry_of (s\<lparr>blk := (blk s)(unused s \<mapsto> new_block tg), glist := unused s # glist s,
    unused := Suc (unused s)\<rparr>) = registry_of s" (is "registry_of ?s = _")
proof (rule registry_eqI)
  have n: "blk s (unused s) = None" using h by (cases "blk s (unused s)") (auto simp: heap_ok_def block_ok_def)
  note h' = heap_ok_newblock [OF h f]
  have "entry ?s tg' i a b \<longleftrightarrow> entry s tg' i a b" for tg' i a b
  proof
    assume "entry ?s tg' i a b"
    then show "entry s tg' i a b" by (auto simp: entry_def new_block_def split: if_splits)
  next
    assume "entry s tg' i a b"
    then obtain p q where q: "blk s p = Some q" "r_tgid q = tg'" "a \<in> set (r_head q)" "bar s a = Some b" "b_id b = i"
      unfolding entry_def by blast
    from q(1) n have "blk ?s p = Some q" by auto
    from entryI [OF this q(3), of b] q show "entry ?s tg' i a b" by simp
  qed
  then show "tab (registry_of ?s) (tg', i) = Some b \<longleftrightarrow> tab (registry_of s) (tg', i) = Some b" for tg' i b
    unfolding tab_entry [OF h] tab_entry [OF h'] by simp
  show "nxt_id (registry_of ?s) tg' = nxt_id (registry_of s) tg'" for tg'
    using n by (intro nxt_id_same [OF h h']) (auto simp: new_block_def split: if_splits)
qed

text \<open>A step that changes, adds or removes what is under one address.\<close>

lemma tab_change:
  assumes h: "heap_ok s" "heap_ok s'" and k: "entry s tg0 i0 a b0"
    and e: "\<And>tg i a' x. entry s' tg i a' x \<longleftrightarrow> (if a' = a then v = Some x \<and> tg = tg0 \<and> i = i0 else entry s tg i a' x)"
  shows "tab (registry_of s') (tg, i) = Some x \<longleftrightarrow> ((tab (registry_of s))((tg0, i0) := v)) (tg, i) = Some x"
proof (cases "(tg, i) = (tg0, i0)")
  case True
  have "\<not> entry s tg0 i0 a' y" if "a' \<noteq> a" for a' y using entry_fun [OF h(1) k] that by blast
  then show ?thesis using True unfolding tab_entry [OF h(2)] e by auto
next
  case False
  have "\<not> entry s tg i a y" for y using entry_inj [OF h(1) k, of tg i y] False by blast
  then have "(\<exists>a'. entry s' tg i a' x) \<longleftrightarrow> (\<exists>a'. entry s tg i a' x)" using False unfolding e by auto metis+
  then show ?thesis using False unfolding tab_entry [OF h(2)] by (auto simp: tab_entry [OF h(1)])
qed

lemma registry_section:
  assumes h: "heap_ok s" and k: "entry s tg i a b" and b': "b_id b' = b_id b" "b_tgid b' = b_tgid b"
  shows "registry_of (s\<lparr>bar := (bar s)(a \<mapsto> b')\<rparr>) =
    (registry_of s)\<lparr>tab := (tab (registry_of s))((tg, i) \<mapsto> b')\<rparr>" (is "registry_of ?s = ?R")
proof (rule registry_eqI)
  note b = entry_tgid [OF h k]
  have h': "heap_ok ?s" using heap_ok_section [OF h _ b'] b by blast
  have e: "entry ?s tg1 i1 a' x \<longleftrightarrow> (if a' = a then Some b' = Some x \<and> tg1 = tg \<and> i1 = i else entry s tg1 i1 a' x)"
    for tg1 i1 a' x
  proof (cases "a' = a")
    case True
    have "entry ?s tg1 i1 a x \<longleftrightarrow> entry s tg1 i1 a b \<and> x = b'" using b b' by (auto simp: entry_def)
    also have "\<dots> \<longleftrightarrow> x = b' \<and> tg1 = tg \<and> i1 = i" using k entry_inj [OF h k, of tg1 i1 b] by auto
    finally show ?thesis using True by auto
  qed (simp add: entry_def)
  show "tab (registry_of ?s) (tg', i') = Some x \<longleftrightarrow> tab ?R (tg', i') = Some x" for tg' i' x
    using tab_change [OF h h' k e, of tg' i' x] by simp
  show "nxt_id (registry_of ?s) tg' = nxt_id ?R tg'" for tg'
    using nxt_id_same [OF h h', of tg'] by simp
qed

lemma registry_unlink:
  assumes h: "heap_ok s" and q: "blk s p = Some q" and a: "a \<in> set (r_head q)" and k: "entry s (r_tgid q) i a b"
  shows "registry_of (s\<lparr>bar := (bar s)(a := None),
      blk := (blk s)(p \<mapsto> q\<lparr>r_head := remove1 a (r_head q), r_size := r_size q - 1\<rparr>)\<rparr>) =
    (registry_of s)\<lparr>tab := (tab (registry_of s))((r_tgid q, i) := None)\<rparr>" (is "registry_of ?s = ?R")
proof (rule registry_eqI)
  have h': "heap_ok ?s" using heap_ok_unlink [OF h q a] .
  have e: "entry ?s tg1 i1 a' x \<longleftrightarrow> (if a' = a then None = Some x \<and> tg1 = r_tgid q \<and> i1 = i else entry s tg1 i1 a' x)"
    for tg1 i1 a' x
  proof (cases "a' = a")
    case False
    have "entry ?s tg1 i1 a' x \<longleftrightarrow> entry s tg1 i1 a' x"
    proof
      assume "entry ?s tg1 i1 a' x"
      then obtain p2 q2 where x: "blk ?s p2 = Some q2" "r_tgid q2 = tg1" "a' \<in> set (r_head q2)" "bar ?s a' = Some x" "b_id x = i1"
        unfolding entry_def by blast
      show "entry s tg1 i1 a' x"
      proof (cases "p2 = p")
        case True
        with x have "a' \<in> set (r_head q)" "r_tgid q = tg1" using set_remove1_subset [of a "r_head q"] by auto
        with entryI [OF q, of a' x] x(4,5) False show ?thesis by simp
      next
        case other: False
        with x False entryI [of s p2 q2 a' x] show ?thesis by simp
      qed
    next
      assume "entry s tg1 i1 a' x"
      then obtain p2 q2 where x: "blk s p2 = Some q2" "r_tgid q2 = tg1" "a' \<in> set (r_head q2)" "bar s a' = Some x" "b_id x = i1"
        unfolding entry_def by blast
      let ?q = "q\<lparr>r_head := remove1 a (r_head q), r_size := r_size q - 1\<rparr>"
      have "blk ?s p2 = Some (if p2 = p then ?q else q2)" using x(1) by simp
      moreover have "r_tgid (if p2 = p then ?q else q2) = tg1" "a' \<in> set (r_head (if p2 = p then ?q else q2))"
        using x q False by (auto simp: in_set_remove1)
      ultimately show "entry ?s tg1 i1 a' x" using entryI [of ?s p2 "if p2 = p then ?q else q2" a' x] x(4,5) False by simp
    qed
    with False show ?thesis by simp
  qed (simp add: entry_def)
  show "tab (registry_of ?s) (tg', i') = Some x \<longleftrightarrow> tab ?R (tg', i') = Some x" for tg' i' x
    using tab_change [OF h h' k e, of tg' i' x] by simp
  have "nxt_id (registry_of ?s) tg' = nxt_id (registry_of s) tg'" for tg'
    by (rule nxt_id_same [OF h h']) (use q in \<open>auto split: if_splits\<close>)
  then show "nxt_id (registry_of ?s) tg' = nxt_id ?R tg'" for tg' by simp
qed

text \<open>The next id of a process is not in use, and linking a barrier adds just that entry.\<close>

lemma next_id_free:
  assumes h: "heap_ok s" and q: "blk s p = Some q" "r_tgid q = fst t"
  shows "\<not> entry s (fst t) (r_count q) a x"
proof
  assume e: "entry s (fst t) (r_count q) a x"
  then obtain p' q' where q': "blk s p' = Some q'" "r_tgid q' = fst t" "a \<in> set (r_head q')" "bar s a = Some x"
    "b_id x = r_count q" unfolding entry_def by blast
  have "p' = p" using h q q' unfolding heap_ok_def by metis
  then have "block_ok s p q" "a \<in> set (r_head q)" using h q q' by (simp_all add: heap_ok_def)
  from block_bar [OF this] q' show False by auto
qed

lemma link_entry:
  assumes h: "heap_ok s" and q: "blk s p = Some q" "r_tgid q = fst t" and l: "r_count q \<noteq> - 1"
  shows "entry (s\<lparr>bar := (bar s)(unused s \<mapsto> init_barrier_struct t c (r_count q)),
      blk := (blk s)(p \<mapsto> q\<lparr>r_count := r_count q + 1, r_size := r_size q + 1, r_head := unused s # r_head q\<rparr>),
      unused := Suc (unused s)\<rparr>) tg i a x \<longleftrightarrow>
    entry s tg i a x \<or> a = unused s \<and> x = init_barrier_struct t c (r_count q) \<and> tg = fst t \<and> i = r_count q"
    (is "entry ?s _ _ _ _ \<longleftrightarrow> _ \<or> ?n")
proof -
  let ?b = "init_barrier_struct t c (r_count q)"
  let ?q = "q\<lparr>r_count := r_count q + 1, r_size := r_size q + 1, r_head := unused s # r_head q\<rparr>"
  have h': "heap_ok ?s" using heap_ok_link [OF h q l] .
  have u: "bar s (unused s) = None" using h unfolding heap_ok_def by blast
  have new: "entry ?s (fst t) (r_count q) (unused s) ?b"
    using entryI [of ?s p ?q "unused s" ?b] q by (simp add: init_barrier_struct_def)
  show ?thesis
  proof
    assume e: "entry ?s tg i a x"
    show "entry s tg i a x \<or> ?n"
    proof (cases "a = unused s")
      case True
      with entry_inj [OF h' new, of tg i x] e show ?thesis by simp
    next
      case False
      from e obtain p2 q2 where x: "blk ?s p2 = Some q2" "r_tgid q2 = tg" "a \<in> set (r_head q2)" "bar ?s a = Some x" "b_id x = i"
        unfolding entry_def by blast
      let ?q2 = "if p2 = p then q else q2"
      have "blk s p2 = Some ?q2" "r_tgid ?q2 = tg" "a \<in> set (r_head ?q2)" using x q False by (auto split: if_splits)
      moreover have "bar s a = Some x" using x(4) False by simp
      ultimately show ?thesis using entryI [of s p2 ?q2 a x] x(5) by simp
    qed
  next
    assume "entry s tg i a x \<or> ?n"
    then show "entry ?s tg i a x"
    proof
      assume "entry s tg i a x"
      then obtain p2 q2 where x: "blk s p2 = Some q2" "r_tgid q2 = tg" "a \<in> set (r_head q2)" "bar s a = Some x" "b_id x = i"
        unfolding entry_def by blast
      let ?q2 = "if p2 = p then ?q else q2"
      have "blk ?s p2 = Some ?q2" "r_tgid ?q2 = tg" "a \<in> set (r_head ?q2)" using x q by auto
      moreover have "bar ?s a = Some x" using x(4) u by auto
      ultimately show ?thesis using entryI [of ?s p2 ?q2 a x] x(5) by simp
    qed (use new in simp)
  qed
qed

lemma registry_link:
  assumes h: "heap_ok s" and q: "blk s p = Some q" "r_tgid q = fst t" and l: "r_count q \<noteq> - 1"
  shows "atomic_step (registry_of s) (registry_of (s\<lparr>bar := (bar s)(unused s \<mapsto> init_barrier_struct t c (r_count q)),
      blk := (blk s)(p \<mapsto> q\<lparr>r_count := r_count q + 1, r_size := r_size q + 1, r_head := unused s # r_head q\<rparr>),
      unused := Suc (unused s)\<rparr>))" (is "atomic_step ?R (registry_of ?s)")
proof -
  let ?q = "q\<lparr>r_count := r_count q + 1, r_size := r_size q + 1, r_head := unused s # r_head q\<rparr>"
  let ?R' = "\<lparr>tab = (tab ?R)((fst t, nxt_id ?R (fst t)) \<mapsto> init_barrier_struct (fst t, snd t) c (nxt_id ?R (fst t))),
      nxt_id = (nxt_id ?R)(fst t := nxt_id ?R (fst t) + 1)\<rparr>"
  have n: "nxt_id ?R (fst t) = r_count q" using nxt_id_block [OF h q(1)] q(2) by simp
  have h': "heap_ok ?s" using heap_ok_link [OF h q l] .
  note e = link_entry [OF h q l] and no = next_id_free [OF h q]
  have "registry_of ?s = ?R'"
  proof (rule registry_eqI)
    show "tab (registry_of ?s) (tg, i) = Some x \<longleftrightarrow> tab ?R' (tg, i) = Some x" for tg i x
      using no by (cases "(tg, i) = (fst t, r_count q)") (auto simp: tab_entry [OF h'] tab_entry [OF h] e n)
    show "nxt_id (registry_of ?s) tg = nxt_id ?R' tg" for tg
    proof (cases "tg = fst t")
      case True
      with nxt_id_block [OF h', of p ?q] q n show ?thesis by simp
    next
      case False
      have "nxt_id (registry_of ?s) tg = nxt_id ?R tg"
        by (rule nxt_id_same [OF h h']) (use q False in \<open>auto split: if_splits\<close>)
      with False show ?thesis by simp
    qed
  qed
  moreover have "tab ?R (fst t, nxt_id ?R (fst t)) = None"
    using tab_entry [OF h, of "fst t" "r_count q"] no n by (cases "tab ?R (fst t, r_count q)") auto
  ultimately show ?thesis using atomic_step.Create [of ?R "fst t" "snd t" c] by simp
qed

text \<open>Every step of a thread is one atomic operation, or none that can be seen.\<close>

lemma registry_step:
  assumes inv: "race_inv s" and l: "ids_left s" and x: "race_exec True t s = Some s'"
  shows "atomic_step (registry_of s) (registry_of s') \<or> registry_of s' = registry_of s"
proof -
  have h: "heap_ok s" and f: "fault_of s = None" and pk: "place_ok s t (place s t)"
    using inv unfolding race_inv_def by blast+
  have live: "\<exists>q. blk s p = Some q \<and> r_tgid q = fst t \<and> r_lock q = None" if "owns s t p" for p
    using that h by (auto simp: owns_def heap_ok_def block_ok_def)
  have seen: "\<exists>b. entry s (fst t) i a b" if "has_bar s t a i" for a i
    using that unfolding has_bar_def entry_def by blast
  note defs = race_exec_def under_head_def
  show ?thesis
  proof (cases "place s t")
    case (I_find c)
    then have "s' = init_find True t c s" using x f by (simp add: defs)
    then show ?thesis using registry_newblock [OF h, of "fst t"] by (cases "find_block (fst t) s") (simp_all add: init_find_def)
  next
    case (I_link p c)
    with live pk obtain q where q: "blk s p = Some q" "r_tgid q = fst t" "r_lock q = None" by auto
    then have "s' = init_link True t p c q s" using x f I_link by (simp add: defs)
    moreover have "r_count q \<noteq> - 1" using l q by (simp add: ids_left_def)
    ultimately show ?thesis using registry_link [OF h q(1,2), of c] by (simp add: init_link_def Let_def)
  next
    case (W_sec r a i)
    with seen pk obtain b where e: "entry s (fst t) i a b" by auto
    then have b: "bar s a = Some b" "tab (registry_of s) (fst t, i) = Some b"
      using entry_tgid [OF h e] tab_entry [OF h] by blast+
    obtain v b' where v: "(if r = Loop1 then wait_section1 b else wait_section2 b) = (v, b')" by fastforce
    then have b': "b_id b' = b_id b" "b_tgid b' = b_tgid b" "b' = snd (wait_section1 b) \<or> b' = snd (wait_section2 b)"
      using section_ids [of b] by (cases "r = Loop1"; simp)+
    from v have "registry_of s' = registry_of (s\<lparr>bar := (bar s)(a \<mapsto> b')\<rparr>)"
      using x f W_sec b(1) by (cases v) (auto simp: defs)
    with registry_section [OF h e b'(1,2)] atomic_step.Section [OF b(2) b'(3)] show ?thesis by simp
  next
    case (D_recycle p a i)
    with live pk obtain q where q: "blk s p = Some q" "r_tgid q = fst t" "r_lock q = None" by auto
    from D_recycle seen pk obtain b where e: "entry s (fst t) i a b" by auto
    have a: "a \<in> set (r_head q)" using owns_bar [OF h _ q(1), of t] D_recycle pk by auto
    have b: "bar s a = Some b" "tab (registry_of s) (fst t, i) = Some b"
      using entry_tgid [OF h e] tab_entry [OF h] e by blast+
    have "s' = destroy_unlink t p a q s" using x f D_recycle q by (simp add: defs)
    moreover have "r_size q - 1 \<noteq> 0" using recycle_not_last [OF inv D_recycle q(1)] by simp
    ultimately have "registry_of s' = (registry_of s)\<lparr>tab := (tab (registry_of s))((fst t, i) := None)\<rparr>"
      using registry_unlink [OF h q(1) a, of i b] e b(1) q(2) by (simp add: destroy_unlink_def Let_def)
    with atomic_step.Remove [OF b(2)] show ?thesis by simp
  qed (use x f pk live in \<open>auto simp: defs split: option.splits if_splits\<close>)
qed

lemma registry_careful:
  "race_inv s \<Longrightarrow> careful_step s s' \<Longrightarrow> atomic_step (registry_of s) (registry_of s') \<or> registry_of s' = registry_of s"
  by (erule careful_step.cases) (use registry_step in auto)

interpretation race: simulation "\<lambda>s. s = empty_dsys" careful_step "\<lambda>R. R = empty_registry" atomic_step registry_of race_inv
proof unfold_locales
  show "registry_of s = empty_registry" if "s = empty_dsys" for s
    using that by (simp add: registry_of_def empty_dsys_def empty_registry_def block_of_def find_block_def fun_eq_iff)
qed (use inv_empty careful_inv registry_careful in auto)

section \<open>Runs\<close>

text \<open>A schedule: a thread makes a call, or goes on in the one it is in.\<close>

fun race_run :: "(thread \<times> call option) list \<Rightarrow> dsys \<Rightarrow> dsys option" where
  "race_run [] s = Some s"
| "race_run ((t, Some op) # xs) s =
     (if fault_of s = None \<and> idle t s then race_run xs (go t (call_place op) s) else None)"
| "race_run ((t, None) # xs) s =
     (case race_exec True t s of None \<Rightarrow> None | Some s' \<Rightarrow> race_run xs s')"

lemma race_run_steps: "race_run xs s = Some s' \<Longrightarrow> race_step\<^sup>*\<^sup>* s s'"
proof (induction xs s rule: race_run.induct)
  case (2 t op xs s)
  then have "race_step s (go t (call_place op) s)" "race_step\<^sup>*\<^sup>* (go t (call_place op) s) s'"
    by (auto intro: race_step.Enter split: if_splits)
  then show ?case by (rule converse_rtranclp_into_rtranclp)
next
  case (3 t xs s)
  then obtain s1 where "race_exec True t s = Some s1" "race_step\<^sup>*\<^sup>* s1 s'" by (auto split: option.splits)
  then show ?case by (meson race_step.Proceed converse_rtranclp_into_rtranclp)
qed simp

text \<open>A run in which threads only create barriers is careful, as long as ids are left.\<close>

fun only_inits :: "(thread \<times> call option) list \<Rightarrow> dsys \<Rightarrow> bool" where
  "only_inits [] s = True"
| "only_inits ((t, Some op) # xs) s = ((\<exists>c. op = Init c) \<and> only_inits xs (go t (call_place op) s))"
| "only_inits ((t, None) # xs) s =
     (ids_left s \<and> (case race_exec True t s of None \<Rightarrow> False | Some s' \<Rightarrow> only_inits xs s'))"

text \<open>A thread that is not destroying goes on without destroying.\<close>

lemma destr_proceed:
  assumes "race_exec km t s = Some s'" and "destr (place s' t') i"
  shows "\<exists>j. destr (place s t') j"
  using assms
  by (cases "t' = t"; cases "place s t")
    (auto simp: race_exec_def under_head_def init_find_def init_link_def destroy_unlink_def Let_def go_def die_def
      split: option.splits if_splits sysret.splits prod.splits)

lemma inits_careful:
  "race_run xs s = Some s' \<Longrightarrow> only_inits xs s \<Longrightarrow> \<forall>t i. \<not> destr (place s t) i \<Longrightarrow> careful_step\<^sup>*\<^sup>* s s'"
proof (induction xs s rule: race_run.induct)
  case (2 t op xs s)
  then obtain c where c: "op = Init c" by auto
  then have "\<not> destr (call_place op) i" for i by (simp add: call_place_def)
  with 2 have "careful_step\<^sup>*\<^sup>* (go t (call_place op) s) s'" by (auto split: if_splits)
  moreover have "careful_step s (go t (call_place op) s)"
    using 2 c by (auto intro!: careful_step.Enter simp: careful_def destroying_destr split: if_splits)
  ultimately show ?case by (rule converse_rtranclp_into_rtranclp [rotated])
next
  case (3 t xs s)
  then obtain s1 where s1: "ids_left s" "race_exec True t s = Some s1" "race_run xs s1 = Some s'" "only_inits xs s1"
    by (auto split: option.splits)
  with 3 destr_proceed [OF s1(2)] have "careful_step\<^sup>*\<^sup>* s1 s'" by blast
  with careful_step.Proceed [OF s1(1,2)] show ?case by (rule converse_rtranclp_into_rtranclp)
qed simp

lemma inits_from_empty:
  "race_run xs empty_dsys = Some s \<Longrightarrow> only_inits xs empty_dsys \<Longrightarrow> careful_step\<^sup>*\<^sup>* empty_dsys s"
  using inits_careful [of xs empty_dsys s] by (simp add: empty_dsys_def)

lemmas run_race = race_exec_def idle_def call_place_def go_def die_def init_find_def init_link_def under_head_def
  find_block_def find_barrier_def destroy_unlink_def new_block_def init_barrier_struct_def empty_dsys_def Let_def
  ids_left_def destroy_section_def

text \<open>Two threads that create the first two barriers of a process at the same time.\<close>

definition two_inits :: "(thread \<times> call option) list" where
  "two_inits = [((1, 1), Some (Init 2)), ((1, 1), None), ((1, 1), None),
     ((1, 2), Some (Init 2)), ((1, 2), None), ((1, 2), None), ((1, 2), None), ((1, 2), None), ((1, 2), None),
     ((1, 1), None)]"

lemma two_inits_run:
  "\<exists>s. race_run two_inits empty_dsys = Some s \<and> only_inits two_inits empty_dsys
     \<and> place s (1, 2) = Back 0 (Some 0) \<and> place s (1, 1) = Back (- 1) None \<and> fault_of s = None"
  by (simp add: two_inits_def run_race)

lemma two_inits_registry:
  "\<exists>s. race_run two_inits empty_dsys = Some s \<and> only_inits two_inits empty_dsys
     \<and> map_option b_count (tab (registry_of s) (1, 0)) = Some 2 \<and> nxt_id (registry_of s) 1 = 1"
  by (simp add: two_inits_def run_race registry_of_def block_of_def)

section \<open>Properties\<close>



text \<open>
  (C5) In a careful use the driver is a registry of barriers with atomic operations. Lists of
  blocks, lists of barriers, per-process counters and lookups that run in separate critical
  sections can be replaced by one table from process and id to barrier and one next id per
  process: every interleaving of \<open>barrier_init\<close>, \<open>barrier_wait\<close> and \<open>barrier_destroy\<close> is a
  sequence of steps that create a barrier under the next id, which is free, run a section of a
  wait on one existing barrier, or remove one existing barrier, and nothing else.
\<close>

theorem barrier_race_refines:
  assumes "careful_step\<^sup>*\<^sup>* empty_dsys s"
  shows "atomic_step\<^sup>*\<^sup>* empty_registry (registry_of s)"
  using race.simulates [OF assms refl] race.abs_init by simp

theorem barrier_race_refines_witness:
  "\<exists>s. careful_step\<^sup>*\<^sup>* empty_dsys s \<and> atomic_step\<^sup>*\<^sup>* empty_registry (registry_of s)
     \<and> map_option b_count (tab (registry_of s) (1, 0)) = Some 2 \<and> nxt_id (registry_of s) 1 = 1"
proof -
  obtain s where s: "race_run two_inits empty_dsys = Some s" "only_inits two_inits empty_dsys"
    "map_option b_count (tab (registry_of s) (1, 0)) = Some 2 \<and> nxt_id (registry_of s) 1 = 1"
    using two_inits_registry by blast
  from inits_from_empty [OF s(1,2)] barrier_race_refines [of s] s(3) show ?thesis by blast
qed

text \<open>
  \<open>barrier_init\<close> can fail for no reason. It reads the counter of its process without the
  lock and refuses the call if a barrier with that id exists. When another thread creates its
  barrier in between, the id is taken although the counter has moved on: of two threads that
  create the first two barriers of a process, with ids left and all allocations successful, one
  gets barrier 0 and the other -1.
\<close>

lemma barrier_init_spurious_failure:
  "\<exists>s. careful_step\<^sup>*\<^sup>* empty_dsys s \<and> place s (1, 2) = Back 0 (Some 0) \<and> place s (1, 1) = Back (- 1) None
     \<and> fault_of s = None"
  using two_inits_run inits_from_empty by blast

text \<open>
  The block of a process is freed under the feet of a thread that creates a barrier: the
  thread has found the block, another one destroys the last barrier and frees the block, and the
  counter is read from freed memory.
\<close>

lemma barrier_init_destroy_race:
  "\<exists>s. race_step\<^sup>*\<^sup>* empty_dsys s \<and> fault_of s = Some UseAfterFree \<and> place s (1, 2) = I_read 0 2"
proof -
  let ?xs = "[((1, 1), Some (Init 2)), ((1, 1), None), ((1, 1), None), ((1, 1), None), ((1, 1), None), ((1, 1), None),
    ((1, 2), Some (Init 2)), ((1, 2), None),
    ((1, 1), Some (Destroy 0)), ((1, 1), None), ((1, 1), None), ((1, 1), None), ((1, 1), None), ((1, 1), None),
    ((1, 1), None), ((1, 2), None)] :: (thread \<times> call option) list"
  have "\<exists>s. race_run ?xs empty_dsys = Some s \<and> fault_of s = Some UseAfterFree \<and> place s (1, 2) = I_read 0 2"
    by (simp add: run_race)
  then show ?thesis using race_run_steps by blast
qed

text \<open>Two threads that destroy the same barrier both find it, and the second uses it after it was freed.\<close>

lemma barrier_double_destroy_race:
  "\<exists>s. race_step\<^sup>*\<^sup>* empty_dsys s \<and> fault_of s = Some UseAfterFree \<and> place s (1, 1) = Back 0 None
     \<and> place s (1, 2) = D_drain 0 1 0"
proof -
  let ?xs = "[((1, 1), Some (Init 2)), ((1, 1), None), ((1, 1), None), ((1, 1), None), ((1, 1), None), ((1, 1), None),
    ((1, 2), Some (Init 2)), ((1, 2), None), ((1, 2), None), ((1, 2), None), ((1, 2), None), ((1, 2), None),
    ((1, 1), Some (Destroy 0)), ((1, 1), None), ((1, 1), None),
    ((1, 2), Some (Destroy 0)), ((1, 2), None), ((1, 2), None),
    ((1, 1), None), ((1, 1), None), ((1, 2), None)] :: (thread \<times> call option) list"
  have "\<exists>s. race_run ?xs empty_dsys = Some s \<and> fault_of s = Some UseAfterFree \<and> place s (1, 1) = Back 0 None
      \<and> place s (1, 2) = D_drain 0 1 0"
    by (simp add: run_race)
  then show ?thesis using race_run_steps by blast
qed

text \<open>
  The log lines after the lock: a thread that has passed its barrier and a \<open>barrier_init\<close> that
  has linked its barrier read it once more, and another thread that destroys it in between makes
  them read freed memory. The first destroy comes when the thread has only its log line left to
  print, the second when the \<open>barrier_init\<close> has.
\<close>

lemma barrier_wait_log_race:
  "\<exists>s. race_step\<^sup>*\<^sup>* empty_dsys s \<and> fault_of s = Some UseAfterFree \<and> place s (1, 1) = Back 0 None
     \<and> place s (1, 2) = W_log 1 0 0"
proof -
  let ?xs = "[((1, 1), Some (Init 1)), ((1, 1), None), ((1, 1), None), ((1, 1), None), ((1, 1), None), ((1, 1), None),
    ((1, 2), Some (Init 1)), ((1, 2), None), ((1, 2), None), ((1, 2), None), ((1, 2), None), ((1, 2), None),
    ((1, 2), Some (Wait 0)), ((1, 2), None), ((1, 2), None), ((1, 2), None),
    ((1, 1), Some (Destroy 0)), ((1, 1), None), ((1, 1), None), ((1, 1), None), ((1, 1), None),
    ((1, 2), None)] :: (thread \<times> call option) list"
  have "\<exists>s. race_run ?xs empty_dsys = Some s \<and> fault_of s = Some UseAfterFree \<and> place s (1, 1) = Back 0 None
      \<and> place s (1, 2) = W_log 1 0 0"
    by (simp add: run_race wait_section1_def wake_up_here_def BARRIER_FLAG_def)
  then show ?thesis using race_run_steps by blast
qed

lemma barrier_init_log_race:
  "\<exists>s. race_step\<^sup>*\<^sup>* empty_dsys s \<and> fault_of s = Some UseAfterFree \<and> place s (1, 1) = Back 0 None
     \<and> place s (1, 2) = I_log 2 1"
proof -
  let ?xs = "[((1, 1), Some (Init 1)), ((1, 1), None), ((1, 1), None), ((1, 1), None), ((1, 1), None), ((1, 1), None),
    ((1, 2), Some (Init 1)), ((1, 2), None), ((1, 2), None), ((1, 2), None), ((1, 2), None),
    ((1, 1), Some (Destroy 1)), ((1, 1), None), ((1, 1), None), ((1, 1), None), ((1, 1), None),
    ((1, 2), None)] :: (thread \<times> call option) list"
  have "\<exists>s. race_run ?xs empty_dsys = Some s \<and> fault_of s = Some UseAfterFree \<and> place s (1, 1) = Back 0 None
      \<and> place s (1, 2) = I_log 2 1"
    by (simp add: run_race)
  then show ?thesis using race_run_steps by blast
qed

end
