(* ===== verification/Mprobe.thy ===== *)
theory Mprobe
  imports Contracts
begin

text \<open>
  The kprobe debugger \<open>mprobe/mprobe.c\<close>: the probe handler that records a ring of ten
  results, reading the ring back, setting a new probe, module load and unload. Memory the
  handler reads through computed addresses is a parameter (\<open>None\<close> where nothing is
  mapped), as are the answers of the allocator and of \<open>register_kprobe\<close>.
\<close>

section \<open>Data\<close>

abbreviation RING_SIZE :: nat where "RING_SIZE \<equiv> 10"

record module_sections =
  bss :: u64
  text_sect :: u64

record debug_request =
  of_line :: u64
  of_local :: u32
  of_gbl :: u32
  sect :: module_sections

record debug_result =
  r_addr :: u64
  r_pid :: u64
  xtc :: u64
  g_var :: s32
  local_var :: s32

text \<open>A C string pointer: null, a buffer, or whatever an uninitialised block held.\<close>

datatype cstr = Null | Buf "byte list" | Garbage

record kprobe =
  kp_addr :: u64
  symbol_name :: cstr
  handlers :: bool

datatype mlock = G_rbf_lock

text \<open>
  \<open>kp\<close> is a pointer into the allocated probes \<open>kheap\<close>; \<open>registered\<close> are the probes
  the kernel knows.
\<close>

record mprobe = "mlock locked" +
  kp :: "nat option"
  kheap :: "nat \<Rightarrow> kprobe option"
  registered :: "nat set"
  rbf_idx :: u32
  rbf_req :: debug_request
  rbf_rst :: "debug_result list"
  mp_resources :: "kres set"

section \<open>The probe handler\<close>

record pt_regs =
  ip :: u64
  sp :: u64
  bp :: u64

definition set_rst :: "nat \<Rightarrow> (debug_result \<Rightarrow> debug_result) \<Rightarrow> mprobe \<Rightarrow> mprobe" where
  "set_rst i f st = st\<lparr>rbf_rst := (rbf_rst st)[i := f (rbf_rst st ! i)]\<rparr>"

definition deref :: "('a \<Rightarrow> 'b option) \<Rightarrow> 'a \<Rightarrow> ('b, 's) cmd" where
  "deref rd a = (case rd a of None \<Rightarrow> crash PageFault | Some v \<Rightarrow> ret v)"

text \<open>
  \<open>rd32\<close> and \<open>rd64\<close> read an \<open>int\<close> and an \<open>unsigned long\<close> from memory; \<open>pid\<close> and
  \<open>cycles\<close> are the current process id and the cycle counter. The last read is that of
  the log line.
\<close>

definition handler_pre ::
  "(u64 \<Rightarrow> s32 option) \<Rightarrow> (u64 \<Rightarrow> u64 option) \<Rightarrow> u64 \<Rightarrow> u64 \<Rightarrow> pt_regs \<Rightarrow> (int, mprobe) cmd" where
  "handler_pre rd32 rd64 pid cycles regs =
     bnd (spin_lock G_rbf_lock) (\<lambda>_.
     bnd (look (\<lambda>st. (sp regs + ucast (of_local (rbf_req st)),
                      bss (sect (rbf_req st)) + ucast (of_gbl (rbf_req st)), unat (rbf_idx st))))
       (\<lambda>(local_addr, g_addr, i).
     bnd (upd (\<lambda>st. st\<lparr>rbf_idx := (rbf_idx st + 1) mod 10\<rparr>)) (\<lambda>_.
     if RING_SIZE \<le> i then crash OutOfBounds
     else
       bnd (upd (set_rst i (\<lambda>d. d\<lparr>r_addr := ip regs, r_pid := pid, xtc := cycles\<rparr>))) (\<lambda>_.
       bnd (deref rd32 local_addr) (\<lambda>l.
       bnd (upd (set_rst i (\<lambda>d. d\<lparr>local_var := l\<rparr>))) (\<lambda>_.
       bnd (deref rd32 g_addr) (\<lambda>g.
       bnd (upd (set_rst i (\<lambda>d. d\<lparr>g_var := g\<rparr>))) (\<lambda>_.
       bnd (deref rd64 (bp regs)) (\<lambda>_.
       bnd (spin_unlock G_rbf_lock) (\<lambda>_.
       ret 0))))))))))"

definition handler_fault :: "(int, mprobe) cmd" where "handler_fault = ret 0"
definition handler_break :: "(int, mprobe) cmd" where "handler_break = ret 0"
definition handler_post :: "(unit, mprobe) cmd" where "handler_post = ret ()"

section \<open>Strings\<close>

text \<open>\<open>None\<close> when the loop runs off the end of the object.\<close>

fun mp_strlen :: "byte list \<Rightarrow> nat option" where
  "mp_strlen [] = None"
| "mp_strlen (c # s) = (if c = 0 then Some 0 else map_option Suc (mp_strlen s))"

fun mprobe_strcpy :: "byte list \<Rightarrow> byte list \<Rightarrow> byte list option" where
  "mprobe_strcpy [] src = None"
| "mprobe_strcpy (d # dst) [] = None"
| "mprobe_strcpy (d # dst) (c # src) =
     (if c = 0 then Some (0 # dst) else map_option (Cons c) (mprobe_strcpy dst src))"

section \<open>Making and dropping a probe\<close>

text \<open>
  \<open>destroy_kp\<close> frees the name and forgets the pointer; the probe itself stays allocated.
\<close>

definition destroy_kp :: "(int, mprobe) cmd" where
  "destroy_kp st =
     (case kp st of
        None \<Rightarrow> Ret (- EINVAL) st
      | Some p \<Rightarrow>
          (case kheap st p of
             None \<Rightarrow> Oops UseAfterFree st
           | Some k \<Rightarrow>
               (case symbol_name k of
                  Garbage \<Rightarrow> Oops UseAfterFree st
                | _ \<Rightarrow> Ret 0 (st\<lparr>kp := None\<rparr>))))"

text \<open>
  \<open>init_kp\<close> on the block at \<open>p\<close> (\<open>None\<close>: a null pointer); \<open>kmalloc n\<close> is the block
  an allocation of \<open>n\<close> bytes returns.
\<close>

definition init_kp ::
  "(nat \<Rightarrow> byte list option) \<Rightarrow> nat option \<Rightarrow> u64 \<Rightarrow> byte list option \<Rightarrow> (int, mprobe) cmd" where
  "init_kp kmalloc p addr symbol st =
     (if addr = 0 \<and> symbol = None then Ret (- EINVAL) st
      else case p of
        None \<Rightarrow> Oops NullDeref st
      | Some q \<Rightarrow>
          let put = (\<lambda>sym. st\<lparr>kheap := (kheap st)(q \<mapsto> \<lparr>kp_addr = addr, symbol_name = sym, handlers = True\<rparr>)\<rparr>)
          in (case symbol of
                None \<Rightarrow> Ret 0 (put Null)
              | Some s \<Rightarrow>
                  (case mp_strlen s of
                     None \<Rightarrow> Oops OutOfBounds st
                   | Some n \<Rightarrow>
                       (case kmalloc (n + 1) of
                          None \<Rightarrow> Oops NullDeref st
                        | Some b \<Rightarrow>
                            (case mprobe_strcpy b s of
                               None \<Rightarrow> Oops OutOfBounds st
                             | Some b' \<Rightarrow> Ret 0 (put (Buf b')))))))"

section \<open>File operations\<close>

definition mprobe_open :: "(int, mprobe) cmd" where "mprobe_open = ret 0"
definition mprobe_release :: "(int, mprobe) cmd" where "mprobe_release = ret 0"
definition mprobe_unlocked_ioctl :: "(int, mprobe) cmd" where "mprobe_unlocked_ioctl = ret 0"

definition bytes_of_result :: "debug_result \<Rightarrow> byte list" where
  "bytes_of_result d = le64 (r_addr d) @ le64 (r_pid d) @ le64 (xtc d) @ le32 (g_var d) @ le32 (local_var d)"

definition result_of_bytes :: "byte list \<Rightarrow> debug_result" where
  "result_of_bytes bs = \<lparr>r_addr = of_le64 (take 8 bs), r_pid = of_le64 (take 8 (drop 8 bs)),
     xtc = of_le64 (take 8 (drop 16 bs)), g_var = of_le32 (take 4 (drop 24 bs)),
     local_var = of_le32 (take 4 (drop 28 bs))\<rparr>"

text \<open>The scan for the first result that was never written.\<close>

fun used_results :: "debug_result list \<Rightarrow> nat" where
  "used_results [] = 0"
| "used_results (d # ds) = (if xtc d = 0 then 0 else Suc (used_results ds))"

text \<open>
  \<open>um\<close> is the caller's memory from \<open>buf\<close> on, \<open>failed\<close> the number of bytes
  \<open>copy_to_user\<close> could not write. The count the caller passed is not used.
\<close>

definition mprobe_read :: "nat \<Rightarrow> nat \<Rightarrow> byte list \<Rightarrow> (int \<times> byte list, mprobe) cmd" where
  "mprobe_read count failed um =
     bnd (spin_lock G_rbf_lock) (\<lambda>_.
     bnd (look rbf_rst) (\<lambda>rst.
     if xtc (rst ! 0) = 0
     then bnd (spin_unlock G_rbf_lock) (\<lambda>_. ret (- EINVAL, um))
     else
       bnd (spin_unlock G_rbf_lock) (\<lambda>_.
       let i = used_results rst;
           um' = copy_to_user 0 (concat (map bytes_of_result (take i rst))) failed um
       in if 0 > int failed then ret (- EINVAL, um') else ret (int (32 * i), um'))))"

text \<open>
  \<open>req\<close> is what the caller's pointer points to (\<open>None\<close>: not mapped), read directly.
  \<open>addr\<close> and \<open>junk\<close> are the address and the contents of the new block (\<open>None\<close>: no
  memory), \<open>rk\<close> is the answer of \<open>register_kprobe\<close>, which the code ignores.
\<close>

definition unregister_kprobe :: "(unit, mprobe) cmd" where
  "unregister_kprobe = upd (\<lambda>st. st\<lparr>registered := registered st - set_option (kp st)\<rparr>)"

definition register_kprobe :: "int \<Rightarrow> (unit, mprobe) cmd" where
  "register_kprobe rk =
     bnd (look kp) (\<lambda>p.
       case p of
         None \<Rightarrow> crash NullDeref
       | Some q \<Rightarrow> upd (\<lambda>st. if rk = 0 then st\<lparr>registered := insert q (registered st)\<rparr> else st))"

definition mprobe_write ::
  "debug_request option \<Rightarrow> (nat \<times> kprobe) option \<Rightarrow> int \<Rightarrow> (int, mprobe) cmd" where
  "mprobe_write req block rk =
     bnd (look kp) (\<lambda>p.
     bnd (if p \<noteq> None then bnd unregister_kprobe (\<lambda>_. bnd destroy_kp (\<lambda>_. ret ())) else ret ()) (\<lambda>_.
     bnd (case req of None \<Rightarrow> crash PageFault | Some r \<Rightarrow> ret r) (\<lambda>r.
     bnd (upd (\<lambda>st. case block of
            None \<Rightarrow> st\<lparr>kp := None\<rparr>
          | Some (a, junk) \<Rightarrow> st\<lparr>kp := Some a, kheap := (kheap st)(a \<mapsto> junk)\<rparr>)) (\<lambda>_.
     bnd (init_kp (\<lambda>_. None) (map_option fst block) (of_line r + text_sect (sect r)) None) (\<lambda>_.
     bnd (spin_lock G_rbf_lock) (\<lambda>_.
     bnd (upd (\<lambda>st. st\<lparr>rbf_req := r\<rparr>)) (\<lambda>_.
     bnd (spin_unlock G_rbf_lock) (\<lambda>_.
     bnd (register_kprobe rk) (\<lambda>_.
     ret 0)))))))))"

section \<open>Module load and unload\<close>

definition mprobe_init :: "int \<Rightarrow> bool \<Rightarrow> int \<Rightarrow> (int, mprobe) cmd" where
  "mprobe_init region_ret kmalloc_ok cdev_ret st =
     (if 0 > region_ret then Ret (- EINVAL) st
      else let st1 = st\<lparr>mp_resources := mp_resources st \<union> {Region, ClassObj}\<rparr> in
      if \<not> kmalloc_ok then Oops NullDeref st1
      else let st2 = st1\<lparr>mp_resources := mp_resources st1 \<union> {DevStruct}\<rparr> in
      if cdev_ret \<noteq> 0 then Ret cdev_ret st2
      else Ret 0 (st2\<lparr>mp_resources := mp_resources st2 \<union> {CdevReg, DevNode}\<rparr>))"

definition mprobe_exit :: "(unit, mprobe) cmd" where
  "mprobe_exit =
     bnd (look (\<lambda>st. case Option.bind (kp st) (kheap st) of
            None \<Rightarrow> False
          | Some k \<Rightarrow> kp_addr k \<noteq> 0 \<or> symbol_name k \<noteq> Null)) (\<lambda>live.
     bnd (if live then bnd unregister_kprobe (\<lambda>_. bnd destroy_kp (\<lambda>_. ret ())) else ret ()) (\<lambda>_.
     upd (\<lambda>st. st\<lparr>mp_resources := mp_resources st - {Region, DevNode, CdevReg, DevStruct, ClassObj}\<rparr>)))"

section \<open>The ring of results\<close>

definition mp_inv :: "mprobe \<Rightarrow> bool" where
  "mp_inv st \<longleftrightarrow> length (rbf_rst st) = RING_SIZE \<and> unat (rbf_idx st) < RING_SIZE"

definition mp_push :: "debug_result \<Rightarrow> mprobe \<Rightarrow> mprobe" where
  "mp_push d st =
     st\<lparr>rbf_rst := (rbf_rst st)[unat (rbf_idx st) := d], rbf_idx := (rbf_idx st + 1) mod 10\<rparr>"

lemma next_idx: "unat i < 10 \<Longrightarrow> unat ((i + 1) mod 10 :: u32) = Suc (unat i) mod 10"
  by (simp add: unat_mod_distrib unat_word_ariths)

interpretation mp: ring_log "\<lambda>st. length (rbf_rst st)" "\<lambda>st i. rbf_rst st ! i"
  "\<lambda>st. unat (rbf_idx st)" mp_push mp_inv
  by unfold_locales (auto simp: mp_inv_def mp_push_def next_idx)

text \<open>One hit of the probe: what memory holds, who runs, when and where.\<close>

record hit =
  h_rd32 :: "u64 \<Rightarrow> s32 option"
  h_rd64 :: "u64 \<Rightarrow> u64 option"
  h_pid :: u64
  h_cycles :: u64
  h_regs :: pt_regs

definition hit_result :: "debug_request \<Rightarrow> hit \<Rightarrow> debug_result option" where
  "hit_result req h =
     (case (h_rd32 h (sp (h_regs h) + ucast (of_local req)), h_rd32 h (bss (sect req) + ucast (of_gbl req)),
            h_rd64 h (bp (h_regs h))) of
        (Some l, Some g, Some _) \<Rightarrow>
          Some \<lparr>r_addr = ip (h_regs h), r_pid = h_pid h, xtc = h_cycles h, g_var = g, local_var = l\<rparr>
      | _ \<Rightarrow> None)"

abbreviation run_hit :: "hit \<Rightarrow> (int, mprobe) cmd" where
  "run_hit h \<equiv> handler_pre (h_rd32 h) (h_rd64 h) (h_pid h) (h_cycles h) (h_regs h)"

fun run_hits :: "hit list \<Rightarrow> (int, mprobe) cmd" where
  "run_hits [] = ret 0"
| "run_hits (h # hs) = bnd (run_hit h) (\<lambda>_. run_hits hs)"

lemma held_same_mp: "held st = h \<Longrightarrow> st\<lparr>held := h\<rparr> = st" for st :: mprobe
  by (cases st) simp

lemma all_fields:
  "d\<lparr>r_addr := a, r_pid := p, xtc := x, local_var := l, g_var := g\<rparr> =
    \<lparr>r_addr = a, r_pid = p, xtc = x, g_var = g, local_var = l\<rparr>"
  by (cases d) simp

lemma hit_ok:
  assumes "mp_inv st" and "held st = {}" and "hit_result (rbf_req st) h = Some d"
  shows "run_hit h st = Ret 0 (mp_push d st)"
  using assms
  by (auto simp: hit_result_def handler_pre_def run_simps deref_def mp_inv_def set_rst_def mp_push_def
      all_fields split: option.splits intro!: mprobe.equality)

lemma mp_push_keeps [simp]: "held (mp_push d st) = held st" "rbf_req (mp_push d st) = rbf_req st"
  by (simp_all add: mp_push_def)

lemma hits_ok:
  "mp_inv st \<Longrightarrow> held st = {} \<Longrightarrow> map (hit_result (rbf_req st)) hs = map Some ds \<Longrightarrow>
    run_hits hs st = Ret 0 (fold mp_push ds st)"
proof (induction hs arbitrary: ds st)
  case (Cons h hs)
  then obtain d ds' where "ds = d # ds'" "hit_result (rbf_req st) h = Some d"
    "map (hit_result (rbf_req st)) hs = map Some ds'" by (cases ds) auto
  with Cons hit_ok [of st h d] mp.push_invar [of st d] show ?case by (simp add: bnd_def)
qed (simp add: ret_def)

section \<open>Reading the ring\<close>

lemma length_bytes_of_result [simp]: "length (bytes_of_result d) = 32"
  by (simp add: bytes_of_result_def)

lemma result_of_bytes_of_result [simp]: "result_of_bytes (bytes_of_result d) = d"
  by (simp add: result_of_bytes_def bytes_of_result_def)

lemma used_results_eq:
  "m \<le> length ds \<Longrightarrow> (\<And>i. i < m \<Longrightarrow> xtc (ds ! i) \<noteq> 0) \<Longrightarrow> (m < length ds \<Longrightarrow> xtc (ds ! m) = 0) \<Longrightarrow>
    used_results ds = m"
proof (induction ds arbitrary: m)
  case (Cons d ds)
  show ?case
  proof (cases m)
    case 0
    then show ?thesis using Cons.prems(3) by simp
  next
    case (Suc k)
    then show ?thesis
      using Cons.prems(1,3) Cons.prems(2) [of 0] Cons.prems(2) [of "Suc i" for i] Cons.IH [of k] by force
  qed
qed simp

definition fresh_ring :: "mprobe \<Rightarrow> bool" where
  "fresh_ring st \<longleftrightarrow> mp_inv st \<and> rbf_idx st = 0 \<and> (\<forall>d \<in> set (rbf_rst st). xtc d = 0)"

text \<open>What the ring of a fresh module holds after some hits.\<close>

lemma ring_after:
  assumes f: "fresh_ring st" and nz: "\<forall>d \<in> set ds. xtc d \<noteq> 0"
  defines "m \<equiv> min (length ds) RING_SIZE" and "st' \<equiv> fold mp_push ds st"
  shows "length (rbf_rst st') = RING_SIZE" and "used_results (rbf_rst st') = m"
    and "j < m \<Longrightarrow> rbf_rst st' ! ((length ds - Suc j) mod RING_SIZE) = rev ds ! j"
proof -
  have inv: "mp_inv st" "rbf_idx st = 0" "length (rbf_rst st) = RING_SIZE"
    using f by (auto simp: fresh_ring_def mp_inv_def)
  show len: "length (rbf_rst st') = RING_SIZE"
    using mp.push_all_size [OF inv(1), of ds] inv(3) by (simp add: st'_def)
  have sl: "rbf_rst st' ! ((length ds - Suc j) mod RING_SIZE) = rev ds ! j" if "j < m" for j
    using mp.slot_push_all [OF inv(1), of j ds] that inv by (simp add: st'_def m_def)
  then show "j < m \<Longrightarrow> rbf_rst st' ! ((length ds - Suc j) mod RING_SIZE) = rev ds ! j" .
  show "used_results (rbf_rst st') = m"
  proof (rule used_results_eq)
    show "m \<le> length (rbf_rst st')" by (simp add: len m_def)
    show "xtc (rbf_rst st' ! i) \<noteq> 0" if im: "i < m" for i
    proof -
      obtain j where j: "j < m" "(length ds - Suc j) mod RING_SIZE = i"
        using ring_slot_of [OF im [unfolded m_def]] by (auto simp: m_def)
      have "rev ds ! j \<in> set (rev ds)" using j(1) by (intro nth_mem) (simp add: m_def)
      with sl [OF j(1)] j(2) nz show ?thesis by auto
    qed
    assume "m < length (rbf_rst st')"
    then have lt: "m = length ds" "m < RING_SIZE" by (auto simp: len m_def)
    then have "rbf_rst st' ! m = rbf_rst st ! m"
      using mp.slot_unwritten [OF inv(1), of ds m] inv by (simp add: st'_def)
    with f lt inv(3) show "xtc (rbf_rst st' ! m) = 0" by (simp add: fresh_ring_def)
  qed
qed

lemma read_ok:
  assumes "held st = {}" and "0 < used_results (rbf_rst st)"
  shows "mprobe_read count failed um st =
    Ret (int (32 * used_results (rbf_rst st)),
         copy_to_user 0 (concat (map bytes_of_result (take (used_results (rbf_rst st)) (rbf_rst st)))) failed um) st"
proof -
  have "xtc (rbf_rst st ! 0) \<noteq> 0" using assms(2) by (cases "rbf_rst st") (auto split: if_splits)
  with assms(1) show ?thesis by (simp add: mprobe_read_def run_simps Let_def held_same_mp)
qed

lemma read_empty:
  assumes "held st = {}" and "used_results (rbf_rst st) = 0" and "rbf_rst st \<noteq> []"
  shows "mprobe_read count failed um st = Ret (- EINVAL, um) st"
proof -
  have "xtc (rbf_rst st ! 0) = 0" using assms(2,3) by (cases "rbf_rst st") (auto split: if_splits)
  with assms(1) show ?thesis by (simp add: mprobe_read_def run_simps held_same_mp)
qed

section \<open>Setting probes\<close>

definition kp_ok :: "mprobe \<Rightarrow> bool" where
  "kp_ok st \<longleftrightarrow> held st = {} \<and>
     (case kp st of None \<Rightarrow> True | Some p \<Rightarrow> (\<exists>k. kheap st p = Some k \<and> symbol_name k \<noteq> Garbage))"

lemma drop_probe:
  assumes "kp_ok st" and "kp st \<noteq> None"
  shows "bnd unregister_kprobe (\<lambda>_. bnd destroy_kp (\<lambda>_. ret ())) st =
    Ret () (st\<lparr>kp := None, registered := registered st - set_option (kp st)\<rparr>)"
  using assms
  by (auto simp: kp_ok_def run_simps unregister_kprobe_def destroy_kp_def split: cstr.splits)

definition probe_at :: "debug_request \<Rightarrow> u64" where
  "probe_at r = of_line r + text_sect (sect r)"

lemma write_run:
  assumes ok: "kp_ok st"
  shows "mprobe_write (Some r) (Some (a, junk)) rk st =
    Ret 0 (st\<lparr>kp := Some a,
      kheap := (kheap st)(a \<mapsto> if probe_at r = 0 then junk
        else \<lparr>kp_addr = probe_at r, symbol_name = Null, handlers = True\<rparr>),
      rbf_req := r,
      registered := registered st - set_option (kp st) \<union> (if rk = 0 then {a} else {})\<rparr>)"
proof -
  have h: "held st = {}" using ok by (simp add: kp_ok_def)
  show ?thesis
  proof (cases "kp st")
    case None
    then show ?thesis
      using h by (auto simp: mprobe_write_def run_simps init_kp_def register_kprobe_def probe_at_def
          Let_def intro!: mprobe.equality)
  next
    case (Some p)
    with drop_probe [OF ok] h show ?thesis
      by (auto simp: mprobe_write_def run_simps init_kp_def register_kprobe_def probe_at_def
          Let_def intro!: mprobe.equality)
  qed
qed

type_synonym probe_write = "debug_request \<times> (nat \<times> kprobe) \<times> int"

fun mprobe_writes :: "probe_write list \<Rightarrow> (int, mprobe) cmd" where
  "mprobe_writes [] = ret 0"
| "mprobe_writes ((r, b, rk) # ws) = bnd (mprobe_write (Some r) (Some b) rk) (\<lambda>_. mprobe_writes ws)"

definition blocks :: "probe_write list \<Rightarrow> nat list" where
  "blocks ws = map (\<lambda>(r, b, rk). fst b) ws"

text \<open>Only the current probe is ever registered, and no probe block is ever given back.\<close>

lemma writes_run:
  "kp_ok st \<Longrightarrow> registered st \<subseteq> set_option (kp st) \<Longrightarrow> \<forall>(r, b, rk) \<in> set ws. probe_at r \<noteq> 0 \<Longrightarrow>
   \<exists>st'. mprobe_writes ws st = Ret 0 st' \<and> kp_ok st' \<and> registered st' \<subseteq> set_option (kp st')
     \<and> dom (kheap st') = dom (kheap st) \<union> set (blocks ws)
     \<and> kp st' = (if ws = [] then kp st else Some (last (blocks ws)))
     \<and> (ws \<noteq> [] \<longrightarrow> (\<exists>k. kheap st' (last (blocks ws)) = Some k \<and> kp_addr k \<noteq> 0))"
proof (induction ws arbitrary: st)
  case Nil
  then show ?case by (simp add: ret_def blocks_def)
next
  case (Cons w ws)
  obtain r a junk rk where w: "w = (r, (a, junk), rk)" by (cases w) auto
  have r: "probe_at r \<noteq> 0" using Cons.prems(3) by (simp add: w)
  define u where "u = st\<lparr>kp := Some a,
      kheap := (kheap st)(a \<mapsto> \<lparr>kp_addr = probe_at r, symbol_name = Null, handlers = True\<rparr>),
      rbf_req := r, registered := registered st - set_option (kp st) \<union> (if rk = 0 then {a} else {})\<rparr>"
  have s: "mprobe_write (Some r) (Some (a, junk)) rk st = Ret 0 u"
    using write_run [OF Cons.prems(1), of r a junk rk] r by (simp add: u_def)
  have u: "kp_ok u" "registered u \<subseteq> set_option (kp u)" "kp u = Some a"
    "dom (kheap u) = insert a (dom (kheap st))" "\<exists>k. kheap u a = Some k \<and> kp_addr k \<noteq> 0"
    using Cons.prems(1,2) r by (auto simp: kp_ok_def u_def)
  have ws: "\<forall>(r, b, rk) \<in> set ws. probe_at r \<noteq> 0" using Cons.prems(3) by auto
  from Cons.IH [OF u(1,2) ws] obtain st' where st': "mprobe_writes ws u = Ret 0 st'"
    "kp_ok st'" "registered st' \<subseteq> set_option (kp st')"
    "dom (kheap st') = dom (kheap u) \<union> set (blocks ws)"
    "kp st' = (if ws = [] then kp u else Some (last (blocks ws)))"
    "ws \<noteq> [] \<longrightarrow> (\<exists>k. kheap st' (last (blocks ws)) = Some k \<and> kp_addr k \<noteq> 0)" by blast
  have run: "mprobe_writes (w # ws) st = Ret 0 st'" using s st'(1) by (simp add: w bnd_def)
  have nil: "ws = [] \<Longrightarrow> st' = u" using st'(1) by (simp add: ret_def)
  show ?case
  proof (cases "ws = []")
    case True
    with run nil u show ?thesis by (intro exI [of _ u]) (simp add: blocks_def w)
  next
    case False
    with run st' u show ?thesis by (intro exI [of _ st']) (simp add: blocks_def w)
  qed
qed

lemma exit_run:
  assumes "kp_ok st" and "kp st = Some p" and "kheap st p = Some k" and "kp_addr k \<noteq> 0"
  shows "mprobe_exit st = Ret () (st\<lparr>kp := None, registered := registered st - {p},
    mp_resources := mp_resources st - {Region, DevNode, CdevReg, DevStruct, ClassObj}\<rparr>)"
proof -
  have "symbol_name k \<noteq> Garbage" using assms by (auto simp: kp_ok_def)
  with assms(2-4) show ?thesis
    by (cases "symbol_name k")
       (auto simp: mprobe_exit_def run_simps unregister_kprobe_def destroy_kp_def intro!: mprobe.equality)
qed

section \<open>Copying a name\<close>

lemma strlen_spec:
  "mp_strlen s = Some n \<Longrightarrow> n < length s \<and> s ! n = 0 \<and> 0 \<notin> set (take n s)"
proof (induction s arbitrary: n)
  case (Cons c s)
  then show ?case by (cases n) (auto split: if_splits)
qed simp

lemma strcpy_spec:
  "mp_strlen s = Some n \<Longrightarrow>
    mprobe_strcpy b s = (if n < length b then Some (take (Suc n) s @ drop (Suc n) b) else None)"
proof (induction b s arbitrary: n rule: mprobe_strcpy.induct)
  case (3 d dst c src)
  then show ?case by (cases n) (auto split: if_splits)
qed (auto split: if_splits)

section \<open>Properties\<close>

text \<open>
  (C18) What a reader gets. From a freshly loaded module, after any number of probe hits whose
  reads succeed, a read delivers the last ten results (or all of them, when there were
  fewer), each complete; the result of the hit \<open>j + 1\<close> hits before the end is in the slot
  of its number modulo ten, so the order in the buffer is that of the hits only up to ten
  hits. The result is the number of bytes written, whatever count the caller passed, and
  nothing is written behind them. Before the first hit a read fails with \<open>-EINVAL\<close>.
\<close>

theorem mprobe_read_recent_hits:
  assumes "fresh_ring st" and "held st = {}" and "map (hit_result (rbf_req st)) hs = map Some ds"
    and "\<forall>d \<in> set ds. xtc d \<noteq> 0" and "320 \<le> length um"
  shows "\<exists>st' um' v. run_hits hs st = Ret 0 st' \<and> mprobe_read count 0 um st' = Ret (v, um') st'
    \<and> (let m = min (length ds) 10 in
         v = (if ds = [] then - EINVAL else int (32 * m))
         \<and> (\<forall>j < m. result_of_bytes (take 32 (drop (32 * ((length ds - Suc j) mod 10)) um')) = rev ds ! j)
         \<and> length um' = length um \<and> drop (32 * m) um' = drop (32 * m) um)"
proof -
  let ?st = "fold mp_push ds st" and ?m = "min (length ds) 10"
  note r = ring_after [OF assms(1,4)]
  have run: "run_hits hs st = Ret 0 ?st"
    using hits_ok assms(1-3) by (simp add: fresh_ring_def)
  have h: "held ?st = {}"
    using assms(2) by (induction ds arbitrary: st) auto
  show ?thesis
  proof (cases "ds = []")
    case True
    then have "mprobe_read count 0 um ?st = Ret (- EINVAL, um) ?st"
      using r(1,2) h by (intro read_empty) auto
    with run True show ?thesis by (auto simp: Let_def)
  next
    case False
    let ?img = "concat (map bytes_of_result (take ?m (rbf_rst ?st)))"
    let ?um = "copy_to_user 0 ?img 0 um"
    have img: "length ?img = 32 * ?m"
      using length_chunks [of bytes_of_result 32 "take ?m (rbf_rst ?st)"] r(1) by simp
    have le: "length ?img \<le> length um" using img assms(5) by simp
    have um: "?um = ?img @ drop (32 * ?m) um" using img by (simp add: copy_to_user_def)
    have read: "mprobe_read count 0 um ?st = Ret (int (32 * ?m), ?um) ?st"
      using read_ok [OF h, of count 0 um] r(2) False by simp
    have sl: "result_of_bytes (take 32 (drop (32 * ((length ds - Suc j) mod 10)) ?um)) = rev ds ! j"
      if j: "j < ?m" for j
    proof -
      let ?i = "(length ds - Suc j) mod 10"
      have i: "?i < ?m" using slot_in_use [OF j] .
      have "take 32 (drop (32 * ?i) ?um) = take 32 (drop (32 * ?i) ?img)"
        unfolding um using i img by simp
      also have "\<dots> = bytes_of_result (rbf_rst ?st ! ?i)"
        using chunk_nth [of bytes_of_result 32 ?i "take ?m (rbf_rst ?st)"] i r(1) by simp
      finally show ?thesis using r(3) [OF j] by simp
    qed
    show ?thesis
      using run read sl le False img
      by (intro exI [of _ ?st] exI [of _ ?um]) (auto simp: Let_def um)
  qed
qed

text \<open>A module just loaded, and a hit in a memory that maps every address to itself.\<close>

definition loaded_mprobe :: mprobe where
  "loaded_mprobe = \<lparr>held = {}, kp = None, kheap = (\<lambda>_. None), registered = {}, rbf_idx = 0,
     rbf_req = \<lparr>of_line = 0, of_local = 0, of_gbl = 0, sect = \<lparr>bss = 0, text_sect = 0\<rparr>\<rparr>,
     rbf_rst = replicate 10 \<lparr>r_addr = 0, r_pid = 0, xtc = 0, g_var = 0, local_var = 0\<rparr>,
     mp_resources = {}\<rparr>"

definition sample_hit :: "u64 \<Rightarrow> hit" where
  "sample_hit c = \<lparr>h_rd32 = (\<lambda>a. Some (ucast a)), h_rd64 = Some, h_pid = 7, h_cycles = c,
     h_regs = \<lparr>ip = 64, sp = 32, bp = 40\<rparr>\<rparr>"

definition sample_result :: "u64 \<Rightarrow> debug_result" where
  "sample_result c = \<lparr>r_addr = 64, r_pid = 7, xtc = c, g_var = 0, local_var = 32\<rparr>"

lemma loaded_fresh: "fresh_ring loaded_mprobe" "held loaded_mprobe = {}" "kp_ok loaded_mprobe"
  "registered loaded_mprobe = {}" "kp loaded_mprobe = None"
  by (simp_all add: fresh_ring_def loaded_mprobe_def mp_inv_def kp_ok_def)

lemma sample_hit_result: "hit_result (rbf_req loaded_mprobe) (sample_hit c) = Some (sample_result c)"
  by (simp add: hit_result_def loaded_mprobe_def sample_hit_def sample_result_def)

theorem mprobe_read_recent_hits_witness:
  "\<exists>st' um'. run_hits [sample_hit 5, sample_hit 6] loaded_mprobe = Ret 0 st'
     \<and> mprobe_read 1 0 (replicate 320 0) st' = Ret (64, um') st'
     \<and> result_of_bytes (take 32 (drop 32 um')) = sample_result 6"
proof -
  have "map (hit_result (rbf_req loaded_mprobe)) [sample_hit 5, sample_hit 6]
      = map Some [sample_result 5, sample_result 6]" by (simp add: sample_hit_result)
  moreover have "\<forall>d \<in> set [sample_result 5, sample_result 6]. xtc d \<noteq> 0"
    by (simp add: sample_result_def)
  ultimately show ?thesis
    using mprobe_read_recent_hits [OF loaded_fresh(1,2), where count = 1 and um = "replicate 320 0",
        of "[sample_hit 5, sample_hit 6]" "[sample_result 5, sample_result 6]"]
    by (force simp: Let_def)
qed

text \<open>
  A probe whose local-variable address is not mapped faults inside the handler while
  the ring lock is held; the half-written result has been counted, and from then on every
  hit of the probe and every read hangs on the lock.
\<close>

lemma mprobe_fault_keeps_lock:
  assumes "mp_inv st" and "held st = {}"
    and "h_rd32 h (sp (h_regs h) + ucast (of_local (rbf_req st))) = None"
  shows "\<exists>st'. run_hit h st = Oops PageFault st' \<and> held st' = {G_rbf_lock}
    \<and> unat (rbf_idx st') = Suc (unat (rbf_idx st)) mod 10
    \<and> run_hit h' st' = Oops SelfDeadlock st'
    \<and> mprobe_read count failed um st' = Oops SelfDeadlock st'"
  using assms next_idx [of "rbf_idx st"]
  by (auto simp: handler_pre_def mprobe_read_def run_simps deref_def mp_inv_def set_rst_def)

lemma mprobe_fault_keeps_lock_example:
  "\<exists>st'. run_hit ((sample_hit 5)\<lparr>h_rd32 := (\<lambda>_. None)\<rparr>) loaded_mprobe = Oops PageFault st'
     \<and> run_hit (sample_hit 6) st' = Oops SelfDeadlock st'"
  using mprobe_fault_keeps_lock [of loaded_mprobe "(sample_hit 5)\<lparr>h_rd32 := (\<lambda>_. None)\<rparr>" "sample_hit 6" 0 0 "[]"]
    loaded_fresh by (auto simp: fresh_ring_def)

text \<open>
  Setting probes one after the other: however many requests with a non-zero probe
  address are written, the last one is the current probe and at most that one is
  registered; unloading the module unregisters it. But no probe block is ever freed: after
  unloading every block allocated since the module was loaded is still allocated.
\<close>

lemma mprobe_probes_replaced_but_leaked:
  assumes "kp_ok st" and "registered st \<subseteq> set_option (kp st)" and "ws \<noteq> []"
    and "\<forall>(r, b, rk) \<in> set ws. probe_at r \<noteq> 0"
  shows "\<exists>st1 st2. mprobe_writes ws st = Ret 0 st1 \<and> mprobe_exit st1 = Ret () st2
    \<and> kp st1 = Some (last (blocks ws)) \<and> registered st1 \<subseteq> {last (blocks ws)}
    \<and> kp st2 = None \<and> registered st2 = {}
    \<and> dom (kheap st2) = dom (kheap st) \<union> set (blocks ws)"
proof -
  obtain st1 k where st1: "mprobe_writes ws st = Ret 0 st1" "kp_ok st1" "registered st1 \<subseteq> set_option (kp st1)"
    "dom (kheap st1) = dom (kheap st) \<union> set (blocks ws)" "kp st1 = Some (last (blocks ws))"
    "kheap st1 (last (blocks ws)) = Some k" "kp_addr k \<noteq> 0"
    using writes_run [OF assms(1,2,4)] assms(3) by auto
  from exit_run [OF st1(2,5,6,7)] st1 show ?thesis by auto
qed

lemma mprobe_probes_replaced_but_leaked_example:
  "\<exists>st1 st2. mprobe_writes
       [(\<lparr>of_line = 16, of_local = 0, of_gbl = 0, sect = \<lparr>bss = 0, text_sect = 4096\<rparr>\<rparr>,
         (1, \<lparr>kp_addr = 0, symbol_name = Garbage, handlers = False\<rparr>), 0),
        (\<lparr>of_line = 32, of_local = 0, of_gbl = 0, sect = \<lparr>bss = 0, text_sect = 4096\<rparr>\<rparr>,
         (2, \<lparr>kp_addr = 0, symbol_name = Garbage, handlers = False\<rparr>), 0)] loaded_mprobe = Ret 0 st1
     \<and> mprobe_exit st1 = Ret () st2 \<and> registered st2 = {} \<and> dom (kheap st2) = {1, 2}"
proof -
  let ?q = "\<lambda>l. \<lparr>of_line = l, of_local = 0, of_gbl = 0, sect = \<lparr>bss = 0, text_sect = 4096\<rparr>\<rparr>"
  let ?j = "\<lparr>kp_addr = 0, symbol_name = Garbage, handlers = False\<rparr>"
  let ?ws = "[(?q 16, (1, ?j), 0), (?q 32, (2, ?j), 0)] :: probe_write list"
  have "dom (kheap loaded_mprobe) = {}" by (simp add: loaded_mprobe_def)
  moreover have "\<forall>(r, b, rk) \<in> set ?ws. probe_at r \<noteq> 0" by (simp add: probe_at_def)
  ultimately show ?thesis
    using mprobe_probes_replaced_but_leaked [of loaded_mprobe ?ws] loaded_fresh
    by (fastforce simp: blocks_def)
qed

text \<open>
  A request whose probe address is zero is not refused: the error of \<open>init_kp\<close> is
  ignored, the write returns 0, and the probe, registered or not, is a block of whatever
  memory held before. The next write then frees the name pointer it finds in that block.
\<close>

lemma mprobe_zero_address_uninitialised:
  assumes "kp_ok st" and "probe_at r = 0" and "symbol_name junk = Garbage"
  shows "\<exists>st'. mprobe_write (Some r) (Some (a, junk)) rk st = Ret 0 st' \<and> kheap st' a = Some junk
    \<and> kp st' = Some a \<and> (rk = 0 \<longrightarrow> a \<in> registered st')
    \<and> (\<exists>st''. mprobe_write req2 block2 rk2 st' = Oops UseAfterFree st'')"
  using assms
  by (auto simp: write_run mprobe_write_def [of req2] run_simps unregister_kprobe_def destroy_kp_def)

lemma mprobe_zero_address_uninitialised_example:
  "\<exists>st' st''. mprobe_write (Some (rbf_req loaded_mprobe))
       (Some (1, \<lparr>kp_addr = 9, symbol_name = Garbage, handlers = False\<rparr>)) 0 loaded_mprobe = Ret 0 st'
     \<and> mprobe_write None None 0 st' = Oops UseAfterFree st''"
  using mprobe_zero_address_uninitialised [OF loaded_fresh(3), of "rbf_req loaded_mprobe"
      "\<lparr>kp_addr = 9, symbol_name = Garbage, handlers = False\<rparr>" 1 0 None None 0]
  by (auto simp: probe_at_def loaded_mprobe_def)

text \<open>
  \<open>init_kp\<close> with a name: given a block of \<open>strlen + 1\<close> bytes, the private
  \<open>mprobe_strcpy\<close> fills exactly that block with the name and its terminator, so the copy
  is a string of the same length; into any smaller block it would overrun.
\<close>

lemma mprobe_name_copied:
  assumes "mp_strlen s = Some n" and "\<And>k b. kmalloc k = Some b \<Longrightarrow> length b = k"
    and "kmalloc (n + 1) = Some b0"
  shows "\<exists>st'. init_kp kmalloc (Some p) addr (Some s) st = Ret 0 st'
    \<and> kheap st' p = Some \<lparr>kp_addr = addr, symbol_name = Buf (take (n + 1) s), handlers = True\<rparr>
    \<and> mp_strlen (take (n + 1) s) = Some n
    \<and> (length b \<le> n \<longrightarrow> mprobe_strcpy b s = None)"
proof -
  have len: "length b0 = n + 1" using assms(2,3) by blast
  have "mp_strlen (take (n + 1) s) = Some n"
    using assms(1) by (induction s arbitrary: n) (auto split: if_splits)
  with len assms(3) show ?thesis
    by (simp add: init_kp_def assms(1) strcpy_spec [OF assms(1)] Let_def)
qed

lemma mprobe_name_copied_example:
  "\<exists>st'. init_kp (\<lambda>k. Some (replicate k 255)) (Some 1) 0 (Some [104, 105, 0, 9]) loaded_mprobe = Ret 0 st'
     \<and> kheap st' 1 = Some \<lparr>kp_addr = 0, symbol_name = Buf [104, 105, 0], handlers = True\<rparr>"
  using mprobe_name_copied [of "[104, 105, 0, 9]" 2 "\<lambda>k. Some (replicate k 255)" "replicate 3 255" 1 0
      loaded_mprobe "[]"]
  by (auto simp: numeral_3_eq_3)

end
