(* ===== verification/Sysfs_Text.thy ===== *)
theory Sysfs_Text
  imports Kernel_Prelude
begin

text \<open>
  The text that crosses a sysfs attribute: what \<open>snprintf(buf, 10, "%d\n", v)\<close> leaves in
  the page of an attribute and what \<open>sscanf(buf, "%d", &v)\<close> reads back, as the kernel's
  library does it, for the \<open>show\<close> and \<open>store\<close> functions of
  \<open>03_Concurrent_HC-SR04_SYSFS_Platform_Drivers/hc_sr04.h\<close>. Which numbers survive the
  trip is proved here: those whose text has at most nine characters.
\<close>

section \<open>Characters\<close>

definition isdigit :: "char \<Rightarrow> bool" where
  "isdigit c \<longleftrightarrow> 48 \<le> (of_char c :: nat) \<and> (of_char c :: nat) \<le> 57"

definition isspace :: "char \<Rightarrow> bool" where
  "isspace c \<longleftrightarrow> (of_char c :: nat) \<in> {9, 10, 11, 12, 13, 32, 160}"

definition digit :: "nat \<Rightarrow> char" where
  "digit d = char_of (48 + d)"

definition digit_val :: "char \<Rightarrow> nat" where
  "digit_val c = of_char c - 48"

abbreviation newline :: char where "newline \<equiv> CHR 0x0A"
abbreviation NUL :: char where "NUL \<equiv> CHR 0x00"

section \<open>Printing\<close>

fun dec_nat :: "nat \<Rightarrow> string" where
  "dec_nat n = (if n < 10 then [digit n] else dec_nat (n div 10) @ [digit (n mod 10)])"

declare dec_nat.simps [simp del]

definition dec :: "s32 \<Rightarrow> string" where
  "dec v = (if sint v < 0 then CHR ''-'' # dec_nat (nat (- sint v)) else dec_nat (nat (sint v)))"

definition fmt_d :: "s32 \<Rightarrow> string" where
  "fmt_d v = dec v @ [newline]"

text \<open>
  The library returns the length of the whole text, but writes at most \<open>n - 1\<close>
  characters of it and a terminating zero.
\<close>

definition snprintf :: "nat \<Rightarrow> string \<Rightarrow> string \<Rightarrow> int \<times> string" where
  "snprintf n txt buf =
     (let w = take (n - 1) txt @ [NUL] in (int (length txt), w @ drop (length w) buf))"

section \<open>Scanning\<close>

definition digits_val :: "string \<Rightarrow> nat" where
  "digits_val ds = foldl (\<lambda>a c. 10 * a + digit_val c) 0 ds"

text \<open>
  \<open>None\<close>: no conversion, the call returns 0. Otherwise it returns 1 and stores the number,
  cut to 32 bits. A plus sign is not accepted.
\<close>

definition sscanf_d :: "string \<Rightarrow> s32 option" where
  "sscanf_d buf =
     (let s = dropWhile isspace (takeWhile (\<lambda>c. c \<noteq> NUL) buf);
          neg = (s \<noteq> [] \<and> hd s = CHR ''-'');
          ds = takeWhile isdigit (if neg then tl s else s)
      in if ds = [] then None
         else Some (word_of_int (if neg then - int (digits_val ds) else int (digits_val ds))))"

section \<open>Round trips\<close>

lemma of_char_digit: "d < 10 \<Longrightarrow> (of_char (digit d) :: nat) = 48 + d"
  by (simp add: digit_def)

lemma digit_facts [simp]:
  assumes "d < 10"
  shows "isdigit (digit d)" "digit_val (digit d) = d" "\<not> isspace (digit d)" "digit d \<noteq> NUL"
    "digit d \<noteq> CHR ''-''"
proof -
  note c = of_char_digit [OF assms]
  show "isdigit (digit d)" "digit_val (digit d) = d" "\<not> isspace (digit d)"
    using assms by (simp_all add: isdigit_def isspace_def digit_val_def c)
  have "(of_char (digit d) :: nat) \<noteq> of_char NUL" "(of_char (digit d) :: nat) \<noteq> of_char (CHR ''-'')"
    unfolding c by simp_all
  then show "digit d \<noteq> NUL" "digit d \<noteq> CHR ''-''" by auto
qed

lemma digits_val_snoc [simp]: "digits_val (ds @ [c]) = 10 * digits_val ds + digit_val c"
  by (simp add: digits_val_def)

lemma digits_val_dec_nat [simp]: "digits_val (dec_nat n) = n"
proof (induction n rule: dec_nat.induct)
  case (1 n)
  show ?case
  proof (cases "n < 10")
    case True
    then show ?thesis by (subst dec_nat.simps) (simp add: digits_val_def)
  next
    case False
    with 1 have "digits_val (dec_nat n) = 10 * (n div 10) + n mod 10"
      by (subst dec_nat.simps) simp
    then show ?thesis by simp
  qed
qed

text \<open>A decimal is made of digits, so that scanning neither skips nor drops a character.\<close>

lemma dec_nat_digits: "\<exists>ds. ds \<noteq> [] \<and> (\<forall>d \<in> set ds. d < 10) \<and> dec_nat n = map digit ds"
proof (induction n rule: dec_nat.induct)
  case (1 n)
  show ?case
  proof (cases "n < 10")
    case True
    then show ?thesis by (subst dec_nat.simps) (auto intro: exI [of _ "[n]"])
  next
    case False
    with 1 obtain ds where "\<forall>d \<in> set ds. d < 10" "dec_nat (n div 10) = map digit ds" by blast
    with False show ?thesis
      by (subst dec_nat.simps) (auto intro!: exI [of _ "ds @ [n mod 10]"])
  qed
qed

lemma dec_nat_scan:
  shows "dec_nat n \<noteq> []" and "takeWhile isdigit (dec_nat n) = dec_nat n"
    and "hd (dec_nat n) \<noteq> CHR ''-''" and "\<not> isspace (hd (dec_nat n))"
    and "NUL \<notin> set (dec_nat n)"
proof -
  obtain ds where ds: "ds \<noteq> []" "\<forall>d \<in> set ds. d < 10" "dec_nat n = map digit ds"
    using dec_nat_digits by blast
  then have h: "hd ds < 10" by simp
  show "dec_nat n \<noteq> []" using ds by simp
  show "takeWhile isdigit (dec_nat n) = dec_nat n" using ds by auto
  show "hd (dec_nat n) \<noteq> CHR ''-''" "\<not> isspace (hd (dec_nat n))"
    using ds(1,3) h by (simp_all add: hd_map)
  show "NUL \<notin> set (dec_nat n)" using ds by (auto simp: image_iff) (metis digit_facts(4))
qed

lemma take_digits_newline:
  "takeWhile isdigit (dec_nat n @ newline # r) = dec_nat n"
  "takeWhile isdigit (dec_nat n @ NUL # r) = dec_nat n"
proof -
  have "\<forall>c \<in> set (dec_nat n). isdigit c"
    using dec_nat_scan(2) [of n] by (metis set_takeWhileD)
  then show "takeWhile isdigit (dec_nat n @ newline # r) = dec_nat n"
    "takeWhile isdigit (dec_nat n @ NUL # r) = dec_nat n"
    by (simp_all add: takeWhile_append isdigit_def)
qed

lemma take_to_NUL:
  "NUL \<notin> set xs \<Longrightarrow> takeWhile (\<lambda>c. c \<noteq> NUL) (xs @ NUL # r) = xs"
  "NUL \<notin> set xs \<Longrightarrow> takeWhile (\<lambda>c. c \<noteq> NUL) xs = xs"
  by (induction xs) auto

text \<open>The number is read back from its text, whether or not the newline got through.\<close>

lemma scan_text:
  assumes "t = [] \<or> t = [newline]"
  shows "sscanf_d (dec v @ t @ NUL # r) = Some v" and "sscanf_d (dec v @ t) = Some v"
proof -
  let ?n = "if sint v < 0 then nat (- sint v) else nat (sint v)"
  note d = dec_nat_scan [of ?n]
  have v: "dec v = (if sint v < 0 then [CHR ''-''] else []) @ dec_nat ?n" by (simp add: dec_def)
  have "NUL \<notin> set (dec v @ t)" using d(5) assms unfolding v by auto
  then have keep: "takeWhile (\<lambda>c. c \<noteq> NUL) (dec v @ t @ NUL # r) = dec v @ t"
    "takeWhile (\<lambda>c. c \<noteq> NUL) (dec v @ t) = dec v @ t"
    using take_to_NUL [of "dec v @ t"] by simp_all
  have h: "dec v @ t = hd (dec v) # tl (dec v @ t)" "hd (dec v) = CHR ''-'' \<longleftrightarrow> sint v < 0"
    "\<not> isspace (hd (dec v))"
    using d(1,3,4) unfolding v by (cases "dec_nat ?n"; simp add: isspace_def)+
  have sp: "dropWhile isspace (dec v @ t) = dec v @ t" using h(3) by (subst (1 2) h(1)) simp
  have ds: "takeWhile isdigit (dec_nat ?n @ t) = dec_nat ?n"
    using assms d(2) take_digits_newline(1) [of ?n "[]"] by auto
  have tl: "(if sint v < 0 then tl (dec v @ t) else dec v @ t) = dec_nat ?n @ t"
    unfolding v by simp
  have neg: "dec v @ t \<noteq> [] \<and> hd (dec v @ t) = CHR ''-'' \<longleftrightarrow> sint v < 0"
    using h(1,2) by (metis list.distinct(1) list.sel(1))
  have val: "word_of_int (if sint v < 0 then - int ?n else int ?n) = v" by simp
  show "sscanf_d (dec v @ t @ NUL # r) = Some v" "sscanf_d (dec v @ t) = Some v"
    unfolding sscanf_d_def Let_def keep sp neg tl ds digits_val_dec_nat val
    using d(1) by simp_all
qed

lemma sscanf_fmt [simp]: "sscanf_d (fmt_d v) = Some v" "sscanf_d (dec v) = Some v"
  using scan_text(2) [of "[newline]" v] scan_text(2) [of "[]" v] by (simp_all add: fmt_d_def)

section \<open>How long the text is\<close>

lemma length_dec_nat: "length (dec_nat n) \<le> Suc k \<longleftrightarrow> n < 10 ^ Suc k"
proof (induction k arbitrary: n)
  case 0
  show ?case by (subst dec_nat.simps) (auto simp: dec_nat_scan(1))
next
  case (Suc k)
  show ?case
  proof (cases "n < 10")
    case True
    then have "n < 10 ^ Suc (Suc k)" by (rule less_le_trans) (simp add: self_le_power)
    with True show ?thesis by (subst dec_nat.simps) simp
  next
    case False
    have "n div 10 < 10 ^ Suc k \<longleftrightarrow> n < 10 ^ Suc (Suc k)" by (simp add: div_less_iff_less_mult mult.commute)
    with False Suc.IH [of "n div 10"] show ?thesis by (subst dec_nat.simps) simp
  qed
qed

lemma length_dec: "length (dec v) \<le> 9 \<longleftrightarrow> - (10 ^ 8) < sint v \<and> sint v < 10 ^ 9"
proof -
  have "length (dec_nat (nat (- sint v))) \<le> 8 \<longleftrightarrow> nat (- sint v) < 10 ^ 8"
    "length (dec_nat (nat (sint v))) \<le> 9 \<longleftrightarrow> nat (sint v) < 10 ^ 9"
    using length_dec_nat [of _ 7] length_dec_nat [of _ 8] by simp_all
  then show ?thesis by (auto simp: dec_def)
qed

section \<open>What a page holds after a show function\<close>

text \<open>Nine characters or fewer: the number is read back from the page.\<close>

lemma page_scan:
  assumes "length (dec v) \<le> 9"
  shows "sscanf_d (snd (snprintf 10 (fmt_d v) buf)) = Some v"
proof -
  obtain t where t: "t = [] \<or> t = [newline]" "take 9 (fmt_d v) = dec v @ t"
    using assms by (cases "length (dec v) = 9") (auto simp: fmt_d_def)
  then show ?thesis
    using scan_text(1) [of t v] by (simp add: snprintf_def Let_def)
qed

text \<open>Fewer than nine: the page starts with the whole text and the returned length is true.\<close>

lemma page_text:
  assumes "length (dec v) \<le> 8"
  shows "fst (snprintf 10 (fmt_d v) buf) = int (length (fmt_d v))"
    and "take (length (fmt_d v)) (snd (snprintf 10 (fmt_d v) buf)) = fmt_d v"
  using assms by (simp_all add: snprintf_def Let_def fmt_d_def)

text \<open>
  A number of ten digits loses the last one, and the length returned counts two bytes
  that are not text: the terminating zero and a byte of the page.
\<close>

lemma page_truncated:
  assumes "10 ^ 9 \<le> sint v"
  shows "fst (snprintf 10 (fmt_d v) buf) = 11"
    and "snd (snprintf 10 (fmt_d v) buf) = dec (word_of_int (sint v div 10)) @ NUL # drop 10 buf"
    and "sscanf_d (snd (snprintf 10 (fmt_d v) buf)) = Some (word_of_int (sint v div 10))"
proof -
  let ?n = "nat (sint v)" and ?w = "word_of_int (sint v div 10) :: s32"
  have lt: "sint v < 2 ^ 31" using sint_lt [of v] by simp
  then have sw: "sint ?w = sint v div 10"
    using assms by (simp add: signed_of_int signed_take_bit_int_eq_self)
  have n: "dec_nat ?n = dec_nat (?n div 10) @ [digit (?n mod 10)]"
    using assms by (subst dec_nat.simps) (simp add: nat_less_iff)
  have w: "dec ?w = dec_nat (?n div 10)" using assms by (simp add: dec_def sw nat_div_distrib)
  have "\<not> length (dec_nat (?n div 10)) \<le> Suc 7" "length (dec_nat (?n div 10)) \<le> Suc 8"
    using assms lt unfolding length_dec_nat by auto
  then have l: "length (dec_nat (?n div 10)) = 9" by simp
  have v: "fmt_d v = dec_nat (?n div 10) @ [digit (?n mod 10), newline]"
    using assms n by (simp add: fmt_d_def dec_def)
  show "fst (snprintf 10 (fmt_d v) buf) = 11" using l v by (simp add: snprintf_def Let_def)
  show e: "snd (snprintf 10 (fmt_d v) buf) = dec ?w @ NUL # drop 10 buf"
    using l v by (simp add: snprintf_def Let_def w)
  show "sscanf_d (snd (snprintf 10 (fmt_d v) buf)) = Some ?w"
    using scan_text(1) [of "[]" ?w] by (simp add: e)
qed

end
