(* ===== verification/Mprobe_Test.thy ===== *)
theory Mprobe_Test
  imports Mprobe Ht530 Sysfs_Text
begin

text \<open>
  The programs \<open>mprobe/mprobe-test1.c\<close> and \<open>mprobe-test2.c\<close>, which join the two drivers of
  the first part: they read the addresses of the sections of the module \<open>ht530\<close> from
  sysfs, set a probe in \<open>ht530_fsync\<close> or \<open>ht530_flock\<close>, call both functions and print
  what mprobe recorded. Shown: scanning an address gives back the address the kernel
  printed, and the \<open>n\<close>-th run of the two programs prints the records of all runs so far, in
  order, as long as the ring is not full.
\<close>

section \<open>Scanning an address\<close>

definition isxdigit :: "char \<Rightarrow> bool" where
  "isxdigit c \<longleftrightarrow> (let n = of_char c :: nat in 48 \<le> n \<and> n \<le> 57 \<or> 65 \<le> n \<and> n \<le> 70 \<or> 97 \<le> n \<and> n \<le> 102)"

definition xdigit_val :: "char \<Rightarrow> nat" where
  "xdigit_val c = (let n = of_char c :: nat in if n \<le> 57 then n - 48 else if n \<le> 70 then n - 55 else n - 87)"

definition isspace_c :: "char \<Rightarrow> bool" where
  "isspace_c c \<longleftrightarrow> (of_char c :: nat) \<in> {9, 10, 11, 12, 13, 32}"

definition hex_val :: "string \<Rightarrow> nat" where
  "hex_val ds = foldl (\<lambda>a c. 16 * a + xdigit_val c) 0 ds"

text \<open>
  The conversion \<open>%llx\<close> of the C library: white space, a sign and a prefix \<open>0x\<close> are
  accepted, a number that is too large becomes the largest one.
\<close>

definition conv_llx :: "string \<Rightarrow> u64 option" where
  "conv_llx txt =
     (let s = dropWhile isspace_c txt;
          neg = (s \<noteq> [] \<and> hd s = CHR ''-'');
          u = (if s \<noteq> [] \<and> hd s \<in> {CHR ''-'', CHR ''+''} then tl s else s);
          v = (if take 2 u \<in> {''0x'', ''0X''} \<and> drop 2 u \<noteq> [] \<and> isxdigit (u ! 2) then drop 2 u else u);
          ds = takeWhile isxdigit v
      in if ds = [] then None
         else if 2 ^ 64 \<le> hex_val ds then Some (- 1)
         else Some (if neg then - of_nat (hex_val ds) else of_nat (hex_val ds)))"

text \<open>\<open>sscanf(buf, "0x%llx", &v)\<close>: the variable keeps its value when nothing is converted.\<close>

definition sscanf_0xllx :: "string \<Rightarrow> u64 \<Rightarrow> u64" where
  "sscanf_0xllx buf v =
     (let s = takeWhile (\<lambda>c. c \<noteq> NUL) buf
      in if take 2 s = ''0x'' then (case conv_llx (drop 2 s) of None \<Rightarrow> v | Some w \<Rightarrow> w) else v)"

section \<open>The programs\<close>

text \<open>
  The machine: the two files of sysfs, which instructions a call of a driver function
  executes, the registers at a breakpoint, and memory, whose contents depend on the state
  of the driver \<open>ht530\<close>.
\<close>

datatype probed_fn = Fsync | Flock

record machine =
  text_file :: string
  bss_file :: string
  code_of :: "probed_fn \<Rightarrow> u64 set"
  regs_at :: "u64 \<Rightarrow> pt_regs"
  mem32 :: "ht530 \<Rightarrow> u64 \<Rightarrow> s32 option"
  mem64 :: "ht530 \<Rightarrow> u64 \<Rightarrow> u64 option"

text \<open>What differs from run to run: process, cycle counter, the block the allocator returns.\<close>

record run_env =
  run_pid :: u64
  run_cycles :: u64
  run_block :: "nat \<times> kprobe"
  run_rk :: int

definition req1 :: debug_request where
  "req1 = \<lparr>of_line = 0x99, of_local = 0, of_gbl = 0x424, sect = \<lparr>bss = 0, text_sect = 0\<rparr>\<rparr>"

definition req2 :: debug_request where
  "req2 = \<lparr>of_line = 0x109, of_local = 0, of_gbl = 0x420, sect = \<lparr>bss = 0, text_sect = 0\<rparr>\<rparr>"

text \<open>Up to 1024 bytes of the file, in a buffer that was zeroed.\<close>

definition get_sect_addr :: "string \<Rightarrow> string" where
  "get_sect_addr file = take 1024 file @ replicate (1024 - length file) NUL"

definition get_module_sections :: "machine \<Rightarrow> debug_request \<Rightarrow> debug_request" where
  "get_module_sections m req =
     (let r = req\<lparr>sect := (sect req)\<lparr>text_sect := sscanf_0xllx (get_sect_addr (text_file m)) (text_sect (sect req))\<rparr>\<rparr>
      in r\<lparr>sect := (sect r)\<lparr>bss := sscanf_0xllx (get_sect_addr (bss_file m)) (bss (sect r))\<rparr>\<rparr>)"

text \<open>
  A call of a function of \<open>ht530\<close> under mprobe: when the current probe is registered and the
  call comes by its address, the handler runs. (Only the current probe is ever registered.)
\<close>

definition is_hit :: "machine \<Rightarrow> probed_fn \<Rightarrow> mprobe \<Rightarrow> bool" where
  "is_hit m f st =
     (case kp st of
        None \<Rightarrow> False
      | Some p \<Rightarrow> p \<in> registered st \<and>
          (case kheap st p of None \<Rightarrow> False | Some k \<Rightarrow> kp_addr k \<in> code_of m f))"

definition probe_addr :: "mprobe \<Rightarrow> u64" where
  "probe_addr st = (case Option.bind (kp st) (kheap st) of None \<Rightarrow> 0 | Some k \<Rightarrow> kp_addr k)"

definition probed_call :: "machine \<Rightarrow> run_env \<Rightarrow> ht530 \<Rightarrow> probed_fn \<Rightarrow> (int, mprobe) cmd" where
  "probed_call m e ht f =
     bnd (look (\<lambda>st. (is_hit m f st, probe_addr st))) (\<lambda>(hit, a).
     bnd (if hit then handler_pre (mem32 m ht) (mem64 m ht) (run_pid e) (run_cycles e) (regs_at m a) else ret 0) (\<lambda>_.
     case (case f of Fsync \<Rightarrow> ht530_fsync | Flock \<Rightarrow> ht530_flock) ht of
       Ret v _ \<Rightarrow> ret v
     | Oops x _ \<Rightarrow> crash x))"

text \<open>
  The printing loop: \<open>ret_val / sizeof(struct debug_request)\<close> lines, \<open>rs\<close> and \<open>qs\<close> being the
  sizes of a result and of a request (both 32 on a 64-bit machine).
\<close>

definition print_items :: "nat \<Rightarrow> nat \<Rightarrow> nat \<Rightarrow> byte list \<Rightarrow> debug_result list" where
  "print_items rs qs ret_val items =
     map (\<lambda>i. result_of_bytes (take rs (drop (rs * i) items))) [0..<ret_val div qs]"

text \<open>
  \<open>main\<close> of the first program (\<open>second\<close> false) and of the second: the printed records, or
  the error number of a failed read. The state of \<open>ht530\<close> is returned as well.
\<close>

definition mprobe_test ::
  "machine \<Rightarrow> bool \<Rightarrow> run_env \<Rightarrow> ht530 \<Rightarrow> (int + debug_result list, mprobe) cmd \<times> ht530" where
  "mprobe_test m second e ht =
     (let ht1 = state_of (ht530_open ht);
          r1 = get_module_sections m req1;
          r2 = get_module_sections m req2
      in (bnd mprobe_open (\<lambda>_.
          bnd (mprobe_write (Some (if second then r2 else r1)) (Some (run_block e)) (run_rk e)) (\<lambda>_.
          bnd (probed_call m e ht1 Flock) (\<lambda>_.
          bnd (probed_call m e ht1 Fsync) (\<lambda>_.
          bnd (mprobe_read 320 0 (replicate 320 0)) (\<lambda>(ret_val, items).
          bnd mprobe_release (\<lambda>_.
          ret (if 0 > ret_val then Inl (- ret_val) else Inr (print_items 32 32 (nat ret_val) items)))))))), ht1))"

definition main_test1 ::
  "machine \<Rightarrow> run_env \<Rightarrow> ht530 \<Rightarrow> (int + debug_result list, mprobe) cmd \<times> ht530" where
  "main_test1 m = mprobe_test m False"

definition main_test2 ::
  "machine \<Rightarrow> run_env \<Rightarrow> ht530 \<Rightarrow> (int + debug_result list, mprobe) cmd \<times> ht530" where
  "main_test2 m = mprobe_test m True"

text \<open>The two programs run one after the other, in any order.\<close>

fun mprobe_tests ::
  "machine \<Rightarrow> (bool \<times> run_env) list \<Rightarrow> ht530 \<Rightarrow> ((int + debug_result list) list, mprobe) cmd" where
  "mprobe_tests m [] ht = ret []"
| "mprobe_tests m ((second, e) # es) ht =
     (let (run, ht1) = (if second then main_test2 m e ht else main_test1 m e ht)
      in bnd run (\<lambda>o'. bnd (mprobe_tests m es ht1) (\<lambda>os. ret (o' # os))))"

section \<open>An address survives the trip through sysfs\<close>

definition xdigit :: "nat \<Rightarrow> char" where
  "xdigit d = (if d < 10 then char_of (48 + d) else char_of (87 + d))"

definition hex16 :: "u64 \<Rightarrow> string" where
  "hex16 w = map (\<lambda>i. xdigit (unat w div 16 ^ i mod 16)) (rev [0..<16])"

text \<open>The contents of a section file: \<open>0x\<close>, sixteen digits, a newline.\<close>

definition section_file :: "u64 \<Rightarrow> string" where
  "section_file w = ''0x'' @ hex16 w @ [newline]"

lemma xdigit_facts:
  assumes "d < 16"
  shows "xdigit_val (xdigit d) = d" "isxdigit (xdigit d)" "xdigit d \<noteq> NUL" "\<not> isspace_c (xdigit d)"
    "xdigit d \<noteq> CHR ''-''" "xdigit d \<noteq> CHR ''+''" "xdigit d \<noteq> CHR ''x''" "xdigit d \<noteq> CHR ''X''"
proof -
  have c: "(of_char (xdigit d) :: nat) = (if d < 10 then 48 + d else 87 + d)"
    using assms by (simp add: xdigit_def)
  show "xdigit_val (xdigit d) = d" "isxdigit (xdigit d)" "\<not> isspace_c (xdigit d)"
    using assms by (auto simp: xdigit_val_def isxdigit_def isspace_c_def c Let_def)
  have "(of_char (xdigit d) :: nat) \<notin> {0, 43, 45, 88, 120}" using assms unfolding c by auto
  then show "xdigit d \<noteq> NUL" "xdigit d \<noteq> CHR ''-''" "xdigit d \<noteq> CHR ''+''"
    "xdigit d \<noteq> CHR ''x''" "xdigit d \<noteq> CHR ''X''" by auto
qed

lemma hex_fold:
  "foldl (\<lambda>a c. 16 * a + xdigit_val c) a (map (\<lambda>i. xdigit (x div 16 ^ i mod 16)) (rev [0..<n]))
   = a * 16 ^ n + x mod 16 ^ n"
proof (induction n arbitrary: a)
  case (Suc n)
  have "x mod 16 ^ Suc n = 16 ^ n * (x div 16 ^ n mod 16) + x mod 16 ^ n"
    using mod_mult2_eq [of x "16 ^ n" 16] by (simp add: mult.commute)
  then show ?case using Suc by (simp add: xdigit_facts(1) algebra_simps)
qed simp

lemma hex_val_hex16: "hex_val (hex16 w) = unat w"
proof -
  have "hex_val (hex16 w) = unat w mod 16 ^ 16"
    unfolding hex_val_def hex16_def using hex_fold [of 0 "unat w" 16] by simp
  then show ?thesis using unsigned_less [of w, where ?'a = nat] by simp
qed

lemma hex16_chars:
  assumes "c \<in> set (hex16 w)"
  shows "isxdigit c" "c \<noteq> NUL" "\<not> isspace_c c" "c \<notin> {CHR ''-'', CHR ''+'', CHR ''x'', CHR ''X''}"
  using assms xdigit_facts by (auto simp: hex16_def)

lemma hex16_cons: "\<exists>c d cs. hex16 w = c # d # cs"
proof -
  have "length (hex16 w) = 16" by (simp add: hex16_def)
  then show ?thesis by (cases "hex16 w"; cases "tl (hex16 w)") auto
qed

lemma conv_hex16: "conv_llx (hex16 w @ [newline]) = Some w"
proof -
  obtain c d cs where h: "hex16 w = c # d # cs" using hex16_cons by blast
  have c: "\<not> isspace_c c" "c \<notin> {CHR ''-'', CHR ''+''}" "d \<noteq> CHR ''x''" "d \<noteq> CHR ''X''"
    using hex16_chars [of c w] hex16_chars [of d w] by (auto simp: h)
  have ds: "takeWhile isxdigit (hex16 w @ [newline]) = hex16 w"
    using hex16_chars(1) [of _ w] by (simp add: takeWhile_append isxdigit_def)
  have v: "hex_val (c # d # cs) = unat w" using hex_val_hex16 [of w] by (simp add: h)
  have "unat w < 2 ^ 64" using unsigned_less [of w, where ?'a = nat] by simp
  with ds h c v show ?thesis by (simp add: conv_llx_def Let_def)
qed

lemma scan_section_file: "sscanf_0xllx (get_sect_addr (section_file w)) v = w"
proof -
  have n: "\<forall>c \<in> set (section_file w). c \<noteq> NUL"
    using hex16_chars(2) by (auto simp: section_file_def)
  have l: "length (section_file w) = 19" by (simp add: section_file_def hex16_def)
  have "takeWhile (\<lambda>c. c \<noteq> NUL) (get_sect_addr (section_file w)) = section_file w"
    using n l by (simp add: get_sect_addr_def takeWhile_append takeWhile_replicate)
  then show ?thesis by (simp add: sscanf_0xllx_def Let_def) (simp add: section_file_def conv_hex16)
qed

section \<open>A run of a test\<close>

definition run_req :: "machine \<Rightarrow> bool \<Rightarrow> debug_request" where
  "run_req m second = get_module_sections m (if second then req2 else req1)"

text \<open>
  The offsets of the requests are right: \<open>req1\<close> is an instruction of \<open>ht530_fsync\<close> only,
  \<open>req2\<close> one of \<open>ht530_flock\<close> only.
\<close>

definition layout_ok :: "machine \<Rightarrow> bool" where
  "layout_ok m \<longleftrightarrow>
     probe_at (run_req m False) \<in> code_of m Fsync - code_of m Flock - {0}
     \<and> probe_at (run_req m True) \<in> code_of m Flock - code_of m Fsync - {0}"

definition run_record :: "machine \<Rightarrow> ht530 \<Rightarrow> bool \<times> run_env \<Rightarrow> debug_result option" where
  "run_record m ht r =
     (case r of (second, e) \<Rightarrow>
        hit_result (run_req m second) \<lparr>h_rd32 = mem32 m ht, h_rd64 = mem64 m ht, h_pid = run_pid e,
          h_cycles = run_cycles e, h_regs = regs_at m (probe_at (run_req m second))\<rparr>)"

definition opened_ht :: "ht530 \<Rightarrow> ht530" where
  "opened_ht ht = state_of (ht530_open ht)"

lemma opened_twice [simp]: "opened_ht (opened_ht ht) = opened_ht ht"
  by (simp add: opened_ht_def ht530_open_def)

text \<open>The ring after some hits on a fresh module, whatever happened to the probes meanwhile.\<close>

definition ring_holds :: "debug_result list \<Rightarrow> mprobe \<Rightarrow> bool" where
  "ring_holds ds st \<longleftrightarrow> mp_inv st \<and> (\<forall>d \<in> set ds. xtc d \<noteq> 0) \<and>
     (\<exists>st0. fresh_ring st0 \<and> rbf_rst st = rbf_rst (fold mp_push ds st0) \<and> rbf_idx st = rbf_idx (fold mp_push ds st0))"

lemma ring_holds_push:
  assumes "ring_holds ds st" and "xtc d \<noteq> 0" and "rbf_rst u = rbf_rst st" and "rbf_idx u = rbf_idx st"
  shows "ring_holds (ds @ [d]) (mp_push d u)"
proof -
  obtain st0 where s: "fresh_ring st0" "rbf_rst st = rbf_rst (fold mp_push ds st0)"
    "rbf_idx st = rbf_idx (fold mp_push ds st0)" "mp_inv st" "\<forall>d \<in> set ds. xtc d \<noteq> 0"
    using assms(1) by (auto simp: ring_holds_def)
  have "mp_inv u" using s(4) assms(3,4) by (simp add: mp_inv_def)
  then have "mp_inv (mp_push d u)" by (rule mp.push_invar)
  moreover have "rbf_rst (mp_push d u) = rbf_rst (fold mp_push (ds @ [d]) st0)"
    "rbf_idx (mp_push d u) = rbf_idx (fold mp_push (ds @ [d]) st0)"
    using s assms(3,4) by (simp_all add: mp_push_def)
  ultimately show ?thesis using s assms(2) by (auto simp: ring_holds_def)
qed

lemma ring_holds_read:
  assumes "ring_holds ds st" and "length ds \<le> RING_SIZE"
  shows "used_results (rbf_rst st) = length ds" and "take (length ds) (rbf_rst st) = ds"
proof -
  obtain st0 where s: "fresh_ring st0" "rbf_rst st = rbf_rst (fold mp_push ds st0)" "\<forall>d \<in> set ds. xtc d \<noteq> 0"
    using assms(1) by (auto simp: ring_holds_def)
  note r = ring_after [OF s(1,3)]
  show "used_results (rbf_rst st) = length ds" using r(2) assms(2) by (simp add: s(2))
  show "take (length ds) (rbf_rst st) = ds"
  proof (rule nth_equalityI)
    show len: "length (take (length ds) (rbf_rst st)) = length ds" using r(1) assms(2) by (simp add: s(2))
    fix i
    assume "i < length (take (length ds) (rbf_rst st))"
    with len have i: "i < length ds" by simp
    have "rbf_rst st ! ((length ds - Suc (length ds - Suc i)) mod RING_SIZE) = rev ds ! (length ds - Suc i)"
      unfolding s(2) using i assms(2) by (intro r(3)) simp
    moreover have "(length ds - Suc (length ds - Suc i)) mod RING_SIZE = i" using i assms(2) by simp
    ultimately show "take (length ds) (rbf_rst st) ! i = ds ! i" using i by (simp add: rev_nth)
  qed
qed

lemma print_results:
  "length ds \<le> RING_SIZE \<Longrightarrow>
   print_items 32 32 (32 * length ds) (copy_to_user 0 (concat (map bytes_of_result ds)) 0 (replicate 320 0)) = ds"
proof (rule nth_equalityI)
  fix i
  assume l: "length ds \<le> RING_SIZE"
    and "i < length (print_items 32 32 (32 * length ds) (copy_to_user 0 (concat (map bytes_of_result ds)) 0 (replicate 320 0)))"
  then have i: "i < length ds" by (simp add: print_items_def)
  have c: "length (concat (map bytes_of_result ds)) = 32 * length ds"
    using length_chunks [of bytes_of_result 32 ds] by simp
  have "take 32 (drop (32 * i) (concat (map bytes_of_result ds) @ z)) = bytes_of_result (ds ! i)" for z
    using chunk_nth [of bytes_of_result 32 i ds] i c by simp
  then show "print_items 32 32 (32 * length ds) (copy_to_user 0 (concat (map bytes_of_result ds)) 0 (replicate 320 0)) ! i = ds ! i"
    using i by (simp add: print_items_def copy_to_user_def Let_def del: take_append drop_append)
qed (simp add: print_items_def)

text \<open>The state between two runs: probes in order, nothing held, the records of the runs in the ring.\<close>

definition between_runs :: "debug_result list \<Rightarrow> mprobe \<Rightarrow> bool" where
  "between_runs ds st \<longleftrightarrow> kp_ok st \<and> registered st \<subseteq> set_option (kp st) \<and> ring_holds ds st"

lemma test_run_once:
  assumes st: "between_runs ds st" and lay: "layout_ok m" and rk: "run_rk e = 0"
    and rec: "run_record m (opened_ht ht) (second, e) = Some d" "xtc d \<noteq> 0" and len: "length ds < RING_SIZE"
  shows "\<exists>st'. fst (mprobe_test m second e ht) st = Ret (Inr (ds @ [d])) st' \<and> between_runs (ds @ [d]) st'"
proof -
  let ?r = "run_req m second" and ?ht = "opened_ht ht"
  obtain a junk where blk: "run_block e = (a, junk)" by (cases "run_block e")
  define u where "u = st\<lparr>kp := Some a,
      kheap := (kheap st)(a \<mapsto> \<lparr>kp_addr = probe_at ?r, symbol_name = Null, handlers = True\<rparr>),
      rbf_req := ?r, registered := registered st - set_option (kp st) \<union> {a}\<rparr>"
  have k: "kp_ok st" "registered st \<subseteq> set_option (kp st)" "ring_holds ds st" "held st = {}"
    using st by (auto simp: between_runs_def kp_ok_def)
  have at: "probe_at ?r \<noteq> 0" "probe_at ?r \<in> code_of m (if second then Flock else Fsync)"
    "probe_at ?r \<notin> code_of m (if second then Fsync else Flock)"
    using lay by (cases second; simp add: layout_ok_def)+
  have w: "mprobe_write (Some ?r) (Some (run_block e)) (run_rk e) st = Ret 0 u"
    using write_run [OF k(1), of ?r a junk 0] at(1) rk blk by (simp add: u_def)
  have u: "mp_inv u" "held u = {}" "rbf_req u = ?r" "rbf_rst u = rbf_rst st" "rbf_idx u = rbf_idx st"
    "probe_addr u = probe_at ?r" "probe_addr (mp_push d u) = probe_at ?r"
    using k by (auto simp: ring_holds_def mp_inv_def u_def probe_addr_def mp_push_def)
  have hit: "is_hit m f u \<longleftrightarrow> f = (if second then Flock else Fsync)"
    "is_hit m f (mp_push d u) \<longleftrightarrow> f = (if second then Flock else Fsync)" for f
    using at by (cases f; cases second; simp add: is_hit_def u_def mp_push_def)+
  have run: "handler_pre (mem32 m ?ht) (mem64 m ?ht) (run_pid e) (run_cycles e) (regs_at m (probe_at ?r)) u
      = Ret 0 (mp_push d u)"
    using hit_ok [OF u(1,2), of "\<lparr>h_rd32 = mem32 m ?ht, h_rd64 = mem64 m ?ht, h_pid = run_pid e,
          h_cycles = run_cycles e, h_regs = regs_at m (probe_at ?r)\<rparr>" d] rec(1) u(3)
    by (simp add: run_record_def)
  have calls: "bnd (probed_call m e ?ht Flock) (\<lambda>_. probed_call m e ?ht Fsync) u = Ret 0 (mp_push d u)"
    using run u(6,7) hit
    by (cases second) (simp_all add: probed_call_def run_simps ht530_fsync_def ht530_flock_def)
  have ring: "ring_holds (ds @ [d]) (mp_push d u)" using ring_holds_push [OF k(3) rec(2) u(4,5)] .
  note rd = ring_holds_read [OF ring]
  have "mprobe_read 320 0 (replicate 320 0) (mp_push d u) = Ret (int (32 * length (ds @ [d])),
      copy_to_user 0 (concat (map bytes_of_result (ds @ [d]))) 0 (replicate 320 0)) (mp_push d u)"
    using rd len u(2) by (subst read_ok) (simp_all del: map_append concat_append)
  moreover have "nat (32 + 32 * int (length ds)) = 32 * length (ds @ [d])" by simp
  ultimately have "fst (mprobe_test m second e ht) st = Ret (Inr (ds @ [d])) (mp_push d u)"
    using w calls print_results [of "ds @ [d]"] len
    by (cases second) (auto simp: mprobe_test_def Let_def opened_ht_def run_req_def mprobe_open_def
        mprobe_release_def run_simps split: outcome.splits simp del: map_append concat_append)
  moreover have "between_runs (ds @ [d]) (mp_push d u)"
    using ring k(2) u(2) by (auto simp: between_runs_def kp_ok_def u_def mp_push_def)
  ultimately show ?thesis by blast
qed

lemma tests_run:
  assumes "layout_ok m" and "\<forall>(second, e) \<in> set es. run_rk e = 0"
    and "map (run_record m (opened_ht ht)) es = map Some rs" and "\<forall>d \<in> set rs. xtc d \<noteq> 0"
    and "between_runs ds st" and "length ds + length es \<le> RING_SIZE"
  shows "\<exists>st'. mprobe_tests m es ht st = Ret (map (\<lambda>i. Inr (ds @ take (Suc i) rs)) [0..<length rs]) st'
    \<and> between_runs (ds @ rs) st'"
  using assms
proof (induction es arbitrary: ds rs st ht)
  case Nil
  then show ?case by (simp add: ret_def)
next
  case (Cons r es)
  obtain second e where r: "r = (second, e)" by (cases r)
  obtain d rs' where rs: "rs = d # rs'" "run_record m (opened_ht ht) (second, e) = Some d"
    "map (run_record m (opened_ht ht)) es = map Some rs'" using Cons.prems(3) r by (cases rs) auto
  have prem: "run_rk e = 0" "xtc d \<noteq> 0" "length ds < RING_SIZE" using Cons.prems r rs by auto
  from test_run_once [OF Cons.prems(5,1) prem(1) rs(2) prem(2,3)] obtain u where
    u: "fst (mprobe_test m second e ht) st = Ret (Inr (ds @ [d])) u" "between_runs (ds @ [d]) u" by blast
  have ht1: "snd (mprobe_test m second e ht) = opened_ht ht"
    by (simp add: mprobe_test_def Let_def opened_ht_def)
  from Cons.IH [OF Cons.prems(1) _ _ _ u(2), of "opened_ht ht" rs'] Cons.prems rs obtain v where
    v: "mprobe_tests m es (opened_ht ht) u = Ret (map (\<lambda>i. Inr (ds @ [d] @ take (Suc i) rs')) [0..<length rs']) v"
      "between_runs (ds @ [d] @ rs') v" by auto
  have "mprobe_tests m (r # es) ht st = Ret (Inr (ds @ [d]) # map (\<lambda>i. Inr (ds @ [d] @ take (Suc i) rs')) [0..<length rs']) v"
    using u(1) v(1) ht1
    by (cases second) (auto simp: r run_simps main_test1_def main_test2_def split: prod.splits)
  moreover have "map (\<lambda>i. Inr (ds @ take (Suc i) rs)) [0..<length rs]
      = (Inr :: _ \<Rightarrow> int + _) (ds @ [d]) # map (\<lambda>i. Inr (ds @ [d] @ take (Suc i) rs')) [0..<length rs']"
    by (simp add: rs(1) upt_conv_Cons map_Suc_upt [symmetric] del: upt_Suc)
  ultimately have "mprobe_tests m (r # es) ht st = Ret (map (\<lambda>i. Inr (ds @ take (Suc i) rs)) [0..<length rs]) v"
    by argo
  with v(2) rs(1) show ?case by auto
qed

section \<open>Properties\<close>

text \<open>
  (C19) Up to ten runs of the two test programs, in any order, on a fresh module: the \<open>n\<close>-th
  run ends with success and prints exactly one record per run so far, oldest first, each with
  the address, process and cycle counter of its hit and the values of the local and the
  global variable at that moment.
\<close>

theorem mprobe_tests_print_all_runs:
  assumes "layout_ok m" and "\<forall>(second, e) \<in> set es. run_rk e = 0"
    and "map (run_record m (opened_ht ht)) es = map Some rs" and "\<forall>d \<in> set rs. xtc d \<noteq> 0"
    and "kp_ok st" and "registered st \<subseteq> set_option (kp st)" and "fresh_ring st" and "length es \<le> 10"
  shows "\<exists>st'. mprobe_tests m es ht st = Ret (map (\<lambda>i. Inr (take (Suc i) rs)) [0..<length es]) st'"
proof -
  have "mp_inv st" using assms(7) by (simp add: fresh_ring_def)
  then have "between_runs [] st"
    using assms(5-7) by (auto simp: between_runs_def ring_holds_def)
  moreover have "length rs = length es" using assms(3) by (metis length_map)
  ultimately show ?thesis using tests_run [OF assms(1-4), of "[]" st] assms(8) by fastforce
qed

text \<open>
  On a 32-bit machine a result has 24 bytes and a request 28, and the loop divides by the
  wrong one: after \<open>n\<close> records it prints \<open>24 n div 28\<close> of them, none after the first run.
\<close>

lemma print_items_32bit:
  "length (print_items 24 28 (24 * n) items) = 24 * n div 28" and "print_items 24 28 24 items = []"
  by (simp_all add: print_items_def)

section \<open>Instances\<close>

text \<open>A machine with the text section at \<open>0xa0000000\<close> and the bss section at \<open>0xb0000000\<close>.\<close>

definition test_machine :: machine where
  "test_machine = \<lparr>text_file = section_file 0xa0000000, bss_file = section_file 0xb0000000,
     code_of = (\<lambda>f. case f of Fsync \<Rightarrow> {0xa0000099} | Flock \<Rightarrow> {0xa0000109}),
     regs_at = (\<lambda>a. \<lparr>ip = a + 1, sp = 0x5000, bp = 0x5008\<rparr>),
     mem32 = (\<lambda>ht a. if a = 0x5000 then Some 0x123456
       else if a = 0xb0000424 then Some (for_mprobe_test1 ht)
       else if a = 0xb0000420 then Some (for_mprobe_test2 ht) else None),
     mem64 = (\<lambda>ht a. if a = 0x5008 then Some 0 else None)\<rparr>"

definition fresh_mprobe :: mprobe where
  "fresh_mprobe = \<lparr>held = {}, kp = None, kheap = Map.empty, registered = {}, rbf_idx = 0,
     rbf_req = req1, rbf_rst = replicate 10 \<lparr>r_addr = 0, r_pid = 0, xtc = 0, g_var = 0, local_var = 0\<rparr>,
     mp_resources = {}\<rparr>"

definition run_nr :: "nat \<Rightarrow> run_env" where
  "run_nr i = \<lparr>run_pid = 8270 + of_nat i, run_cycles = 1000 + of_nat i,
     run_block = (i, \<lparr>kp_addr = 0, symbol_name = Null, handlers = False\<rparr>), run_rk = 0\<rparr>"

lemma test_machine_requests:
  "run_req test_machine False = req1\<lparr>sect := \<lparr>bss = 0xb0000000, text_sect = 0xa0000000\<rparr>\<rparr>"
  "run_req test_machine True = req2\<lparr>sect := \<lparr>bss = 0xb0000000, text_sect = 0xa0000000\<rparr>\<rparr>"
  by (simp_all add: run_req_def get_module_sections_def test_machine_def scan_section_file Let_def
      req1_def req2_def)

lemma test_machine_layout: "layout_ok test_machine"
  by (simp add: layout_ok_def test_machine_requests probe_at_def)
     (simp add: test_machine_def req1_def req2_def)

lemma test_machine_records:
  "run_record test_machine (opened_ht empty_ht) (False, run_nr i) =
     Some \<lparr>r_addr = 0xa000009a, r_pid = 8270 + of_nat i, xtc = 1000 + of_nat i, g_var = 0x12345, local_var = 0x123456\<rparr>"
  "run_record test_machine (opened_ht empty_ht) (True, run_nr i) =
     Some \<lparr>r_addr = 0xa000010a, r_pid = 8270 + of_nat i, xtc = 1000 + of_nat i, g_var = 0x54321, local_var = 0x123456\<rparr>"
  unfolding run_record_def case_prod_conv test_machine_requests probe_at_def
  by (simp_all add: test_machine_def req1_def req2_def run_nr_def hit_result_def opened_ht_def ht530_open_def)

theorem mprobe_tests_print_all_runs_witness:
  "\<exists>st' r1 r2. mprobe_tests test_machine [(False, run_nr 1), (True, run_nr 2)] empty_ht fresh_mprobe =
     Ret [Inr [r1], Inr [r1, r2]] st' \<and> g_var r1 = 0x12345 \<and> g_var r2 = 0x54321"
proof -
  let ?d1 = "\<lparr>r_addr = 0xa000009a, r_pid = 8271, xtc = 1001, g_var = 0x12345, local_var = 0x123456\<rparr> :: debug_result"
  let ?d2 = "\<lparr>r_addr = 0xa000010a, r_pid = 8272, xtc = 1002, g_var = 0x54321, local_var = 0x123456\<rparr> :: debug_result"
  let ?es = "[(False, run_nr 1), (True, run_nr 2)]"
  have st: "kp_ok fresh_mprobe" "registered fresh_mprobe \<subseteq> set_option (kp fresh_mprobe)" "fresh_ring fresh_mprobe"
    by (auto simp: kp_ok_def fresh_mprobe_def fresh_ring_def mp_inv_def)
  have recs: "map (run_record test_machine (opened_ht empty_ht)) ?es = map Some [?d1, ?d2]"
    by (simp add: test_machine_records)
  have rk: "\<forall>(second, e) \<in> set ?es. run_rk e = 0" by (simp add: run_nr_def)
  have x: "\<forall>d \<in> set [?d1, ?d2]. xtc d \<noteq> 0" by simp
  have "length ?es \<le> 10" by simp
  from mprobe_tests_print_all_runs [OF test_machine_layout rk recs x st this] obtain st' where
    "mprobe_tests test_machine ?es empty_ht fresh_mprobe = Ret (map (\<lambda>i. Inr (take (Suc i) [?d1, ?d2])) [0..<length ?es]) st'"
    by blast
  then have "mprobe_tests test_machine ?es empty_ht fresh_mprobe = Ret [Inr [?d1], Inr [?d1, ?d2]] st'"
    by (simp del: mprobe_tests.simps)
  then show ?thesis
    by (intro exI [of _ st'] exI [of _ ?d1] exI [of _ ?d2]) (simp del: mprobe_tests.simps)
qed

end
