(* ===== verification/HCSR_Pins.thy ===== *)
theory HCSR_Pins
  imports Contracts
begin

text \<open>
  The pin multiplexing of the HC-SR04 driver: the table of the board's pins
  (\<open>hw_setting.h\<close>) and the routines of \<open>hc_sr04_kernel.h\<close> that request, configure and
  free the GPIOs behind a pin. The GPIO subsystem is the set of GPIOs this driver holds,
  the direction each was given, and a log of the GPIOs freed without being held; what it
  answers otherwise (GPIOs held by somebody else, failing direction calls, interrupt
  numbers) is an environment given as an argument.
\<close>

section \<open>The GPIO subsystem\<close>

datatype gdir = Out int | In

record gpio =
  requested :: "int set"
  dirs :: "int \<Rightarrow> gdir option"
  bad_free :: "int list"

record gpio_env =
  busy :: "int \<Rightarrow> bool"
  dir_ret :: "int \<Rightarrow> int"

definition gpio_request :: "gpio_env \<Rightarrow> int \<Rightarrow> gpio \<Rightarrow> int \<times> gpio" where
  "gpio_request env p g =
     (if p \<in> requested g \<or> busy env p then (- 16, g) else (0, g\<lparr>requested := insert p (requested g)\<rparr>))"

definition gpio_free :: "int \<Rightarrow> gpio \<Rightarrow> gpio" where
  "gpio_free p g =
     (if p \<in> requested g then g\<lparr>requested := requested g - {p}\<rparr> else g\<lparr>bad_free := bad_free g @ [p]\<rparr>)"

definition gpio_direction_output :: "gpio_env \<Rightarrow> int \<Rightarrow> int \<Rightarrow> gpio \<Rightarrow> int \<times> gpio" where
  "gpio_direction_output env p v g =
     (if dir_ret env p \<noteq> 0 then (dir_ret env p, g) else (0, g\<lparr>dirs := (dirs g)(p \<mapsto> Out v)\<rparr>))"

definition gpio_direction_input :: "gpio_env \<Rightarrow> int \<Rightarrow> gpio \<Rightarrow> int \<times> gpio" where
  "gpio_direction_input env p g =
     (if dir_ret env p \<noteq> 0 then (dir_ret env p, g) else (0, g\<lparr>dirs := (dirs g)(p \<mapsto> In)\<rparr>))"

section \<open>The table of pins\<close>

abbreviation (input) HC_GPIO_LINUX :: nat where "HC_GPIO_LINUX \<equiv> 0"
abbreviation (input) HC_GPIO_LEVEL :: nat where "HC_GPIO_LEVEL \<equiv> 1"
abbreviation (input) HC_GPIO_PULL :: nat where "HC_GPIO_PULL \<equiv> 2"
abbreviation (input) HC_GPIO_MUX0 :: nat where "HC_GPIO_MUX0 \<equiv> 3"
abbreviation (input) HC_GPIO_MUX1 :: nat where "HC_GPIO_MUX1 \<equiv> 4"
abbreviation (input) DIR_IN :: int where "DIR_IN \<equiv> 1"
abbreviation (input) DIR_OUT :: int where "DIR_OUT \<equiv> 0"
abbreviation (input) PULL_DOWN :: int where "PULL_DOWN \<equiv> 0"

type_synonym pin_row = "(int \<times> int) list"

definition all_pins :: "pin_row list" where
  "all_pins =
    [[(11, 0), (32, - 1), (33, PULL_DOWN), (- 1, - 1), (- 1, - 1)],
     [(12, 0), (28, - 1), (29, PULL_DOWN), (45, 0), (- 1, - 1)],
     [(13, 0), (34, - 1), (35, PULL_DOWN), (77, 0), (- 1, - 1)],
     [(14, 0), (16, - 1), (17, PULL_DOWN), (76, 0), (64, 0)],
     [(6, 0), (36, - 1), (37, PULL_DOWN), (- 1, - 1), (- 1, - 1)],
     [(0, 0), (18, - 1), (19, PULL_DOWN), (66, 0), (- 1, - 1)],
     [(1, 0), (20, - 1), (21, PULL_DOWN), (68, 0), (- 1, - 1)],
     [(38, 0), (- 1, DIR_OUT), (- 1, PULL_DOWN), (- 1, - 1), (- 1, - 1)],
     [(40, 0), (- 1, DIR_OUT), (- 1, PULL_DOWN), (- 1, - 1), (- 1, - 1)],
     [(4, 0), (22, - 1), (23, PULL_DOWN), (70, 0), (- 1, - 1)],
     [(10, 0), (26, - 1), (27, PULL_DOWN), (74, 0), (- 1, - 1)],
     [(5, 0), (24, - 1), (25, PULL_DOWN), (44, 0), (72, 0)],
     [(15, 0), (42, - 1), (43, PULL_DOWN), (- 1, - 1), (- 1, - 1)],
     [(7, 0), (30, - 1), (31, PULL_DOWN), (46, 0), (- 1, - 1)],
     [(48, 0), (- 1, DIR_OUT), (- 1, PULL_DOWN), (- 1, - 1), (- 1, - 1)],
     [(50, 0), (- 1, DIR_OUT), (- 1, PULL_DOWN), (- 1, - 1), (- 1, - 1)],
     [(52, 0), (- 1, DIR_OUT), (- 1, PULL_DOWN), (- 1, - 1), (- 1, - 1)],
     [(54, 0), (- 1, DIR_OUT), (- 1, PULL_DOWN), (- 1, - 1), (- 1, - 1)],
     [(56, 0), (- 1, DIR_OUT), (- 1, PULL_DOWN), (- 1, - 1), (- 1, - 1)],
     [(58, 0), (- 1, DIR_OUT), (- 1, PULL_DOWN), (- 1, - 1), (- 1, - 1)]]"

section \<open>Freeing a pin\<close>

text \<open>The inner loops run over the entries of a row with the entry's index \<open>m\<close>.\<close>

fun freeTrig_row :: "nat \<Rightarrow> pin_row \<Rightarrow> gpio \<Rightarrow> gpio" where
  "freeTrig_row m [] g = g"
| "freeTrig_row m ((p, v) # es) g =
     (if m = HC_GPIO_PULL then freeTrig_row (Suc m) es g
      else if p = - 1 then freeTrig_row (Suc m) es g
      else freeTrig_row (Suc m) es (gpio_free p g))"

fun freeTrig_rows :: "int \<Rightarrow> pin_row list \<Rightarrow> gpio \<Rightarrow> gpio" where
  "freeTrig_rows pin [] g = g"
| "freeTrig_rows pin (row # rows) g =
     (if pin \<noteq> fst (row ! HC_GPIO_LINUX) then freeTrig_rows pin rows g
      else freeTrig_rows pin rows (freeTrig_row 0 row g))"

definition freeTrig :: "int \<Rightarrow> gpio \<Rightarrow> gpio" where
  "freeTrig pin g = freeTrig_rows pin all_pins g"

fun freeEcho_row :: "pin_row \<Rightarrow> gpio \<Rightarrow> gpio" where
  "freeEcho_row [] g = g"
| "freeEcho_row ((p, v) # es) g =
     (if p = - 1 then freeEcho_row es g else freeEcho_row es (gpio_free p g))"

fun freeEcho_rows :: "int \<Rightarrow> pin_row list \<Rightarrow> gpio \<Rightarrow> gpio" where
  "freeEcho_rows pin [] g = g"
| "freeEcho_rows pin (row # rows) g =
     (if pin \<noteq> fst (row ! HC_GPIO_LINUX) then freeEcho_rows pin rows g
      else freeEcho_rows pin rows (freeEcho_row row g))"

definition freeEcho :: "int \<Rightarrow> gpio \<Rightarrow> gpio" where
  "freeEcho pin g = freeEcho_rows pin all_pins g"

section \<open>Setting up a pin\<close>

text \<open>
  The bodies of the inner loops, for the entry \<open>(p, v)\<close> at index \<open>m\<close>. \<open>None\<close>: the loop
  goes on; \<open>Some r\<close>: the routine returns \<open>r\<close>. A failed request returns at once, a failed
  direction call first frees the pin itself (not the GPIO whose direction could not be set).
\<close>

definition trig_entry :: "gpio_env \<Rightarrow> int \<Rightarrow> nat \<Rightarrow> int \<Rightarrow> int \<Rightarrow> gpio \<Rightarrow> int option \<times> gpio" where
  "trig_entry env pin m p v g =
     (if m = HC_GPIO_PULL then (None, g)
      else if p = - 1 then (None, g)
      else
        let (ret1, g1) = gpio_request env p g in
        if ret1 \<noteq> 0 then (Some (- EINVAL), g1)
        else if m = HC_GPIO_MUX0 \<or> m = HC_GPIO_MUX1
        then (None, snd (gpio_direction_output env p v g1))
        else if m = HC_GPIO_LEVEL
        then let (ret2, g2) = gpio_direction_output env p DIR_OUT g1 in
             if ret2 \<noteq> 0 then (Some (- EINVAL), gpio_free pin g2) else (None, g2)
        else if m = HC_GPIO_LINUX
        then let (ret2, g2) = gpio_direction_output env p 0 g1 in
             if ret2 \<noteq> 0 then (Some (- EINVAL), gpio_free pin g2) else (None, g2)
        else (None, g1))"

definition echo_entry :: "gpio_env \<Rightarrow> int \<Rightarrow> nat \<Rightarrow> int \<Rightarrow> int \<Rightarrow> gpio \<Rightarrow> int option \<times> gpio" where
  "echo_entry env pin m p v g =
     (if p = - 1 then (None, g)
      else
        let (ret1, g1) = gpio_request env p g in
        if ret1 \<noteq> 0 then (Some (- EINVAL), g1)
        else if m = HC_GPIO_MUX0 \<or> m = HC_GPIO_MUX1
        then (None, snd (gpio_direction_output env p v g1))
        else if m = HC_GPIO_PULL
        then (None, snd (gpio_direction_output env p PULL_DOWN g1))
        else if m = HC_GPIO_LEVEL
        then let (ret2, g2) = gpio_direction_output env p DIR_IN g1 in
             if ret2 \<noteq> 0 then (Some (- EINVAL), gpio_free pin g2) else (None, g2)
        else if m = HC_GPIO_LINUX
        then let (ret2, g2) = gpio_direction_input env p g1 in
             if ret2 \<noteq> 0 then (Some (- EINVAL), gpio_free pin g2) else (None, g2)
        else (None, g1))"

text \<open>The two nested loops around a body: over the entries of a row, over the rows of the pin.\<close>

type_synonym entry_body = "nat \<Rightarrow> int \<Rightarrow> int \<Rightarrow> gpio \<Rightarrow> int option \<times> gpio"

fun row_loop :: "entry_body \<Rightarrow> nat \<Rightarrow> pin_row \<Rightarrow> gpio \<Rightarrow> int option \<times> gpio" where
  "row_loop body m [] g = (None, g)"
| "row_loop body m ((p, v) # es) g =
     (case body m p v g of
        (Some r, g') \<Rightarrow> (Some r, g')
      | (None, g') \<Rightarrow> row_loop body (Suc m) es g')"

fun rows_loop :: "entry_body \<Rightarrow> int \<Rightarrow> pin_row list \<Rightarrow> gpio \<Rightarrow> int \<times> gpio" where
  "rows_loop body pin [] g = (0, g)"
| "rows_loop body pin (row # rows) g =
     (if pin \<noteq> fst (row ! HC_GPIO_LINUX) then rows_loop body pin rows g
      else case row_loop body 0 row g of
        (Some r, g') \<Rightarrow> (r, g')
      | (None, g') \<Rightarrow> rows_loop body pin rows g')"

definition setTrig :: "gpio_env \<Rightarrow> int \<Rightarrow> gpio \<Rightarrow> int \<times> gpio" where
  "setTrig env pin g = rows_loop (trig_entry env pin) pin all_pins g"

definition setEcho :: "gpio_env \<Rightarrow> int \<Rightarrow> gpio \<Rightarrow> int \<times> gpio" where
  "setEcho env pin g = rows_loop (echo_entry env pin) pin all_pins g"

section \<open>The GPIOs behind a pin\<close>

text \<open>The GPIOs a row stands for, in the order of the loops; a trigger leaves the pull-up alone.\<close>

fun row_gpios :: "bool \<Rightarrow> nat \<Rightarrow> pin_row \<Rightarrow> int list" where
  "row_gpios trig m [] = []"
| "row_gpios trig m ((p, v) # es) =
     (if trig \<and> m = HC_GPIO_PULL \<or> p = - 1 then row_gpios trig (Suc m) es
      else p # row_gpios trig (Suc m) es)"

definition rows_gpios :: "bool \<Rightarrow> int \<Rightarrow> pin_row list \<Rightarrow> int list" where
  "rows_gpios trig pin rows =
     concat (map (row_gpios trig 0) (filter (\<lambda>row. pin = fst (row ! 0)) rows))"

definition pin_gpios :: "bool \<Rightarrow> int \<Rightarrow> int list" where
  "pin_gpios trig pin = rows_gpios trig pin all_pins"

lemma rows_gpios_simps [simp]:
  "rows_gpios trig pin [] = []"
  "rows_gpios trig pin (row # rows) =
     (if pin = fst (row ! 0) then row_gpios trig 0 row else []) @ rows_gpios trig pin rows"
  by (simp_all add: rows_gpios_def)

lemma freeTrig_row_eq: "freeTrig_row m es g = fold gpio_free (row_gpios True m es) g"
  by (induction m es g rule: freeTrig_row.induct) auto

lemma freeEcho_row_eq: "freeEcho_row es g = fold gpio_free (row_gpios False m es) g"
  by (induction es g arbitrary: m rule: freeEcho_row.induct) auto

lemma freeTrig_eq: "freeTrig pin g = fold gpio_free (pin_gpios True pin) g"
proof -
  have "freeTrig_rows pin rows g = fold gpio_free (rows_gpios True pin rows) g" for rows
    by (induction pin rows g rule: freeTrig_rows.induct) (auto simp: freeTrig_row_eq)
  then show ?thesis by (simp add: freeTrig_def pin_gpios_def)
qed

lemma freeEcho_eq: "freeEcho pin g = fold gpio_free (pin_gpios False pin) g"
proof -
  have "freeEcho_rows pin rows g = fold gpio_free (rows_gpios False pin rows) g" for rows
    by (induction pin rows g rule: freeEcho_rows.induct) (auto simp: freeEcho_row_eq [of _ _ 0])
  then show ?thesis by (simp add: freeEcho_def pin_gpios_def)
qed

lemma free_held:
  "distinct ps \<Longrightarrow> set ps \<subseteq> requested g \<Longrightarrow>
    requested (fold gpio_free ps g) = requested g - set ps \<and> bad_free (fold gpio_free ps g) = bad_free g
    \<and> dirs (fold gpio_free ps g) = dirs g"
proof (induction ps arbitrary: g)
  case (Cons p ps)
  have "requested (gpio_free p g) = requested g - {p}" "bad_free (gpio_free p g) = bad_free g"
    "dirs (gpio_free p g) = dirs g" using Cons.prems by (auto simp: gpio_free_def)
  with Cons.IH [of "gpio_free p g"] Cons.prems show ?case by auto
qed simp

lemma free_not_held:
  "set ps \<inter> requested g = {} \<Longrightarrow>
    requested (fold gpio_free ps g) = requested g \<and> bad_free (fold gpio_free ps g) = bad_free g @ ps"
proof (induction ps arbitrary: g)
  case (Cons p ps)
  have "requested (gpio_free p g) = requested g" "bad_free (gpio_free p g) = bad_free g @ [p]"
    using Cons.prems by (auto simp: gpio_free_def)
  with Cons.IH [of "gpio_free p g"] Cons.prems show ?case by auto
qed simp

lemma free_always: "requested (fold gpio_free ps g) = requested g - set ps"
proof (induction ps arbitrary: g)
  case (Cons p ps)
  have "requested (gpio_free p g) = requested g - {p}" by (auto simp: gpio_free_def)
  with Cons.IH [of "gpio_free p g"] show ?case by auto
qed simp

section \<open>What setting up a pin acquires\<close>

definition acquires :: "int list \<Rightarrow> gpio \<Rightarrow> gpio \<Rightarrow> bool" where
  "acquires ps g g' \<longleftrightarrow> requested g' = requested g \<union> set ps \<and> set ps \<inter> requested g = {}
     \<and> distinct ps \<and> bad_free g' = bad_free g"

lemma acquires_Nil [simp]: "acquires [] g g"
  by (simp add: acquires_def)

lemma acquires_Cons:
  "p \<notin> requested g \<Longrightarrow> requested g1 = insert p (requested g) \<Longrightarrow> bad_free g1 = bad_free g \<Longrightarrow>
    acquires ps g1 g' \<Longrightarrow> acquires (p # ps) g g'"
  by (auto simp: acquires_def)

lemma acquires_append: "acquires ps g g1 \<Longrightarrow> acquires qs g1 g2 \<Longrightarrow> acquires (ps @ qs) g g2"
  by (auto simp: acquires_def)

text \<open>Freeing what was acquired gives back the GPIOs held before.\<close>

lemma acquires_free:
  "acquires ps g g' \<Longrightarrow>
    requested (fold gpio_free ps g') = requested g \<and> bad_free (fold gpio_free ps g') = bad_free g"
  using free_held [of ps g'] by (auto simp: acquires_def)

text \<open>A list of GPIOs that can all be had and configured.\<close>

definition available :: "gpio_env \<Rightarrow> int list \<Rightarrow> gpio \<Rightarrow> bool" where
  "available env ps g \<longleftrightarrow> distinct ps
     \<and> (\<forall>p \<in> set ps. p \<notin> requested g \<and> \<not> busy env p \<and> dir_ret env p = 0)"

lemma available_next:
  "available env (p # ps) g \<Longrightarrow> requested g1 = insert p (requested g) \<Longrightarrow> available env ps g1"
  by (auto simp: available_def)

lemma available_append:
  "available env (ps @ qs) g \<Longrightarrow> acquires ps g g1 \<Longrightarrow> available env ps g \<and> available env qs g1"
  by (auto simp: available_def acquires_def)

text \<open>
  What the loops need of a body: an entry that is not skipped requests its GPIO, and only
  that, or gives up with one of the error codes \<open>codes\<close>, none of which is 0; it does not
  give up when the GPIO is available.
\<close>

locale pin_setup =
  fixes trig :: bool and codes :: "int set" and env :: gpio_env and body :: entry_body
  assumes skips: "trig \<and> m = HC_GPIO_PULL \<or> p = - 1 \<Longrightarrow> body m p v g = (None, g)"
    and takes: "\<not> (trig \<and> m = HC_GPIO_PULL \<or> p = - 1) \<Longrightarrow> body m p v g = (None, g') \<Longrightarrow>
      p \<notin> requested g \<and> requested g' = insert p (requested g) \<and> bad_free g' = bad_free g"
    and gives_up: "body m p v g = (Some r, g') \<Longrightarrow> r \<in> codes"
    and codes_nonzero: "0 \<notin> codes"
    and goes_on: "available env [p] g \<Longrightarrow> fst (body m p v g) = None"
begin

lemma row_acquires: "row_loop body m es g = (None, g') \<Longrightarrow> acquires (row_gpios trig m es) g g'"
proof (induction es arbitrary: m g)
  case (Cons e es)
  obtain p v where e: "e = (p, v)" by (cases e)
  from Cons.prems obtain g1 where g1: "body m p v g = (None, g1)" "row_loop body (Suc m) es g1 = (None, g')"
    by (auto simp: e split: prod.splits option.splits)
  show ?case
    using Cons.IH [OF g1(2)] skips [of m p v g] takes [OF _ g1(1)] g1(1)
    by (auto simp: e intro: acquires_Cons)
qed simp

lemma row_error: "row_loop body m es g = (Some r, g') \<Longrightarrow> r \<in> codes"
proof (induction es arbitrary: m g)
  case (Cons e es)
  then show ?case by (cases e) (auto dest: gives_up split: prod.splits option.splits)
qed simp

lemma row_available: "available env (row_gpios trig m es) g \<Longrightarrow> fst (row_loop body m es g) = None"
proof (induction es arbitrary: m g)
  case (Cons e es)
  obtain p v where e: "e = (p, v)" by (cases e)
  show ?case
  proof (cases "trig \<and> m = HC_GPIO_PULL \<or> p = - 1")
    case True
    then show ?thesis using Cons skips [OF True] by (simp add: e)
  next
    case False
    then have "available env (p # row_gpios trig (Suc m) es) g" using Cons.prems by (auto simp: e)
    moreover from this have "fst (body m p v g) = None"
      by (intro goes_on) (simp add: available_def)
    ultimately show ?thesis
      using Cons.IH takes [OF False] available_next by (cases "body m p v g") (fastforce simp: e)
  qed
qed simp

lemma rows_acquire: "rows_loop body pin rows g = (0, g') \<Longrightarrow> acquires (rows_gpios trig pin rows) g g'"
proof (induction rows arbitrary: g)
  case (Cons row rows)
  show ?case
  proof (cases "pin = fst (row ! 0)")
    case True
    with Cons.prems obtain g1 where g1: "row_loop body 0 row g = (None, g1)" "rows_loop body pin rows g1 = (0, g')"
      using row_error codes_nonzero by (fastforce split: prod.splits option.splits)
    from acquires_append [OF row_acquires [OF g1(1)] Cons.IH [OF g1(2)]] True show ?thesis by simp
  qed (use Cons in auto)
qed simp

lemma rows_error: "fst (rows_loop body pin rows g) \<in> insert 0 codes"
proof (induction rows arbitrary: g)
  case (Cons row rows)
  then show ?case by (auto dest: row_error split: prod.splits option.splits)
qed simp

lemma rows_available: "available env (rows_gpios trig pin rows) g \<Longrightarrow> fst (rows_loop body pin rows g) = 0"
proof (induction rows arbitrary: g)
  case (Cons row rows)
  show ?case
  proof (cases "pin = fst (row ! 0)")
    case True
    have av: "available env (row_gpios trig 0 row @ rows_gpios trig pin rows) g"
      using Cons.prems True by simp
    then have "available env (row_gpios trig 0 row) g" by (auto simp: available_def)
    then obtain g1 where g1: "row_loop body 0 row g = (None, g1)"
      using row_available [of 0 row g] by (cases "row_loop body 0 row g") auto
    with Cons.IH available_append [OF av row_acquires] True show ?thesis by simp
  qed (use Cons in auto)
qed simp

end

interpretation trig: pin_setup True "{- EINVAL}" env "trig_entry env pin" for env pin
  by unfold_locales
     (auto simp: trig_entry_def Let_def available_def gpio_request_def gpio_direction_output_def
       split: if_splits prod.splits)

interpretation echo: pin_setup False "{- EINVAL}" env "echo_entry env pin" for env pin
  by unfold_locales
     (auto simp: echo_entry_def Let_def available_def gpio_request_def gpio_direction_output_def
       gpio_direction_input_def split: if_splits prod.splits)

lemma setTrig_acquires: "setTrig env pin g = (0, g') \<Longrightarrow> acquires (pin_gpios True pin) g g'"
  by (simp add: setTrig_def pin_gpios_def trig.rows_acquire)

lemma setEcho_acquires: "setEcho env pin g = (0, g') \<Longrightarrow> acquires (pin_gpios False pin) g g'"
  by (simp add: setEcho_def pin_gpios_def echo.rows_acquire)

lemma set_available:
  "available env (pin_gpios True pin) g \<Longrightarrow> fst (setTrig env pin g) = 0"
  "available env (pin_gpios False pin) g \<Longrightarrow> fst (setEcho env pin g) = 0"
  by (simp_all add: setTrig_def setEcho_def pin_gpios_def trig.rows_available echo.rows_available)

lemma set_results: "fst (setTrig env pin g) \<in> {0, - EINVAL}" "fst (setEcho env pin g) \<in> {0, - EINVAL}"
  by (simp_all only: setTrig_def setEcho_def trig.rows_error echo.rows_error)

section \<open>The table\<close>

text \<open>No GPIO occurs twice in the table, so different pins share none.\<close>

lemma table_gpios_distinct: "distinct (concat (map (row_gpios False 0) all_pins))"
  by (simp add: all_pins_def)

lemma row_gpios_trig: "set (row_gpios True m es) \<subseteq> set (row_gpios False m es)"
  by (induction "True" m es rule: row_gpios.induct) auto

lemma distinct_row_gpios: "distinct (row_gpios False m es) \<Longrightarrow> distinct (row_gpios True m es)"
proof (induction es arbitrary: m)
  case (Cons e es)
  then show ?case using row_gpios_trig [of "Suc m" es] by (cases e) (auto split: if_splits)
qed simp

lemma rows_gpios_distinct:
  "distinct (concat (map (row_gpios False 0) rows)) \<Longrightarrow>
    distinct (rows_gpios trig pin rows)
    \<and> set (rows_gpios trig pin rows) \<subseteq> set (concat (map (row_gpios False 0) rows))"
proof (induction rows)
  case (Cons row rows)
  have "set (row_gpios trig 0 row) \<subseteq> set (row_gpios False 0 row)"
    using row_gpios_trig by (cases trig) auto
  moreover have "distinct (row_gpios trig 0 row)"
    using Cons.prems distinct_row_gpios by (cases trig) auto
  ultimately show ?case using Cons by (auto simp del: set_concat)
qed simp

lemma rows_gpios_disjoint:
  assumes "p \<noteq> q"
  shows "distinct (concat (map (row_gpios False 0) rows)) \<Longrightarrow>
    set (rows_gpios t p rows) \<inter> set (rows_gpios t' q rows) = {}"
proof (induction rows)
  case (Cons row rows)
  have "set (row_gpios t 0 row) \<subseteq> set (row_gpios False 0 row)" "set (row_gpios t' 0 row) \<subseteq> set (row_gpios False 0 row)"
    using row_gpios_trig by (cases t; cases t'; auto)+
  moreover have "set (row_gpios False 0 row) \<inter> set (rows_gpios t'' r rows) = {}" for t'' r
    using Cons.prems rows_gpios_distinct [of rows t'' r] by (auto simp del: set_concat)
  ultimately show ?case using Cons assms by (auto simp del: set_concat) blast+
qed simp

lemma pin_gpios_distinct: "distinct (pin_gpios trig pin)"
  using rows_gpios_distinct [OF table_gpios_distinct] by (simp add: pin_gpios_def)

lemma pin_gpios_disjoint: "p \<noteq> q \<Longrightarrow> set (pin_gpios t p) \<inter> set (pin_gpios t' q) = {}"
  using rows_gpios_disjoint [OF _ table_gpios_distinct] by (simp add: pin_gpios_def)

end
