(* ===== verification/HCSR_Driver.thy ===== *)
theory HCSR_Driver
  imports HCSR_Pins
begin

text \<open>
  The HC-SR04 distance-sensor driver \<open>02_Concurrent_HC-SR04_miscdeivces/hc_sr04.c\<close>: one
  device with its configuration, its ring of five samples and its measurement flag; the
  echo interrupt, sending a pulse and waiting for the echo, the sampling thread, the two
  ioctls, reading and writing, and module load and unload. The echo interrupts that arrive
  while a thread polls are an argument of the routine that polls.
\<close>

section \<open>Data\<close>

abbreviation (input) ONE_SHOT :: s32 where "ONE_SHOT \<equiv> 0"
abbreviation (input) PERIODIC :: s32 where "PERIODIC \<equiv> 1"
abbreviation (input) NUM_DATA :: nat where "NUM_DATA \<equiv> 5"

datatype hlock = Kthread_lock | Irq_done_lock | Kconfig_lock | Cir_buf_lock | Ongoing_lock

text \<open>
  \<open>ongoing\<close> and \<open>irq_done\<close> are the flags \<open>ONGOING\<close> and \<open>IRQ_DONE\<close>; \<open>kthread\<close>
  is the frequency the running thread was started with, or \<open>None\<close> for a null pointer. \<open>irqs\<close> are the interrupt lines requested for the device, \<open>bad_irq\<close> the lines
  freed without being requested, \<open>edges\<close> the values written to GPIOs.
\<close>

record hcsr_struct = "hlock locked" +
  irq_done :: bool
  echo_isr_number :: int
  kstart :: u64
  kthread :: "u32 option"
  trigger_pin :: int
  echo_pin :: int
  mode :: s32
  freq :: u32
  newest :: int
  cbuf :: "s32 list"
  ongoing :: bool
  gpios :: gpio
  irqs :: "int set"
  bad_irq :: "int list"
  edges :: "(int \<times> int) list"

definition SETPINS :: u32 where "SETPINS = IOW (CHR ''H'') 1 4"
definition SETMODE :: u32 where "SETMODE = IOW (CHR ''H'') 2 4"

section \<open>The echo interrupt\<close>

text \<open>
  \<open>now\<close> is the time the handler reads. The difference in nanoseconds is cut to 32 bits
  and divided by 5800.
\<close>

definition distance_of :: "u64 \<Rightarrow> u64 \<Rightarrow> u32" where
  "distance_of start now = (ucast (now - start) :: u32) div 5800"

definition echo_recv_isr :: "u64 \<Rightarrow> (unit, 'z hcsr_struct_scheme) cmd" where
  "echo_recv_isr now =
     bnd (spin_lock Ongoing_lock) (\<lambda>_.
     bnd (look ongoing) (\<lambda>on.
     bnd (spin_unlock Ongoing_lock) (\<lambda>_.
     bnd (if \<not> on then ret ()
          else
            bnd (spin_lock Cir_buf_lock) (\<lambda>_.
            bnd (upd (\<lambda>st. st\<lparr>newest := (newest st + 1) mod int NUM_DATA\<rparr>)) (\<lambda>_.
            bnd (upd (\<lambda>st. st\<lparr>cbuf := (cbuf st)[nat (newest st) := distance_of (kstart st) now]\<rparr>)) (\<lambda>_.
            spin_unlock Cir_buf_lock)))) (\<lambda>_.
     bnd (spin_lock Ongoing_lock) (\<lambda>_.
     bnd (upd (\<lambda>st. st\<lparr>ongoing := False\<rparr>)) (\<lambda>_.
     spin_unlock Ongoing_lock))))))"

section \<open>Sending a pulse\<close>

text \<open>
  The polling loop of \<open>do_send\<close>, at counter \<open>c\<close>; \<open>first\<close> is \<open>cnt == 0\<close>, while the lock is
  still held. \<open>ev k\<close> is the time of an echo interrupt during the \<open>k\<close>-th microsecond.
\<close>

function poll :: "(nat \<Rightarrow> u64 option) \<Rightarrow> bool \<Rightarrow> nat \<Rightarrow> (int, 'z hcsr_struct_scheme) cmd" where
  "poll ev first c =
     bnd (look ongoing) (\<lambda>on.
       if \<not> on then (if first then bnd (spin_unlock Ongoing_lock) (\<lambda>_. ret 0) else ret 0)
       else
         bnd (if first then spin_unlock Ongoing_lock else ret ()) (\<lambda>_.
         if c + 1 > 50000
         then
           bnd (spin_lock Ongoing_lock) (\<lambda>_.
           bnd (upd (\<lambda>st. st\<lparr>ongoing := False\<rparr>)) (\<lambda>_.
           bnd (spin_unlock Ongoing_lock) (\<lambda>_.
           ret (- EAGAIN))))
         else
           bnd (case ev (c + 1) of None \<Rightarrow> ret () | Some now \<Rightarrow> echo_recv_isr now) (\<lambda>_.
           poll ev False (c + 1))))"
  by pat_completeness auto
termination
  by (relation "measure (\<lambda>(ev, first, c). 50001 - c)") auto

declare poll.simps [simp del]

text \<open>\<open>start\<close> is the time right after the pulse.\<close>

definition do_send :: "u64 \<times> (nat \<Rightarrow> u64 option) \<Rightarrow> (int, 'z hcsr_struct_scheme) cmd" where
  "do_send att =
     (let (start, ev) = att in
      bnd (upd (\<lambda>st. st\<lparr>edges := edges st @ [(trigger_pin st, 1), (trigger_pin st, 0)]\<rparr>)) (\<lambda>_.
      bnd (upd (\<lambda>st. st\<lparr>kstart := start\<rparr>)) (\<lambda>_.
      bnd (spin_lock Ongoing_lock) (\<lambda>_.
      poll ev True 0))))"

text \<open>The \<open>do ... while\<close> loop of \<open>send\<close>; \<open>atts k\<close> describes the \<open>k\<close>-th attempt.\<close>

fun send_loop :: "(nat \<Rightarrow> u64 \<times> (nat \<Rightarrow> u64 option)) \<Rightarrow> nat \<Rightarrow> nat \<Rightarrow> (int, 'z hcsr_struct_scheme) cmd" where
  "send_loop atts k 0 = do_send (atts k)"
| "send_loop atts k (Suc r) =
     bnd (do_send (atts k)) (\<lambda>res. if res \<noteq> 0 then send_loop atts (Suc k) r else ret res)"

definition send :: "(nat \<Rightarrow> u64 \<times> (nat \<Rightarrow> u64 option)) \<Rightarrow> nat \<Rightarrow> (int, 'z hcsr_struct_scheme) cmd" where
  "send atts retry_cnt =
     bnd (spin_lock Ongoing_lock) (\<lambda>_.
     bnd (look ongoing) (\<lambda>on.
     if on then bnd (spin_unlock Ongoing_lock) (\<lambda>_. ret 0)
     else
       bnd (upd (\<lambda>st. st\<lparr>ongoing := True\<rparr>)) (\<lambda>_.
       bnd (spin_unlock Ongoing_lock) (\<lambda>_.
       send_loop atts 0 retry_cnt))))"

section \<open>The sampling thread\<close>

text \<open>
  \<open>kthread_run\<close> starts \<open>thread_function\<close>, which divides by the frequency before anything
  else: a thread started with frequency 0 faults. Its loop is the list of rounds until it
  is told to stop.
\<close>

definition kthread_run :: "(unit, 'z hcsr_struct_scheme) cmd" where
  "kthread_run = upd (\<lambda>st. st\<lparr>kthread := Some (freq st)\<rparr>)"

fun thread_rounds :: "(nat \<Rightarrow> u64 \<times> (nat \<Rightarrow> u64 option)) list \<Rightarrow> (int, 'z hcsr_struct_scheme) cmd" where
  "thread_rounds [] = ret 0"
| "thread_rounds (a # rounds) = bnd (send a 3) (\<lambda>_. thread_rounds rounds)"

definition thread_function :: "(nat \<Rightarrow> u64 \<times> (nat \<Rightarrow> u64 option)) list \<Rightarrow> (int, 'z hcsr_struct_scheme) cmd" where
  "thread_function rounds =
     bnd (look freq) (\<lambda>f. if f = 0 then crash DivideError else thread_rounds rounds)"

section \<open>Configuring the pins\<close>

text \<open>
  \<open>to_irq\<close> and \<open>req_irq\<close> are the answers of \<open>gpio_to_irq\<close> and \<open>request_irq\<close>.
\<close>

record irq_env =
  to_irq :: "int \<Rightarrow> int"
  req_irq :: "int \<Rightarrow> int"

definition set_ISR :: "irq_env \<Rightarrow> (int, 'z hcsr_struct_scheme) cmd" where
  "set_ISR ienv =
     bnd (look (\<lambda>st. to_irq ienv (echo_pin st))) (\<lambda>n.
     if 0 > n then ret (- EAGAIN)
     else
       bnd (upd (\<lambda>st. st\<lparr>echo_isr_number := n\<rparr>)) (\<lambda>_.
       if req_irq ienv n \<noteq> 0 then ret (- EAGAIN)
       else bnd (upd (\<lambda>st. st\<lparr>irqs := insert n (irqs st)\<rparr>)) (\<lambda>_. ret 0)))"

definition free_irq :: "(unit, 'z hcsr_struct_scheme) cmd" where
  "free_irq = upd (\<lambda>st.
     if echo_isr_number st \<in> irqs st then st\<lparr>irqs := irqs st - {echo_isr_number st}\<rparr>
     else st\<lparr>bad_irq := bad_irq st @ [echo_isr_number st]\<rparr>)"

definition on_gpio :: "(gpio \<Rightarrow> 'a \<times> gpio) \<Rightarrow> ('a, 'z hcsr_struct_scheme) cmd" where
  "on_gpio f st = (let (r, g) = f (gpios st) in Ret r (st\<lparr>gpios := g\<rparr>))"

definition free_gpio :: "(unit, 'z hcsr_struct_scheme) cmd" where
  "free_gpio = upd (\<lambda>st. st\<lparr>gpios := freeEcho (echo_pin st) (freeTrig (trigger_pin st) (gpios st))\<rparr>)"

definition setpins_error :: "int \<Rightarrow> (int, 'z hcsr_struct_scheme) cmd" where
  "setpins_error r =
     bnd (upd (\<lambda>st. st\<lparr>trigger_pin := - 1, echo_pin := - 1\<rparr>)) (\<lambda>_.
     bnd (spin_unlock Irq_done_lock) (\<lambda>_.
     ret r))"

text \<open>
  \<open>failed\<close> is the number of bytes \<open>copy_from_user\<close> could not read; on a failure the
  error path writes through a pointer that has not been set yet.
\<close>

definition ioctl_SETPINs ::
  "gpio_env \<Rightarrow> irq_env \<Rightarrow> nat \<Rightarrow> int \<times> int \<Rightarrow> (int, 'z hcsr_struct_scheme) cmd" where
  "ioctl_SETPINs genv ienv failed pins =
     (if 0 \<noteq> failed then crash NullDeref
      else
        bnd (spin_lock Irq_done_lock) (\<lambda>_.
        bnd (look irq_done) (\<lambda>d.
        bnd (if d then free_irq else ret ()) (\<lambda>_.
        bnd free_gpio (\<lambda>_.
        bnd (upd (\<lambda>st. st\<lparr>trigger_pin := fst pins, echo_pin := snd pins\<rparr>)) (\<lambda>_.
        bnd (on_gpio (setTrig genv (fst pins))) (\<lambda>r.
        if r \<noteq> 0 then setpins_error r
        else
          bnd (on_gpio (setEcho genv (snd pins))) (\<lambda>r.
          if r \<noteq> 0 then setpins_error r
          else
            bnd (set_ISR ienv) (\<lambda>r.
            if r \<noteq> 0 then setpins_error r
            else
              bnd (upd (\<lambda>st. st\<lparr>irq_done := True\<rparr>)) (\<lambda>_.
              bnd (spin_unlock Irq_done_lock) (\<lambda>_.
              ret 0)))))))))))"

section \<open>Setting the mode\<close>

text \<open>\<open>kthread_stop\<close> ends the thread; the pointer is reset by its callers.\<close>

definition ioctl_SETMODE :: "nat \<Rightarrow> s32 \<times> u32 \<Rightarrow> (int, 'z hcsr_struct_scheme) cmd" where
  "ioctl_SETMODE failed wm =
     (if 0 \<noteq> failed then ret (- EAGAIN)
      else if fst wm \<noteq> ONE_SHOT \<and> fst wm \<noteq> PERIODIC then ret (- EINVAL)
      else
        bnd (spin_lock Kconfig_lock) (\<lambda>_.
        bnd (upd (\<lambda>st. st\<lparr>mode := fst wm, freq := snd wm\<rparr>)) (\<lambda>_.
        bnd (spin_lock Kthread_lock) (\<lambda>_.
        bnd (look (\<lambda>st. (mode st, kthread st))) (\<lambda>(m, t).
        bnd (if m \<noteq> ONE_SHOT \<and> t \<noteq> None then kthread_run
             else if m = ONE_SHOT \<and> t \<noteq> None then upd (\<lambda>st. st\<lparr>kthread := None\<rparr>)
             else ret ()) (\<lambda>_.
        bnd (spin_unlock Kthread_lock) (\<lambda>_.
        bnd (spin_unlock Kconfig_lock) (\<lambda>_.
        ret 0))))))))"

definition hc_sr04_ioctl ::
  "gpio_env \<Rightarrow> irq_env \<Rightarrow> u32 \<Rightarrow> nat \<Rightarrow> int \<times> int \<Rightarrow> s32 \<times> u32 \<Rightarrow> (int, 'z hcsr_struct_scheme) cmd" where
  "hc_sr04_ioctl genv ienv arg1 failed pins wm =
     (if arg1 = SETPINS then ioctl_SETPINs genv ienv failed pins
      else if arg1 = SETMODE then ioctl_SETMODE failed wm
      else ret (- EINVAL))"

section \<open>Reading\<close>

text \<open>
  What can end a measurement while a thread spins on the flag or sleeps on the empty
  buffer: an echo, or another thread giving up.
\<close>

datatype ext = Echo u64 | Gave_up

definition ext_step :: "ext \<Rightarrow> (unit, 'z hcsr_struct_scheme) cmd" where
  "ext_step e =
     (case e of
        Echo now \<Rightarrow> echo_recv_isr now
      | Gave_up \<Rightarrow>
          bnd (spin_lock Ongoing_lock) (\<lambda>_.
          bnd (upd (\<lambda>st. st\<lparr>ongoing := False\<rparr>)) (\<lambda>_.
          spin_unlock Ongoing_lock)))"

text \<open>Whether the loop was left before the events ran out.\<close>

fun spin_ongoing :: "ext list \<Rightarrow> (bool, 'z hcsr_struct_scheme) cmd" where
  "spin_ongoing [] = look (\<lambda>st. \<not> ongoing st)"
| "spin_ongoing (e # es) =
     bnd (look ongoing) (\<lambda>on. if on then bnd (ext_step e) (\<lambda>_. spin_ongoing es) else ret True)"

fun recheck_buf :: "ext list \<Rightarrow> (bool, 'z hcsr_struct_scheme) cmd" where
  "recheck_buf es =
     bnd (spin_lock Cir_buf_lock) (\<lambda>_.
     bnd (look newest) (\<lambda>n.
     bnd (spin_unlock Cir_buf_lock) (\<lambda>_.
     if n = - 1
     then (case es of [] \<Rightarrow> ret False | e # es' \<Rightarrow> bnd (ext_step e) (\<lambda>_. recheck_buf es'))
     else ret True)))"

declare recheck_buf.simps [simp del]

text \<open>
  \<open>data[newest]\<close>. Index -1 is the word before the array, which in \<open>cir_buf\<close> is the field
  \<open>newest\<close> itself.
\<close>

definition sample :: "'z hcsr_struct_scheme \<Rightarrow> s32" where
  "sample st = (if newest st = - 1 then word_of_int (newest st) else cbuf st ! nat (newest st))"

datatype read_result = Done int | Blocked

definition copy_sample :: "nat \<Rightarrow> byte list \<Rightarrow> (byte list, 'z hcsr_struct_scheme) cmd" where
  "copy_sample failed um =
     bnd (spin_lock Cir_buf_lock) (\<lambda>_.
     bnd (look sample) (\<lambda>v.
     bnd (spin_unlock Cir_buf_lock) (\<lambda>_.
     ret (copy_to_user 0 (le32 v) failed um))))"

definition hc_sr04_read ::
  "(nat \<Rightarrow> u64 \<times> (nat \<Rightarrow> u64 option)) \<Rightarrow> ext list \<Rightarrow> nat \<Rightarrow> byte list
     \<Rightarrow> (read_result \<times> byte list, 'z hcsr_struct_scheme) cmd" where
  "hc_sr04_read atts es failed um =
     bnd (spin_lock Kconfig_lock) (\<lambda>_.
     bnd (look mode) (\<lambda>m.
     bnd (spin_unlock Kconfig_lock) (\<lambda>_.
     if m = ONE_SHOT
     then
       bnd (spin_lock Ongoing_lock) (\<lambda>_.
       bnd (look ongoing) (\<lambda>on.
       bnd (spin_unlock Ongoing_lock) (\<lambda>_.
       bnd (if \<not> on then bnd (send atts 5) (\<lambda>_. ret ()) else ret ()) (\<lambda>_.
       bnd (spin_ongoing es) (\<lambda>fin.
       if \<not> fin then ret (Blocked, um)
       else
         bnd (copy_sample failed um) (\<lambda>um'.
         ret (Done (if failed \<noteq> 0 then - EAGAIN else 0), um')))))))
     else
       bnd (spin_lock Cir_buf_lock) (\<lambda>_.
       bnd (look newest) (\<lambda>n.
       bnd (spin_unlock Cir_buf_lock) (\<lambda>_.
       if n \<noteq> - 1
       then bnd (copy_sample failed um) (\<lambda>um'. ret (Done 0, um'))
       else
         bnd (recheck_buf es) (\<lambda>fin.
         if \<not> fin then ret (Blocked, um)
         else
           bnd (copy_sample failed um) (\<lambda>um'.
           ret (Done (if failed \<noteq> 0 then - EAGAIN else 0), um')))))))))"

section \<open>Writing\<close>

text \<open>The result of the copy from user space is not looked at.\<close>

definition hc_sr04_write ::
  "(nat \<Rightarrow> u64 \<times> (nat \<Rightarrow> u64 option)) \<Rightarrow> nat \<Rightarrow> byte list \<Rightarrow> (int, 'z hcsr_struct_scheme) cmd" where
  "hc_sr04_write atts failed buf =
     (let act = of_le32 (copy_from_user 4 failed buf) in
      bnd (spin_lock Kconfig_lock) (\<lambda>_.
      bnd (look mode) (\<lambda>m.
      bnd (spin_unlock Kconfig_lock) (\<lambda>_.
      if m = ONE_SHOT
      then
        bnd (if act \<noteq> 0
             then
               bnd (spin_lock Cir_buf_lock) (\<lambda>_.
               bnd (upd (\<lambda>st. st\<lparr>cbuf := replicate NUM_DATA 0, newest := - 1\<rparr>)) (\<lambda>_.
               spin_unlock Cir_buf_lock))
             else ret ()) (\<lambda>_.
        bnd (spin_lock Ongoing_lock) (\<lambda>_.
        bnd (look ongoing) (\<lambda>on.
        bnd (spin_unlock Ongoing_lock) (\<lambda>_.
        bnd (if \<not> on then bnd (send atts 5) (\<lambda>_. ret ()) else ret ()) (\<lambda>_.
        ret 0)))))
      else
        bnd (spin_lock Kthread_lock) (\<lambda>_.
        bnd (look kthread) (\<lambda>t.
        bnd (if act = 0
             then (if t = None then ret ()
                   else
                     bnd (upd (\<lambda>st. st\<lparr>kthread := None\<rparr>)) (\<lambda>_.
                     bnd (spin_lock Ongoing_lock) (\<lambda>_.
                     bnd (upd (\<lambda>st. st\<lparr>ongoing := False\<rparr>)) (\<lambda>_.
                     spin_unlock Ongoing_lock))))
             else (if t \<noteq> None then ret () else kthread_run)) (\<lambda>_.
        bnd (spin_unlock Kthread_lock) (\<lambda>_.
        ret 0))))))))"

section \<open>The module\<close>

text \<open>
  The two devices share the board's GPIOs: a device's own GPIO field is set from \<open>board\<close>
  before it is used. \<open>hcsr_list\<close> pairs the minor numbers with the devices (true for the
  first one).
\<close>

record hc_module =
  hcA :: hcsr_struct
  hcB :: hcsr_struct
  hcsr_list :: "(int \<times> bool) list"
  board :: gpio

definition zero_hcsr :: hcsr_struct where
  "zero_hcsr = \<lparr>held = {}, irq_done = False, echo_isr_number = 0, kstart = 0, kthread = None,
     trigger_pin = 0, echo_pin = 0, mode = 0, freq = 0, newest = 0, cbuf = replicate NUM_DATA 0,
     ongoing = False, gpios = \<lparr>requested = {}, dirs = (\<lambda>_. None), bad_free = []\<rparr>, irqs = {},
     bad_irq = [], edges = []\<rparr>"

definition init_hcsr_struct :: "hcsr_struct \<Rightarrow> hcsr_struct" where
  "init_hcsr_struct h = h\<lparr>kthread := None, irq_done := False, echo_isr_number := - 1, mode := 0,
     newest := - 1, held := {}\<rparr>"

definition hc_sr04_init :: "int \<Rightarrow> int \<Rightarrow> int \<Rightarrow> int \<Rightarrow> (int, hc_module) cmd" where
  "hc_sr04_init rA rB minorA minorB m =
     (if rA \<noteq> 0 \<or> rB \<noteq> 0 then Ret 0 m
      else Ret 0 (m\<lparr>hcA := init_hcsr_struct (hcA m), hcB := init_hcsr_struct (hcB m),
        hcsr_list := (minorB, False) # (minorA, True) # hcsr_list m\<rparr>))"

definition get_curr_hcsr :: "int \<Rightarrow> hc_module \<Rightarrow> bool option" where
  "get_curr_hcsr minor m = map_option snd (find (\<lambda>c. fst c = minor) (hcsr_list m))"

text \<open>The device is looked up by minor number and its name printed, found or not.\<close>

definition hc_sr04_open :: "int \<Rightarrow> (int \<times> bool, hc_module) cmd" where
  "hc_sr04_open minor m =
     (case get_curr_hcsr minor m of None \<Rightarrow> Oops NullDeref m | Some d \<Rightarrow> Ret (0, d) m)"

definition hc_sr04_release :: "(int, hc_module) cmd" where
  "hc_sr04_release = ret 0"

definition exit_dev :: "'z hcsr_struct_scheme \<Rightarrow> 'z hcsr_struct_scheme" where
  "exit_dev h = (if irq_done h then state_of (bnd free_irq (\<lambda>_. free_gpio) h) else h)"

definition hc_sr04_exit :: "hc_module \<Rightarrow> hc_module" where
  "hc_sr04_exit m =
     (let a = exit_dev ((hcA m)\<lparr>gpios := board m\<rparr>);
          b = exit_dev ((hcB m)\<lparr>gpios := gpios a\<rparr>)
      in m\<lparr>hcA := a, hcB := b, board := gpios b\<rparr>)"

end
