(* ===== verification/HCSR_Proofs.thy ===== *)
theory HCSR_Proofs
  imports HCSR_Driver
begin

text \<open>
  What the HC-SR04 driver guarantees: the ring of samples, the outcome of a measurement,
  what a reader gets, which GPIOs and interrupt lines a configured device holds, the life
  of the sampling thread, and the errors that leave a device half configured.
\<close>

section \<open>The ring of samples\<close>

definition ring_ok :: "'z hcsr_struct_scheme \<Rightarrow> bool" where
  "ring_ok st \<longleftrightarrow> length (cbuf st) = NUM_DATA \<and> - 1 \<le> newest st \<and> newest st < int NUM_DATA"

definition next_slot :: "'z hcsr_struct_scheme \<Rightarrow> nat" where
  "next_slot st = nat ((newest st + 1) mod int NUM_DATA)"

definition push_sample :: "s32 \<Rightarrow> 'z hcsr_struct_scheme \<Rightarrow> 'z hcsr_struct_scheme" where
  "push_sample d st = st\<lparr>newest := (newest st + 1) mod int NUM_DATA, cbuf := (cbuf st)[next_slot st := d]\<rparr>"

lemma next_slot_push:
  assumes "ring_ok st"
  shows "next_slot (push_sample d st) = Suc (next_slot st) mod NUM_DATA"
proof -
  have "newest st \<in> {- 1, 0, 1, 2, 3, 4}" using assms by (auto simp: ring_ok_def)
  then show ?thesis by (elim insertE) (simp_all add: next_slot_def push_sample_def)
qed

interpretation cirb: ring_log "\<lambda>st. length (cbuf st)" "\<lambda>st i. cbuf st ! i" next_slot push_sample ring_ok
proof unfold_locales
  fix s x
  assume s: "ring_ok s"
  show "ring_ok (push_sample x s)" using s by (auto simp: ring_ok_def push_sample_def)
  show "next_slot s < length (cbuf s)" using s by (auto simp: ring_ok_def next_slot_def nat_less_iff)
  show "next_slot (push_sample x s) = Suc (next_slot s) mod length (cbuf s)"
    using s next_slot_push [OF s] by (simp add: ring_ok_def)
  show "length (cbuf (push_sample x s)) = length (cbuf s)" by (simp add: push_sample_def)
  fix i
  assume "i < length (cbuf s)"
  then show "cbuf (push_sample x s) ! i = (if i = next_slot s then x else cbuf s ! i)"
    by (simp add: push_sample_def nth_list_update)
qed

lemma sample_push: "ring_ok st \<Longrightarrow> sample (push_sample d st) = d"
  by (auto simp: sample_def push_sample_def ring_ok_def next_slot_def nat_less_iff)

section \<open>Measuring\<close>

definition recorded :: "u64 \<Rightarrow> 'z hcsr_struct_scheme \<Rightarrow> 'z hcsr_struct_scheme" where
  "recorded now st = (push_sample (distance_of (kstart st) now) st)\<lparr>ongoing := False\<rparr>"

definition pulse :: "u64 \<Rightarrow> 'z hcsr_struct_scheme \<Rightarrow> 'z hcsr_struct_scheme" where
  "pulse start st = st\<lparr>edges := edges st @ [(trigger_pin st, 1), (trigger_pin st, 0)], kstart := start\<rparr>"

definition first_echo :: "(nat \<Rightarrow> u64 option) \<Rightarrow> nat option" where
  "first_echo ev = find (\<lambda>k. ev k \<noteq> None) [1..<50001]"

lemma held_same_hc: "held st = h \<Longrightarrow> st\<lparr>held := h\<rparr> = st" for st :: "'z hcsr_struct_scheme"
  by (cases st) simp

lemma ongoing_same: "\<not> ongoing st \<Longrightarrow> st\<lparr>ongoing := False\<rparr> = st" for st :: "'z hcsr_struct_scheme"
  by (cases st) simp

lemma isr_run:
  assumes "held st = {}"
  shows "echo_recv_isr now st = Ret () (if ongoing st then recorded now st else st)"
  using assms
  by (auto simp: echo_recv_isr_def run_simps recorded_def push_sample_def next_slot_def
      intro!: hcsr_struct.equality)

lemma recorded_simps [simp]:
  "held (recorded now st) = held st" "\<not> ongoing (recorded now st)" "mode (recorded now st) = mode st"
  "freq (recorded now st) = freq st"
  by (simp_all add: recorded_def push_sample_def)

lemma pulse_simps [simp]:
  "held (pulse t st) = held st" "ongoing (pulse t st) = ongoing st" "mode (pulse t st) = mode st"
  "freq (pulse t st) = freq st" "newest (pulse t st) = newest st" "cbuf (pulse t st) = cbuf st"
  "kstart (pulse t st) = t"
  by (simp_all add: pulse_def)

lemma poll_run:
  assumes "held st = {}" and "ongoing st" and "c \<le> 50000"
  shows "poll ev False c st =
    (case find (\<lambda>k. ev k \<noteq> None) [Suc c..<50001] of
       None \<Rightarrow> Ret (- EAGAIN) (st\<lparr>ongoing := False\<rparr>)
     | Some k \<Rightarrow> Ret 0 (recorded (the (ev k)) st))"
  using assms
proof (induction "50000 - c" arbitrary: c)
  case 0
  then show ?case
    by (subst poll.simps) (auto simp: run_simps intro!: hcsr_struct.equality)
next
  case (Suc n)
  then have c: "c < 50000" "n = 50000 - Suc c" by auto
  have u: "[Suc c..<50001] = Suc c # [Suc (Suc c)..<50001]" using c by (simp add: upt_conv_Cons)
  show ?case
  proof (cases "ev (Suc c)")
    case None
    have "poll ev False c st = poll ev False (Suc c) st"
      using Suc.prems c None by (subst poll.simps) (simp add: run_simps)
    also have "\<dots> = (case find (\<lambda>k. ev k \<noteq> None) [Suc (Suc c)..<50001] of
       None \<Rightarrow> Ret (- EAGAIN) (st\<lparr>ongoing := False\<rparr>) | Some k \<Rightarrow> Ret 0 (recorded (the (ev k)) st))"
      using Suc.hyps(1) [OF c(2)] Suc.prems c by simp
    finally show ?thesis unfolding u by (simp add: None)
  next
    case (Some now)
    have "poll ev False c st = poll ev False (Suc c) (recorded now st)"
      using Suc.prems c Some isr_run [of st now] by (subst poll.simps) (simp add: run_simps)
    also have "\<dots> = Ret 0 (recorded now st)" by (subst poll.simps) (simp add: run_simps)
    finally show ?thesis unfolding u by (simp add: Some)
  qed
qed

lemma do_send_run:
  assumes "held st = {}"
  shows "do_send (start, ev) st =
    (if ongoing st
     then (case first_echo ev of
         None \<Rightarrow> Ret (- EAGAIN) ((pulse start st)\<lparr>ongoing := False\<rparr>)
       | Some k \<Rightarrow> Ret 0 (recorded (the (ev k)) (pulse start st)))
     else Ret 0 (pulse start st))"
proof -
  let ?p = "pulse start st"
  have p: "held ?p = {}" using assms by simp
  have d: "do_send (start, ev) st = poll ev True 0 (?p\<lparr>held := {Ongoing_lock}\<rparr>)"
    using assms by (simp add: do_send_def run_simps pulse_def)
  show ?thesis
  proof (cases "ongoing st")
    case False
    then have "poll ev True 0 (?p\<lparr>held := {Ongoing_lock}\<rparr>) = Ret 0 ?p"
      using p by (subst poll.simps) (simp add: run_simps held_same_hc)
    with False show ?thesis by (simp add: d)
  next
    case True
    have "poll ev True 0 (?p\<lparr>held := {Ongoing_lock}\<rparr>) = poll ev False 0 ?p"
      using True p by (subst (1 2) poll.simps) (simp add: run_simps held_same_hc)
    then show ?thesis
      using True poll_run [of ?p 0 ev] p by (simp add: d first_echo_def)
  qed
qed

text \<open>
  A measurement: an echo in the first attempt is recorded; without one the first attempt
  clears the flag, so that the second returns 0 at once.
\<close>

lemma send_run:
  assumes "held st = {}" and "atts 0 = (s0, ev)" and "atts 1 = (s1, ev1)"
  shows "send atts (Suc r) st =
    (if ongoing st then Ret 0 st
     else case first_echo ev of
         Some k \<Rightarrow> Ret 0 (recorded (the (ev k)) (pulse s0 st))
       | None \<Rightarrow> Ret 0 (pulse s1 (pulse s0 st)))"
proof (cases "ongoing st")
  case True
  with assms(1) show ?thesis by (simp add: send_def run_simps held_same_hc)
next
  case False
  let ?on = "st\<lparr>ongoing := True\<rparr>"
  have e: "send atts (Suc r) st = send_loop atts 0 (Suc r) ?on"
    using assms(1) False by (simp add: send_def run_simps held_same_hc)
  have rec: "recorded now (pulse s0 ?on) = recorded now (pulse s0 st)" for now
    by (simp add: recorded_def pulse_def push_sample_def next_slot_def)
  have off: "(pulse s0 ?on)\<lparr>ongoing := False\<rparr> = pulse s0 st"
    using False by (simp add: pulse_def ongoing_same)
  have send2: "send_loop atts 1 r (pulse s0 st) = Ret 0 (pulse s1 (pulse s0 st))"
    using assms(1,3) False by (cases r) (simp_all add: do_send_run bnd_def ret_def)
  show ?thesis
    using False assms(1,2) send2
    by (auto simp: e bnd_def ret_def do_send_run off rec split: option.splits)
qed

section \<open>Reading\<close>

lemma sample_held [simp]:
  "sample (st\<lparr>held := h\<rparr>) = sample st" "sample (st\<lparr>ongoing := b\<rparr>) = sample st"
  by (simp_all add: sample_def)

lemma copy_sample_run:
  "held st = {} \<Longrightarrow> copy_sample failed um st = Ret (copy_to_user 0 (le32 (sample st)) failed um) st"
  by (simp add: copy_sample_def run_simps held_same_hc)

lemma spin_ongoing_done: "\<not> ongoing st \<Longrightarrow> spin_ongoing es st = Ret True st"
  by (cases es) (simp_all add: run_simps)

lemma read_one_shot_run:
  assumes "held st = {}" and "mode st = ONE_SHOT" and "\<not> ongoing st"
    and "send atts 5 st = Ret v st'" and "held st' = {}" and "\<not> ongoing st'"
  shows "hc_sr04_read atts es failed um st =
    Ret (Done (if failed \<noteq> 0 then - EAGAIN else 0), copy_to_user 0 (le32 (sample st')) failed um) st'"
  using assms
  by (simp add: hc_sr04_read_def run_simps held_same_hc copy_sample_run spin_ongoing_done)

lemma read_periodic_run:
  assumes "held st = {}" and "mode st \<noteq> ONE_SHOT" and "newest st \<noteq> - 1"
  shows "hc_sr04_read atts es failed um st =
    Ret (Done 0, copy_to_user 0 (le32 (sample st)) failed um) st"
  using assms by (simp add: hc_sr04_read_def run_simps held_same_hc copy_sample_run)

section \<open>The sampling thread\<close>

text \<open>The distance a round measures, when its first attempt gets an echo.\<close>

definition round_distance :: "(nat \<Rightarrow> u64 \<times> (nat \<Rightarrow> u64 option)) \<Rightarrow> s32 option" where
  "round_distance atts =
     (let (start, ev) = atts 0
      in map_option (\<lambda>k. distance_of start (the (ev k))) (first_echo ev))"

definition same_sampling :: "'z hcsr_struct_scheme \<Rightarrow> 'z hcsr_struct_scheme \<Rightarrow> bool" where
  "same_sampling st st' \<longleftrightarrow> cbuf st' = cbuf st \<and> newest st' = newest st"

lemma round_run:
  assumes "held st = {}" and "\<not> ongoing st" and "round_distance a = Some d"
  shows "\<exists>st'. send a 3 st = Ret 0 st' \<and> held st' = {} \<and> \<not> ongoing st' \<and> mode st' = mode st
    \<and> same_sampling (push_sample d st) st'"
proof -
  obtain s0 ev s1 ev1 where a: "a 0 = (s0, ev)" "a 1 = (s1, ev1)" by (cases "a 0"; cases "a 1") auto
  with assms(3) obtain k where k: "first_echo ev = Some k" "d = distance_of s0 (the (ev k))"
    by (auto simp: round_distance_def)
  have "send a 3 st = Ret 0 (recorded (the (ev k)) (pulse s0 st))"
    using send_run [OF assms(1) a, of 2] assms(2) k by (simp add: numeral_3_eq_3 numeral_2_eq_2)
  moreover have "same_sampling (push_sample d st) (recorded (the (ev k)) (pulse s0 st))"
    by (simp add: same_sampling_def recorded_def pulse_def push_sample_def next_slot_def k)
  ultimately show ?thesis using assms(1) by auto
qed

lemma same_sampling_push:
  "same_sampling st st' \<Longrightarrow> same_sampling (push_sample d st) (push_sample d st')"
  by (simp add: same_sampling_def push_sample_def next_slot_def)

lemma same_sampling_fold:
  "same_sampling st st' \<Longrightarrow> same_sampling (fold push_sample ds st) (fold push_sample ds st')"
  by (induction ds arbitrary: st st') (auto intro: same_sampling_push)

lemma same_sampling_trans: "same_sampling a b \<Longrightarrow> same_sampling b c \<Longrightarrow> same_sampling a c"
  by (simp add: same_sampling_def)

lemma rounds_run:
  "held st = {} \<Longrightarrow> \<not> ongoing st \<Longrightarrow> map round_distance rounds = map Some ds \<Longrightarrow>
   \<exists>st'. thread_rounds rounds st = Ret 0 st' \<and> held st' = {} \<and> \<not> ongoing st' \<and> mode st' = mode st
     \<and> same_sampling (fold push_sample ds st) st'"
proof (induction rounds arbitrary: ds st)
  case Nil
  then show ?case by (simp add: ret_def same_sampling_def)
next
  case (Cons a rounds)
  then obtain d ds' where ds: "ds = d # ds'" "round_distance a = Some d"
    "map round_distance rounds = map Some ds'" by (cases ds) auto
  obtain u where u: "send a 3 st = Ret 0 u" "held u = {}" "\<not> ongoing u" "mode u = mode st"
    "same_sampling (push_sample d st) u"
    using round_run [OF Cons.prems(1,2) ds(2)] by blast
  obtain st' where st': "thread_rounds rounds u = Ret 0 st'" "held st' = {}" "\<not> ongoing st'"
    "mode st' = mode u" "same_sampling (fold push_sample ds' u) st'"
    using Cons.IH [OF u(2,3) ds(3)] by blast
  have "same_sampling (fold push_sample ds st) st'"
    using same_sampling_trans [OF same_sampling_fold [OF u(5)] st'(5)] ds(1) by simp
  with u st' show ?case by (simp add: bnd_def)
qed

section \<open>Which GPIOs and interrupt lines a device holds\<close>

definition dev_gpios :: "'z hcsr_struct_scheme \<Rightarrow> int set" where
  "dev_gpios st = set (pin_gpios True (trigger_pin st)) \<union> set (pin_gpios False (echo_pin st))"

text \<open>A device set up by a successful \<open>SETPINS\<close>.\<close>

definition configured :: "'z hcsr_struct_scheme \<Rightarrow> bool" where
  "configured st \<longleftrightarrow> held st = {} \<and> irq_done st \<and> trigger_pin st \<noteq> echo_pin st
     \<and> dev_gpios st \<subseteq> requested (gpios st) \<and> irqs st = {echo_isr_number st}"

lemma free_dev_gpios:
  assumes "trigger_pin st \<noteq> echo_pin st" and "dev_gpios st \<subseteq> requested (gpios st)"
  shows "requested (freeEcho (echo_pin st) (freeTrig (trigger_pin st) (gpios st)))
      = requested (gpios st) - dev_gpios st"
    and "bad_free (freeEcho (echo_pin st) (freeTrig (trigger_pin st) (gpios st))) = bad_free (gpios st)"
proof -
  let ?t = "pin_gpios True (trigger_pin st)" and ?e = "pin_gpios False (echo_pin st)"
  have t: "requested (freeTrig (trigger_pin st) (gpios st)) = requested (gpios st) - set ?t"
    "bad_free (freeTrig (trigger_pin st) (gpios st)) = bad_free (gpios st)"
    using free_held [OF pin_gpios_distinct, of True "trigger_pin st" "gpios st"] assms(2)
    by (auto simp: freeTrig_eq dev_gpios_def)
  have "set ?e \<subseteq> requested (freeTrig (trigger_pin st) (gpios st))"
    using assms(2) pin_gpios_disjoint [OF assms(1), of True False] by (auto simp: t dev_gpios_def)
  from free_held [OF pin_gpios_distinct this] t
  show "requested (freeEcho (echo_pin st) (freeTrig (trigger_pin st) (gpios st)))
      = requested (gpios st) - dev_gpios st"
    and "bad_free (freeEcho (echo_pin st) (freeTrig (trigger_pin st) (gpios st))) = bad_free (gpios st)"
    by (auto simp: freeEcho_eq dev_gpios_def)
qed

text \<open>The pins a device asks for can be had: every GPIO free, configurable, the line grantable.\<close>

definition grantable :: "gpio_env \<Rightarrow> irq_env \<Rightarrow> int \<times> int \<Rightarrow> int set \<Rightarrow> bool" where
  "grantable genv ienv pins taken \<longleftrightarrow> fst pins \<noteq> snd pins
     \<and> (\<forall>p \<in> set (pin_gpios True (fst pins)) \<union> set (pin_gpios False (snd pins)).
          p \<notin> taken \<and> \<not> busy genv p \<and> dir_ret genv p = 0)
     \<and> 0 \<le> to_irq ienv (snd pins) \<and> req_irq ienv (to_irq ienv (snd pins)) = 0"

lemma set_both:
  assumes "grantable genv ienv pins (requested g)"
  shows "\<exists>g1 g2. setTrig genv (fst pins) g = (0, g1) \<and> setEcho genv (snd pins) g1 = (0, g2)
    \<and> requested g2 = requested g \<union> set (pin_gpios True (fst pins)) \<union> set (pin_gpios False (snd pins))
    \<and> bad_free g2 = bad_free g"
proof -
  have "available genv (pin_gpios True (fst pins)) g"
    using assms pin_gpios_distinct by (auto simp: grantable_def available_def)
  then obtain g1 where g1: "setTrig genv (fst pins) g = (0, g1)"
    using set_available(1) by (metis prod.collapse)
  note a1 = setTrig_acquires [OF g1]
  have "fst pins \<noteq> snd pins" using assms by (simp add: grantable_def)
  then have "available genv (pin_gpios False (snd pins)) g1"
    using assms a1 pin_gpios_distinct [of False "snd pins"] pin_gpios_disjoint [of "fst pins" "snd pins" True False]
    by (auto simp: grantable_def available_def acquires_def)
  then obtain g2 where g2: "setEcho genv (snd pins) g1 = (0, g2)"
    using set_available(2) by (metis prod.collapse)
  with g1 a1 setEcho_acquires [OF g2] show ?thesis by (auto simp: acquires_def)
qed

text \<open>The state right before \<open>setTrig\<close>: the old configuration given back, the new pins stored.\<close>

definition unconfigured :: "int \<times> int \<Rightarrow> 'z hcsr_struct_scheme \<Rightarrow> 'z hcsr_struct_scheme" where
  "unconfigured pins st =
     (state_of (bnd (if irq_done st then free_irq else ret ()) (\<lambda>_. free_gpio) st))
       \<lparr>trigger_pin := fst pins, echo_pin := snd pins\<rparr>"

lemma unconfigured_sel:
  "gpios (unconfigured pins st) = freeEcho (echo_pin st) (freeTrig (trigger_pin st) (gpios st))"
  "irq_done (unconfigured pins st) = irq_done st"
  "held (unconfigured pins st) = held st"
  "trigger_pin (unconfigured pins st) = fst pins" "echo_pin (unconfigured pins st) = snd pins"
  "echo_isr_number (unconfigured pins st) = echo_isr_number st"
  "irqs (unconfigured pins st) = irqs st - (if irq_done st then {echo_isr_number st} else {})"
  "bad_irq (unconfigured pins st) =
     bad_irq st @ (if irq_done st \<and> echo_isr_number st \<notin> irqs st then [echo_isr_number st] else [])"
  by (simp_all add: unconfigured_def free_irq_def free_gpio_def run_simps)

text \<open>Moving the lock set to the end of a chain of updates.\<close>

lemma held_last:
  "st\<lparr>held := h, irqs := i\<rparr> = st\<lparr>irqs := i, held := h\<rparr>"
  "st\<lparr>held := h, bad_irq := b\<rparr> = st\<lparr>bad_irq := b, held := h\<rparr>"
  "st\<lparr>held := h, gpios := g\<rparr> = st\<lparr>gpios := g, held := h\<rparr>"
  "st\<lparr>held := h, trigger_pin := t\<rparr> = st\<lparr>trigger_pin := t, held := h\<rparr>"
  "st\<lparr>held := h, echo_pin := e\<rparr> = st\<lparr>echo_pin := e, held := h\<rparr>"
  "st\<lparr>held := h, echo_isr_number := n\<rparr> = st\<lparr>echo_isr_number := n, held := h\<rparr>"
  "st\<lparr>held := h, irq_done := d\<rparr> = st\<lparr>irq_done := d, held := h\<rparr>"
  for st :: "'z hcsr_struct_scheme"
  by simp_all

lemma setpins_run:
  assumes "held st = {}"
  shows "ioctl_SETPINs genv ienv 0 pins st =
    bnd (on_gpio (setTrig genv (fst pins))) (\<lambda>r.
      if r \<noteq> 0 then setpins_error r
      else bnd (on_gpio (setEcho genv (snd pins))) (\<lambda>r.
        if r \<noteq> 0 then setpins_error r
        else bnd (set_ISR ienv) (\<lambda>r.
          if r \<noteq> 0 then setpins_error r
          else bnd (upd (\<lambda>st. st\<lparr>irq_done := True\<rparr>)) (\<lambda>_.
               bnd (spin_unlock Irq_done_lock) (\<lambda>_. ret 0)))))
    ((unconfigured pins st)\<lparr>held := {Irq_done_lock}\<rparr>)"
  using assms
  by (simp add: ioctl_SETPINs_def run_simps free_irq_def free_gpio_def unconfigured_def held_last)

lemma setpins_ok:
  assumes h: "held st = {}" and gr: "grantable genv ienv pins (requested (gpios (unconfigured pins st)))"
    and irq: "irqs (unconfigured pins st) = {}"
  shows "\<exists>st'. ioctl_SETPINs genv ienv 0 pins st = Ret 0 st' \<and> configured st'
    \<and> trigger_pin st' = fst pins \<and> echo_pin st' = snd pins
    \<and> requested (gpios st') = requested (gpios (unconfigured pins st)) \<union> dev_gpios st'
    \<and> bad_free (gpios st') = bad_free (gpios (unconfigured pins st))
    \<and> irqs st' = {to_irq ienv (snd pins)} \<and> bad_irq st' = bad_irq (unconfigured pins st)"
proof -
  let ?u = "unconfigured pins st"
  obtain g1 g2 where g: "setTrig genv (fst pins) (gpios ?u) = (0, g1)" "setEcho genv (snd pins) g1 = (0, g2)"
    "requested g2 = requested (gpios ?u) \<union> set (pin_gpios True (fst pins)) \<union> set (pin_gpios False (snd pins))"
    "bad_free g2 = bad_free (gpios ?u)"
    using set_both [OF gr] by blast
  let ?st = "?u\<lparr>gpios := g2, echo_isr_number := to_irq ienv (snd pins),
    irqs := {to_irq ienv (snd pins)}, irq_done := True, held := {}\<rparr>"
  have "0 \<le> to_irq ienv (snd pins)" "req_irq ienv (to_irq ienv (snd pins)) = 0"
    using gr by (simp_all add: grantable_def)
  then have "ioctl_SETPINs genv ienv 0 pins st = Ret 0 ?st"
    using irq
    by (simp add: setpins_run [OF h] run_simps on_gpio_def g(1,2) set_ISR_def unconfigured_sel(5)
        held_last)
  then show ?thesis
    using g(3,4) gr
    by (intro exI [of _ ?st])
       (auto simp: configured_def dev_gpios_def unconfigured_sel grantable_def)
qed

lemma configured_unconfigured:
  assumes "configured st"
  shows "requested (gpios (unconfigured pins st)) = requested (gpios st) - dev_gpios st"
    and "bad_free (gpios (unconfigured pins st)) = bad_free (gpios st)"
    and "irqs (unconfigured pins st) = {}" and "bad_irq (unconfigured pins st) = bad_irq st"
  using assms free_dev_gpios [of st] by (auto simp: configured_def unconfigured_sel)

lemma exit_configured:
  assumes "configured st"
  shows "requested (gpios (exit_dev st)) = requested (gpios st) - dev_gpios st"
    and "bad_free (gpios (exit_dev st)) = bad_free (gpios st)"
    and "irqs (exit_dev st) = {}" and "bad_irq (exit_dev st) = bad_irq st"
  using assms free_dev_gpios [of st]
  by (auto simp: configured_def exit_dev_def free_irq_def free_gpio_def run_simps)

text \<open>A \<open>SETPINS\<close> whose first pin cannot be set up.\<close>

lemma setpins_trig_fails:
  assumes h: "held st = {}" and f: "setTrig genv (fst pins) (gpios (unconfigured pins st)) = (r, g1)" "r \<noteq> 0"
  shows "ioctl_SETPINs genv ienv 0 pins st =
    Ret r ((unconfigured pins st)\<lparr>gpios := g1, trigger_pin := - 1, echo_pin := - 1\<rparr>)"
  using f
  by (auto simp: setpins_run [OF h] run_simps on_gpio_def setpins_error_def unconfigured_sel h Let_def
      intro!: hcsr_struct.equality)

section \<open>Sample devices\<close>

definition easy_gpio :: gpio_env where
  "easy_gpio = \<lparr>busy = (\<lambda>_. False), dir_ret = (\<lambda>_. 0)\<rparr>"

definition easy_irq :: irq_env where
  "easy_irq = \<lparr>to_irq = (\<lambda>p. p + 40), req_irq = (\<lambda>_. 0)\<rparr>"

text \<open>The first device with its default pins, and a device that is only loaded.\<close>

definition dev_A :: hcsr_struct where
  "dev_A = (init_hcsr_struct zero_hcsr)\<lparr>trigger_pin := 6, echo_pin := 15, irq_done := True,
     echo_isr_number := 55, irqs := {55},
     gpios := \<lparr>requested = {6, 36, 15, 42, 43}, dirs = (\<lambda>_. None), bad_free = []\<rparr>\<rparr>"

lemma gpios_of_pins:
  "pin_gpios True 6 = [6, 36]" "pin_gpios False 15 = [15, 42, 43]"
  "pin_gpios True 10 = [10, 26, 74]" "pin_gpios False 1 = [1, 20, 21, 68]"
  "pin_gpios True 0 = [0, 18, 66]" "pin_gpios False 0 = [0, 18, 19, 66]"
  "pin_gpios t (- 1) = []"
  by (simp_all add: pin_gpios_def all_pins_def)

lemma dev_A_configured [simp]: "configured dev_A" "held dev_A = {}" "mode dev_A = 0"
  "\<not> ongoing dev_A" "newest dev_A = - 1" "length (cbuf dev_A) = 5"
  by (simp_all add: configured_def dev_A_def init_hcsr_struct_def zero_hcsr_def dev_gpios_def gpios_of_pins)

definition echo_at :: "nat \<Rightarrow> u64 \<Rightarrow> nat \<Rightarrow> u64 \<times> (nat \<Rightarrow> u64 option)" where
  "echo_at k now = (\<lambda>_. (1000, (\<lambda>i. if i = k then Some now else None)))"

definition no_echo :: "nat \<Rightarrow> u64 \<times> (nat \<Rightarrow> u64 option)" where
  "no_echo = (\<lambda>_. (1000, (\<lambda>_. None)))"

lemma echo_at_first: "first_echo (snd (echo_at 1 now 0)) = Some 1"
proof -
  have "[1..<50001] = 1 # [Suc 1..<50001]" by (rule upt_conv_Cons) simp
  then show ?thesis by (simp only: first_echo_def echo_at_def find.simps) simp
qed

lemma no_echo_first: "first_echo (snd (no_echo i)) = None"
  by (simp add: first_echo_def no_echo_def find_None_iff)

section \<open>Properties\<close>

text \<open>
  (C16) What \<open>send\<close> does, for any positive retry count and whatever the sensor does. While
  a measurement is going on it does nothing. Otherwise the trigger is pulsed; an echo
  within 50000 polls is recorded as one new sample and ends the measurement. If none
  comes, the flag is cleared when the first attempt gives up, so the second attempt pulses
  the trigger again and returns without waiting: no retry ever measures, and the result is
  0 in every case.
\<close>

theorem hcsr_send_outcome:
  assumes "held st = {}" and "0 < retry_cnt"
  shows "send atts retry_cnt st =
    (if ongoing st then Ret 0 st
     else case first_echo (snd (atts 0)) of
         Some k \<Rightarrow> Ret 0 (recorded (the (snd (atts 0) k)) (pulse (fst (atts 0)) st))
       | None \<Rightarrow> Ret 0 (pulse (fst (atts 1)) (pulse (fst (atts 0)) st)))"
proof -
  obtain r where "retry_cnt = Suc r" using assms(2) by (cases retry_cnt) auto
  then show ?thesis
    using send_run [OF assms(1), of atts "fst (atts 0)" "snd (atts 0)" "fst (atts 1)" "snd (atts 1)" r]
    by simp
qed

theorem hcsr_send_outcome_witness:
  "send no_echo 5 dev_A = Ret 0 (pulse 1000 (pulse 1000 dev_A))
   \<and> send (echo_at 1 581000) 5 dev_A = Ret 0 (recorded 581000 (pulse 1000 dev_A))"
  using hcsr_send_outcome [of dev_A 5 no_echo] hcsr_send_outcome [of dev_A 5 "echo_at 1 581000"]
    no_echo_first echo_at_first
  by (simp add: no_echo_def echo_at_def)

text \<open>
  (C17) The sampling thread fills the ring: after any number of rounds that all got an echo,
  the last five distances are in the ring, each in the slot of its number modulo five,
  no lock is held, and a read in periodic mode returns the last one without blocking.
\<close>

theorem hcsr_thread_fills_ring:
  assumes "held st = {}" and "\<not> ongoing st" and "ring_ok st" and "freq st \<noteq> 0" and "mode st \<noteq> 0"
    and "map round_distance rounds = map Some ds" and "ds \<noteq> []"
  shows "\<exists>st'. thread_function rounds st = Ret 0 st' \<and> held st' = {}
    \<and> (\<forall>j < min (length ds) 5. cbuf st' ! ((next_slot st + (length ds - Suc j)) mod 5) = rev ds ! j)
    \<and> hc_sr04_read atts es 0 um st' = Ret (Done 0, copy_to_user 0 (le32 (last ds)) 0 um) st'"
proof -
  obtain st' where st': "thread_rounds rounds st = Ret 0 st'" "held st' = {}" "mode st' = mode st"
    "same_sampling (fold push_sample ds st) st'"
    using rounds_run [OF assms(1,2,6)] by blast
  let ?f = "fold push_sample ds st"
  have len: "length (cbuf st) = 5" using assms(3) by (simp add: ring_ok_def)
  obtain ds' where ds: "ds = ds' @ [last ds]" using assms(7) by (metis append_butlast_last_id)
  have ok: "ring_ok (fold push_sample ds' st)" by (rule cirb.push_all_invar) (rule assms(3))
  have f: "?f = push_sample (last ds) (fold push_sample ds' st)" by (subst ds) simp
  have s: "sample st' = last ds" "newest st' \<noteq> - 1"
    using st'(4) sample_push [OF ok, of "last ds"] cirb.push_invar [OF ok, of "last ds"]
    by (auto simp: same_sampling_def f sample_def push_sample_def)
  have "cbuf st' ! ((next_slot st + (length ds - Suc j)) mod 5) = rev ds ! j" if "j < min (length ds) 5" for j
    using cirb.slot_push_all [OF assms(3), of j ds] that len st'(4) by (simp add: same_sampling_def)
  moreover have "hc_sr04_read atts es 0 um st' = Ret (Done 0, copy_to_user 0 (le32 (last ds)) 0 um) st'"
    using read_periodic_run [OF st'(2)] st'(3) assms(5) s by simp
  ultimately show ?thesis
    using st' assms(4) by (auto simp: thread_function_def run_simps)
qed

theorem hcsr_thread_fills_ring_witness:
  "\<exists>st'. thread_function [echo_at 1 581000, echo_at 1 1161000] (dev_A\<lparr>mode := 1, freq := 10\<rparr>) = Ret 0 st'
     \<and> hc_sr04_read no_echo [] 0 [0, 0, 0, 0] st' = Ret (Done 0, copy_to_user 0 (le32 200) 0 [0, 0, 0, 0]) st'"
proof -
  let ?d = "dev_A\<lparr>mode := 1, freq := 10\<rparr>"
  have "map round_distance [echo_at 1 581000, echo_at 1 1161000] = map Some [100, 200]"
    using echo_at_first by (simp add: round_distance_def echo_at_def distance_of_def)
  moreover have "ring_ok ?d" by (simp add: ring_ok_def)
  ultimately show ?thesis
    using hcsr_thread_fills_ring [of ?d "[echo_at 1 581000, echo_at 1 1161000]" "[100, 200]" no_echo "[]"
        "[0, 0, 0, 0]"] by auto
qed

text \<open>
  A one-shot read when no other measurement is going on: with an echo it returns the
  distance of that echo. Without one it does not block and does not report an error: it
  returns 0 and delivers the newest old sample, or \<open>0xFFFFFFFF\<close> when nothing was ever
  measured (the index -1 reads the field in front of the ring).
\<close>

lemma hcsr_one_shot_read:
  assumes "held st = {}" and "mode st = 0" and "\<not> ongoing st" and "ring_ok st"
  shows "\<exists>st'. hc_sr04_read atts es 0 um st = Ret (Done 0, copy_to_user 0
      (le32 (case round_distance atts of
           Some d \<Rightarrow> d
         | None \<Rightarrow> if newest st = - 1 then 0xFFFFFFFF else cbuf st ! nat (newest st))) 0 um) st'
    \<and> held st' = {} \<and> \<not> ongoing st'"
proof -
  let ?s0 = "fst (atts 0)" and ?ev = "snd (atts 0)" and ?s1 = "fst (atts 1)"
  have send: "send atts 5 st = (case first_echo ?ev of
      Some k \<Rightarrow> Ret 0 (recorded (the (?ev k)) (pulse ?s0 st)) | None \<Rightarrow> Ret 0 (pulse ?s1 (pulse ?s0 st)))"
    using send_run [OF assms(1), of atts ?s0 ?ev ?s1 "snd (atts 1)" 4] assms(3) by simp
  show ?thesis
  proof (cases "first_echo ?ev")
    case None
    have m1: "(0xFFFFFFFF :: s32) = - 1" by simp
    have "sample (pulse ?s1 (pulse ?s0 st)) = (if newest st = - 1 then - 1 else cbuf st ! nat (newest st))"
      by (simp add: sample_def)
    moreover have "round_distance atts = None" using None by (simp add: round_distance_def case_prod_beta)
    ultimately show ?thesis
      using read_one_shot_run [OF assms(1) _ assms(3), of atts 0 "pulse ?s1 (pulse ?s0 st)" es 0 um]
        send None assms by (simp add: m1)
  next
    case (Some k)
    let ?r = "recorded (the (?ev k)) (pulse ?s0 st)"
    have "ring_ok (pulse ?s0 st)" using assms(4) by (simp add: ring_ok_def)
    from sample_push [OF this] have "sample ?r = distance_of ?s0 (the (?ev k))"
      by (simp add: recorded_def)
    moreover have "round_distance atts = Some (distance_of ?s0 (the (?ev k)))"
      using Some by (simp add: round_distance_def case_prod_beta)
    ultimately show ?thesis
      using read_one_shot_run [OF assms(1) _ assms(3), of atts 0 ?r es 0 um] send Some assms by simp
  qed
qed

lemma hcsr_one_shot_read_example:
  "\<exists>st'. hc_sr04_read no_echo [] 0 [0, 0, 0, 0] dev_A =
     Ret (Done 0, copy_to_user 0 (le32 0xFFFFFFFF) 0 [0, 0, 0, 0]) st'"
proof -
  have "round_distance no_echo = None"
    using no_echo_first [of 0] by (simp add: round_distance_def case_prod_beta)
  moreover have "ring_ok dev_A" by (simp add: ring_ok_def)
  ultimately show ?thesis
    using hcsr_one_shot_read [of dev_A no_echo "[]" "[0, 0, 0, 0]"] by auto
qed

text \<open>
  (C15) \<open>SETPINS\<close> replaces a configuration completely. On a configured device, when the new
  pins are different and every GPIO behind them and the interrupt line can be had (old
  pins of the device itself included), the call returns 0 and the device then holds
  exactly the GPIOs of the new pins and the new interrupt line; the GPIOs of other devices
  are untouched, and nothing was freed that was not held. Unloading gives all of it back.
\<close>

theorem hcsr_setpins_replaces:
  assumes "configured st"
    and "grantable genv ienv pins (requested (gpios st) - dev_gpios st)"
  shows "\<exists>st'. ioctl_SETPINs genv ienv 0 pins st = Ret 0 st' \<and> configured st'
    \<and> trigger_pin st' = fst pins \<and> echo_pin st' = snd pins \<and> irqs st' = {to_irq ienv (snd pins)}
    \<and> requested (gpios st') = requested (gpios st) - dev_gpios st \<union> dev_gpios st'
    \<and> bad_free (gpios st') = bad_free (gpios st) \<and> bad_irq st' = bad_irq st
    \<and> requested (gpios (exit_dev st')) = requested (gpios st) - dev_gpios st
    \<and> irqs (exit_dev st') = {} \<and> bad_free (gpios (exit_dev st')) = bad_free (gpios st)
    \<and> bad_irq (exit_dev st') = bad_irq st"
proof -
  note u = configured_unconfigured [OF assms(1), of pins]
  have h: "held st = {}" using assms(1) by (simp add: configured_def)
  have gr: "grantable genv ienv pins (requested (gpios (unconfigured pins st)))"
    using assms(2) by (simp add: u)
  obtain st' where st': "ioctl_SETPINs genv ienv 0 pins st = Ret 0 st'" "configured st'"
    "trigger_pin st' = fst pins" "echo_pin st' = snd pins" "irqs st' = {to_irq ienv (snd pins)}"
    "requested (gpios st') = requested (gpios st) - dev_gpios st \<union> dev_gpios st'"
    "bad_free (gpios st') = bad_free (gpios st)" "bad_irq st' = bad_irq st"
    using setpins_ok [OF h gr u(3)] unfolding u by blast
  have "(requested (gpios st) - dev_gpios st) \<inter> dev_gpios st' = {}"
    using assms(2) st'(3,4) by (auto simp: grantable_def dev_gpios_def)
  with exit_configured [OF st'(2)] st' show ?thesis by (intro exI [of _ st']) auto
qed

theorem hcsr_setpins_replaces_witness:
  "\<exists>st'. ioctl_SETPINs easy_gpio easy_irq 0 (10, 1) dev_A = Ret 0 st' \<and> irqs st' = {41}
     \<and> requested (gpios (exit_dev st')) = {}"
proof -
  have e: "requested (gpios dev_A) - dev_gpios dev_A = {}"
    by (simp add: dev_A_def dev_gpios_def gpios_of_pins)
  have g: "grantable easy_gpio easy_irq (10, 1) {}"
    by (simp add: grantable_def easy_gpio_def easy_irq_def)
  show ?thesis
    using hcsr_setpins_replaces [OF dev_A_configured(1), of easy_gpio easy_irq "(10, 1)", unfolded e, OF g]
    by (auto simp: easy_irq_def)
qed

text \<open>
  A \<open>SETPINS\<close> that fails leaves the device broken. On a configured device, if the new
  trigger pin cannot be set up, the call returns \<open>-EINVAL\<close>; the interrupt line has been
  given back but is still marked as requested, so the next \<open>SETPINS\<close> or unloading the
  module frees it a second time; and the pin numbers are overwritten by -1, so whatever
  GPIOs the failed attempt had obtained stay requested for good.
\<close>

lemma hcsr_setpins_failure:
  assumes "configured st"
    and "setTrig genv (fst pins) (gpios (unconfigured pins st)) = (r, g)" and "r \<noteq> 0"
  shows "\<exists>st'. ioctl_SETPINs genv ienv 0 pins st = Ret (- EINVAL) st' \<and> held st' = {}
    \<and> irq_done st' \<and> irqs st' = {} \<and> requested (gpios st') = requested g
    \<and> bad_irq (exit_dev st') = bad_irq st @ [echo_isr_number st]
    \<and> requested (gpios (exit_dev st')) = requested g
    \<and> bad_irq (unconfigured pins2 st') = bad_irq st @ [echo_isr_number st]"
proof -
  have h: "held st = {}" and d: "irq_done st" using assms(1) by (simp_all add: configured_def)
  have r: "r = - EINVAL" using set_results(1) [of genv "fst pins" "gpios (unconfigured pins st)"] assms(2,3) by auto
  let ?st = "(unconfigured pins st)\<lparr>gpios := g, trigger_pin := - 1, echo_pin := - 1\<rparr>"
  have "ioctl_SETPINs genv ienv 0 pins st = Ret (- EINVAL) ?st"
    using setpins_trig_fails [OF h assms(2,3)] r by simp
  moreover have "irqs ?st = {}" "bad_irq ?st = bad_irq st"
    using configured_unconfigured [OF assms(1)] by simp_all
  ultimately show ?thesis
    using h d
    by (intro exI [of _ ?st])
       (simp add: unconfigured_sel exit_dev_def free_irq_def free_gpio_def run_simps
         freeTrig_eq freeEcho_eq gpios_of_pins)
qed

lemma hcsr_setpins_failure_example:
  "\<exists>st'. ioctl_SETPINs (easy_gpio\<lparr>busy := (\<lambda>p. p = 26)\<rparr>) easy_irq 0 (10, 1) dev_A = Ret (- EINVAL) st'
     \<and> requested (gpios (exit_dev st')) = {10} \<and> bad_irq (exit_dev st') = [55]"
proof -
  let ?env = "easy_gpio\<lparr>busy := (\<lambda>p. p = 26)\<rparr>"
  let ?u = "gpios (unconfigured (10, 1) dev_A)"
  have u: "requested ?u = {}"
    using configured_unconfigured(1) [OF dev_A_configured(1), of "(10, 1)"]
    by (simp add: dev_A_def dev_gpios_def gpios_of_pins)
  have "setTrig ?env 10 ?u = (- EINVAL, ?u\<lparr>requested := {10}, dirs := (dirs ?u)(10 \<mapsto> Out 0)\<rparr>)"
    by (simp add: setTrig_def all_pins_def trig_entry_def gpio_request_def gpio_direction_output_def
        easy_gpio_def u Let_def)
  moreover have "bad_irq dev_A = []" "echo_isr_number dev_A = 55"
    by (simp_all add: dev_A_def init_hcsr_struct_def zero_hcsr_def)
  ultimately show ?thesis
    using hcsr_setpins_failure [of dev_A ?env "(10, 1)" "- EINVAL" _ easy_irq "(0, 0)"] by fastforce
qed

text \<open>
  The first \<open>SETPINS\<close> of a device frees pins it never had. A device that was just
  loaded has pin numbers 0, and the call first frees the GPIOs behind pin 0 (board pin
  IO5), both as a trigger and as an echo pin. Whoever held those GPIOs, the other device
  for example, loses them; if nobody did, seven frees of GPIOs that were not requested are
  made. Apart from that the call configures the device.
\<close>

lemma hcsr_first_setpins:
  assumes "st = (init_hcsr_struct zero_hcsr)\<lparr>gpios := g\<rparr>"
    and "grantable genv ienv pins (requested g - {0, 18, 19, 66})"
  shows "\<exists>st'. ioctl_SETPINs genv ienv 0 pins st = Ret 0 st' \<and> configured st'
    \<and> requested (gpios st') = requested g - {0, 18, 19, 66} \<union> dev_gpios st'
    \<and> (requested g \<inter> {0, 18, 19, 66} = {} \<longrightarrow>
         bad_free (gpios st') = bad_free g @ [0, 18, 66, 0, 18, 19, 66])"
proof -
  have st: "held st = {}" "\<not> irq_done st" "trigger_pin st = 0" "echo_pin st = 0" "irqs st = {}" "gpios st = g"
    by (simp_all add: assms(1) init_hcsr_struct_def zero_hcsr_def)
  have g: "gpios (unconfigured pins st) = fold gpio_free [0, 18, 66, 0, 18, 19, 66] g"
    by (simp add: unconfigured_sel st freeTrig_eq freeEcho_eq gpios_of_pins)
  have rq: "requested (gpios (unconfigured pins st)) = requested g - {0, 18, 19, 66}"
    unfolding g free_always by auto
  have bf: "bad_free (gpios (unconfigured pins st)) = bad_free g @ [0, 18, 66, 0, 18, 19, 66]"
    if "requested g \<inter> {0, 18, 19, 66} = {}"
    unfolding g using that by (intro conjunct2 [OF free_not_held]) auto
  have "irqs (unconfigured pins st) = {}" by (simp add: unconfigured_sel st)
  from setpins_ok [OF st(1) _ this, unfolded rq, OF assms(2)] bf show ?thesis by auto
qed

lemma hcsr_first_setpins_example:
  "\<exists>st'. ioctl_SETPINs easy_gpio easy_irq 0 (6, 15) (init_hcsr_struct zero_hcsr) = Ret 0 st' \<and> configured st'
     \<and> bad_free (gpios st') = [0, 18, 66, 0, 18, 19, 66]"
proof -
  let ?g = "\<lparr>requested = {}, dirs = (\<lambda>_. None), bad_free = []\<rparr> :: gpio"
  have "init_hcsr_struct zero_hcsr = (init_hcsr_struct zero_hcsr)\<lparr>gpios := ?g\<rparr>"
    by (simp add: init_hcsr_struct_def zero_hcsr_def)
  moreover have "grantable easy_gpio easy_irq (6, 15) (requested ?g - {0, 18, 19, 66})"
    by (simp add: grantable_def easy_gpio_def easy_irq_def)
  ultimately show ?thesis
    using hcsr_first_setpins [of "init_hcsr_struct zero_hcsr" ?g easy_gpio easy_irq "(6, 15)"] by auto
qed

text \<open>
  The life of the sampling thread. A valid \<open>SETMODE\<close> stores mode and frequency; a
  running thread is restarted with the new period in periodic mode and ended in one-shot
  mode, and no thread is started by it. In periodic mode a non-zero write starts a thread
  unless one runs, a zero write ends it and the measurement in progress. Frequency 0 is
  accepted, and the thread that is then started divides by zero.
\<close>

lemma hcsr_thread_lifecycle:
  assumes "held st = {}" and "act = of_le32 (copy_from_user 4 failed buf)"
  shows "(m = 0 \<or> m = 1 \<longrightarrow>
      ioctl_SETMODE 0 (m, f) st = Ret 0 (st\<lparr>mode := m, freq := f,
        kthread := (if kthread st = None \<or> m = 0 then None else Some f)\<rparr>))
    \<and> (m \<noteq> 0 \<and> m \<noteq> 1 \<longrightarrow> ioctl_SETMODE 0 (m, f) st = Ret (- EINVAL) st)
    \<and> (mode st = 1 \<and> act \<noteq> 0 \<longrightarrow>
      hc_sr04_write atts failed buf st = Ret 0 (if kthread st = None
        then st\<lparr>kthread := Some (freq st)\<rparr> else st))
    \<and> (mode st = 1 \<and> act = 0 \<longrightarrow>
      hc_sr04_write atts failed buf st = Ret 0 (if kthread st = None
        then st else st\<lparr>kthread := None, ongoing := False\<rparr>))
    \<and> (mode st = 1 \<and> act \<noteq> 0 \<and> freq st = 0 \<and> kthread st = None \<longrightarrow>
      (\<exists>st'. hc_sr04_write atts failed buf st = Ret 0 st' \<and> kthread st' = Some 0
        \<and> thread_function rounds st' = Oops DivideError st'))"
  using assms(1)
  by (auto simp: assms(2) ioctl_SETMODE_def hc_sr04_write_def run_simps kthread_run_def Let_def
      thread_function_def intro!: hcsr_struct.equality)

lemma hcsr_thread_lifecycle_example:
  "ioctl_SETMODE 0 (1, 0) dev_A = Ret 0 (dev_A\<lparr>mode := 1, freq := 0, kthread := None\<rparr>)
   \<and> (\<exists>st'. hc_sr04_write no_echo 0 [1, 0, 0, 0] (dev_A\<lparr>mode := 1, freq := 0\<rparr>) = Ret 0 st'
        \<and> thread_function [no_echo] st' = Oops DivideError st')
   \<and> hc_sr04_write no_echo 0 [1, 0, 0, 0] (dev_A\<lparr>mode := 1, freq := 10\<rparr>) =
       Ret 0 (dev_A\<lparr>mode := 1, freq := 10, kthread := Some 10\<rparr>)"
proof -
  have k: "kthread dev_A = None" by (simp add: dev_A_def init_hcsr_struct_def zero_hcsr_def)
  have a: "(1 :: u32) = of_le32 (copy_from_user 4 0 [1, 0, 0, 0])" by (simp add: of_le32_def)
  note t = hcsr_thread_lifecycle [OF _ a]
  show ?thesis
    using t [of dev_A 1 0 no_echo "[no_echo]"] t [of "dev_A\<lparr>mode := 1, freq := 0\<rparr>" 1 0 no_echo "[no_echo]"]
      t [of "dev_A\<lparr>mode := 1, freq := 10\<rparr>" 1 0 no_echo "[no_echo]"] k by auto
qed

text \<open>
  The distance recorded for an echo: the elapsed time in nanoseconds, divided by 5800,
  exactly as long as it is below \<open>2 ^ 32\<close> nanoseconds (about 4.3 seconds) and modulo that
  otherwise. The value always fits a C \<open>int\<close>: it is at most 740511.
\<close>

lemma hcsr_distance_exact:
  "unat (distance_of start now) = unat (now - start) mod 2 ^ 32 div 5800
   \<and> unat (distance_of start now) \<le> 740511
   \<and> (unat (now - start) < 2 ^ 32 \<longrightarrow> unat (distance_of start now) = unat (now - start) div 5800)"
proof -
  have e: "unat (distance_of start now) = unat (now - start) mod 2 ^ 32 div 5800"
    by (simp add: distance_of_def unat_div unsigned_ucast_eq take_bit_eq_mod)
  moreover have "unat (now - start) mod 2 ^ 32 div 5800 \<le> (2 ^ 32 - 1) div 5800"
    by (rule div_le_mono) simp
  ultimately show ?thesis by simp
qed

lemma hcsr_distance_exact_example:
  "unat (distance_of 1000 581000) = 100"
proof -
  have "unat (581000 - 1000 :: u64) = 580000" by simp
  then show ?thesis using hcsr_distance_exact [of 1000 581000] by simp
qed

text \<open>
  Loading the module always reports success. When registering the second device
  fails, the first one exists but the list of devices is empty: opening it dereferences a
  null pointer. When both are registered each minor number opens its own device.
\<close>

lemma hcsr_init_and_open:
  assumes "minorA \<noteq> minorB" and "hcsr_list md = []"
  shows "\<exists>md'. hc_sr04_init rA rB minorA minorB md = Ret 0 md'
    \<and> (if rA = 0 \<and> rB = 0
        then hc_sr04_open minorA md' = Ret (0, True) md' \<and> hc_sr04_open minorB md' = Ret (0, False) md'
        else \<forall>minor. hc_sr04_open minor md' = Oops NullDeref md')"
  using assms by (simp add: hc_sr04_init_def hc_sr04_open_def get_curr_hcsr_def)

lemma hcsr_init_and_open_example:
  "\<exists>md'. hc_sr04_init 0 (- 16) 57 58 \<lparr>hcA = zero_hcsr, hcB = zero_hcsr, hcsr_list = [],
       board = \<lparr>requested = {}, dirs = (\<lambda>_. None), bad_free = []\<rparr>\<rparr> = Ret 0 md'
     \<and> hc_sr04_open 57 md' = Oops NullDeref md'"
  using hcsr_init_and_open [of 57 58 "\<lparr>hcA = zero_hcsr, hcB = zero_hcsr, hcsr_list = [],
       board = \<lparr>requested = {}, dirs = (\<lambda>_. None), bad_free = []\<rparr>\<rparr>" 0 "- 16"] by auto

end
