(* ===== verification/HCSR_Sysfs.thy ===== *)
theory HCSR_Sysfs
  imports HCSR_Proofs Sysfs_Text
begin

text \<open>
  The second HC-SR04 driver, \<open>03_Concurrent_HC-SR04_SYSFS_Platform_Drivers\<close>: the routines
  of \<open>hc_sr04_kernel.h\<close> that differ from their namesakes of the first driver (they carry the
  suffix 3 here; the interrupt handler, the polling loop, \<open>set_ISR\<close>, \<open>setEcho\<close>, the pin
  freeing and the waiting loops of a reader have the same text in both drivers and are
  used as they are), and the sysfs attributes of \<open>hc_sr04.h\<close>. A \<open>show\<close> function is given
  the page of the attribute and returns its result with the new page; a \<open>store\<close> function is
  given the text that was written and its length.
\<close>

section \<open>Setting up the trigger pin\<close>

text \<open>The loop body gives up with the error of the GPIO subsystem.\<close>

definition trig_entry3 :: "gpio_env \<Rightarrow> int \<Rightarrow> nat \<Rightarrow> int \<Rightarrow> int \<Rightarrow> gpio \<Rightarrow> int option \<times> gpio" where
  "trig_entry3 env pin m p v g =
     (if m = HC_GPIO_PULL then (None, g)
      else if p = - 1 then (None, g)
      else
        let (ret1, g1) = gpio_request env p g in
        if ret1 \<noteq> 0 then (Some ret1, g1)
        else if m = HC_GPIO_MUX0 \<or> m = HC_GPIO_MUX1
        then (None, snd (gpio_direction_output env p v g1))
        else if m = HC_GPIO_LEVEL
        then let (ret2, g2) = gpio_direction_output env p DIR_OUT g1 in
             if ret2 \<noteq> 0 then (Some ret2, gpio_free pin g2) else (None, g2)
        else if m = HC_GPIO_LINUX
        then let (ret2, g2) = gpio_direction_output env p 0 g1 in
             if ret2 \<noteq> 0 then (Some ret2, gpio_free pin g2) else (None, g2)
        else (None, g1))"

definition setTrig3 :: "gpio_env \<Rightarrow> int \<Rightarrow> gpio \<Rightarrow> int \<times> gpio" where
  "setTrig3 env pin g = rows_loop (trig_entry3 env pin) pin all_pins g"

section \<open>Sending a pulse\<close>

text \<open>The trigger pin is read under \<open>kconfig_lock\<close>.\<close>

definition do_send3 :: "u64 \<times> (nat \<Rightarrow> u64 option) \<Rightarrow> (int, 'z hcsr_struct_scheme) cmd" where
  "do_send3 att =
     (let (start, ev) = att in
      bnd (spin_lock Kconfig_lock) (\<lambda>_.
      bnd (look trigger_pin) (\<lambda>trig_pin.
      bnd (spin_unlock Kconfig_lock) (\<lambda>_.
      bnd (upd (\<lambda>st. st\<lparr>edges := edges st @ [(trig_pin, 1), (trig_pin, 0)]\<rparr>)) (\<lambda>_.
      bnd (upd (\<lambda>st. st\<lparr>kstart := start\<rparr>)) (\<lambda>_.
      bnd (spin_lock Ongoing_lock) (\<lambda>_.
      poll ev True 0)))))))"

fun send_loop3 :: "(nat \<Rightarrow> u64 \<times> (nat \<Rightarrow> u64 option)) \<Rightarrow> nat \<Rightarrow> nat \<Rightarrow> (int, 'z hcsr_struct_scheme) cmd" where
  "send_loop3 atts k 0 = do_send3 (atts k)"
| "send_loop3 atts k (Suc r) =
     bnd (do_send3 (atts k)) (\<lambda>res. if res \<noteq> 0 then send_loop3 atts (Suc k) r else ret res)"

definition send3 :: "(nat \<Rightarrow> u64 \<times> (nat \<Rightarrow> u64 option)) \<Rightarrow> nat \<Rightarrow> (int, 'z hcsr_struct_scheme) cmd" where
  "send3 atts retry_cnt =
     bnd (spin_lock Ongoing_lock) (\<lambda>_.
     bnd (look ongoing) (\<lambda>on.
     if on then bnd (spin_unlock Ongoing_lock) (\<lambda>_. ret 0)
     else
       bnd (upd (\<lambda>st. st\<lparr>ongoing := True\<rparr>)) (\<lambda>_.
       bnd (spin_unlock Ongoing_lock) (\<lambda>_.
       send_loop3 atts 0 retry_cnt))))"

fun thread_rounds3 :: "(nat \<Rightarrow> u64 \<times> (nat \<Rightarrow> u64 option)) list \<Rightarrow> (int, 'z hcsr_struct_scheme) cmd" where
  "thread_rounds3 [] = ret 0"
| "thread_rounds3 (a # rounds) = bnd (send3 a 3) (\<lambda>_. thread_rounds3 rounds)"

definition thread_function3 ::
  "(nat \<Rightarrow> u64 \<times> (nat \<Rightarrow> u64 option)) list \<Rightarrow> (int, 'z hcsr_struct_scheme) cmd" where
  "thread_function3 rounds =
     bnd (look freq) (\<lambda>f. if f = 0 then crash DivideError else thread_rounds3 rounds)"

text \<open>
  \<open>kthread_stop\<close> waits until the thread has ended. \<open>sending\<close> says that the thread is about
  to read the trigger pin in \<open>do_send\<close>, before it looks at the stop flag again: if the
  stopping thread holds \<open>kconfig_lock\<close>, both wait for ever.
\<close>

definition kthread_stop3 :: "bool \<Rightarrow> (unit, 'z hcsr_struct_scheme) cmd" where
  "kthread_stop3 sending =
     bnd (look held) (\<lambda>h. if sending \<and> Kconfig_lock \<in> h then crash SelfDeadlock else ret ())"

section \<open>The ioctls\<close>

definition ioctl_SETPINs3 ::
  "gpio_env \<Rightarrow> irq_env \<Rightarrow> nat \<Rightarrow> int \<times> int \<Rightarrow> (int, 'z hcsr_struct_scheme) cmd" where
  "ioctl_SETPINs3 genv ienv failed pins =
     (if 0 \<noteq> failed then crash NullDeref
      else
        bnd (spin_lock Irq_done_lock) (\<lambda>_.
        bnd (look irq_done) (\<lambda>d.
        bnd (if d then free_irq else ret ()) (\<lambda>_.
        bnd free_gpio (\<lambda>_.
        bnd (upd (\<lambda>st. st\<lparr>trigger_pin := fst pins, echo_pin := snd pins\<rparr>)) (\<lambda>_.
        bnd (on_gpio (setTrig3 genv (fst pins))) (\<lambda>r.
        if r \<noteq> 0 then setpins_error r
        else
          bnd (on_gpio (setEcho genv (snd pins))) (\<lambda>r.
          if r \<noteq> 0 then setpins_error r
          else
            bnd (set_ISR ienv) (\<lambda>r.
            if r \<noteq> 0 then setpins_error r
            else
              bnd (upd (\<lambda>st. st\<lparr>irq_done := True\<rparr>)) (\<lambda>_.
              bnd (spin_unlock Irq_done_lock) (\<lambda>_.
              ret 0)))))))))))"

definition ioctl_SETMODE3 :: "bool \<Rightarrow> nat \<Rightarrow> s32 \<times> u32 \<Rightarrow> (int, 'z hcsr_struct_scheme) cmd" where
  "ioctl_SETMODE3 sending failed wm =
     (if 0 \<noteq> failed then ret (- EAGAIN)
      else if fst wm \<noteq> ONE_SHOT \<and> fst wm \<noteq> PERIODIC then ret (- EINVAL)
      else
        bnd (spin_lock Kconfig_lock) (\<lambda>_.
        bnd (upd (\<lambda>st. st\<lparr>mode := fst wm, freq := snd wm\<rparr>)) (\<lambda>_.
        bnd (spin_lock Kthread_lock) (\<lambda>_.
        bnd (look (\<lambda>st. (mode st, kthread st))) (\<lambda>(m, t).
        bnd (if m \<noteq> ONE_SHOT \<and> t \<noteq> None then bnd (kthread_stop3 sending) (\<lambda>_. kthread_run)
             else if m = ONE_SHOT \<and> t \<noteq> None
             then bnd (kthread_stop3 sending) (\<lambda>_. upd (\<lambda>st. st\<lparr>kthread := None\<rparr>))
             else ret ()) (\<lambda>_.
        bnd (spin_unlock Kthread_lock) (\<lambda>_.
        bnd (spin_unlock Kconfig_lock) (\<lambda>_.
        ret 0))))))))"

definition hc_sr04_ioctl3 ::
  "gpio_env \<Rightarrow> irq_env \<Rightarrow> bool \<Rightarrow> u32 \<Rightarrow> nat \<Rightarrow> int \<times> int \<Rightarrow> s32 \<times> u32 \<Rightarrow> (int, 'z hcsr_struct_scheme) cmd" where
  "hc_sr04_ioctl3 genv ienv sending arg1 failed pins wm =
     (if arg1 = SETPINS then ioctl_SETPINs3 genv ienv failed pins
      else if arg1 = SETMODE then ioctl_SETMODE3 sending failed wm
      else ret (- EINVAL))"

section \<open>Reading and writing\<close>

definition hc_sr04_read3 ::
  "(nat \<Rightarrow> u64 \<times> (nat \<Rightarrow> u64 option)) \<Rightarrow> ext list \<Rightarrow> nat \<Rightarrow> byte list
     \<Rightarrow> (read_result \<times> byte list, 'z hcsr_struct_scheme) cmd" where
  "hc_sr04_read3 atts es failed um =
     bnd (spin_lock Kconfig_lock) (\<lambda>_.
     bnd (look mode) (\<lambda>m.
     bnd (spin_unlock Kconfig_lock) (\<lambda>_.
     if m = ONE_SHOT
     then
       bnd (spin_lock Ongoing_lock) (\<lambda>_.
       bnd (look ongoing) (\<lambda>on.
       bnd (spin_unlock Ongoing_lock) (\<lambda>_.
       bnd (if \<not> on then bnd (send3 atts 5) (\<lambda>_. ret ()) else ret ()) (\<lambda>_.
       bnd (spin_ongoing es) (\<lambda>fin.
       if \<not> fin then ret (Blocked, um)
       else
         bnd (copy_sample failed um) (\<lambda>um'.
         ret (Done (if failed \<noteq> 0 then - EAGAIN else 0), um')))))))
     else
       bnd (spin_lock Cir_buf_lock) (\<lambda>_.
       bnd (look newest) (\<lambda>n.
       bnd (spin_unlock Cir_buf_lock) (\<lambda>_.
       if n \<noteq> - 1
       then bnd (copy_sample failed um) (\<lambda>um'. ret (Done 0, um'))
       else
         bnd (recheck_buf es) (\<lambda>fin.
         if \<not> fin then ret (Blocked, um)
         else
           bnd (copy_sample failed um) (\<lambda>um'.
           ret (Done (if failed \<noteq> 0 then - EAGAIN else 0), um')))))))))"

definition hc_sr04_write3 ::
  "(nat \<Rightarrow> u64 \<times> (nat \<Rightarrow> u64 option)) \<Rightarrow> bool \<Rightarrow> nat \<Rightarrow> byte list \<Rightarrow> (int, 'z hcsr_struct_scheme) cmd" where
  "hc_sr04_write3 atts sending failed buf =
     (let act = of_le32 (copy_from_user 4 failed buf) in
      bnd (spin_lock Kconfig_lock) (\<lambda>_.
      bnd (look mode) (\<lambda>m.
      bnd (spin_unlock Kconfig_lock) (\<lambda>_.
      if m = ONE_SHOT
      then
        bnd (if act \<noteq> 0
             then
               bnd (spin_lock Cir_buf_lock) (\<lambda>_.
               bnd (upd (\<lambda>st. st\<lparr>cbuf := replicate NUM_DATA 0, newest := - 1\<rparr>)) (\<lambda>_.
               spin_unlock Cir_buf_lock))
             else ret ()) (\<lambda>_.
        bnd (spin_lock Ongoing_lock) (\<lambda>_.
        bnd (look ongoing) (\<lambda>on.
        bnd (spin_unlock Ongoing_lock) (\<lambda>_.
        bnd (if \<not> on then bnd (send3 atts 5) (\<lambda>_. ret ()) else ret ()) (\<lambda>_.
        ret 0)))))
      else
        bnd (spin_lock Kthread_lock) (\<lambda>_.
        bnd (look kthread) (\<lambda>t.
        bnd (if act = 0
             then (if t = None then ret ()
                   else
                     bnd (kthread_stop3 sending) (\<lambda>_.
                     bnd (upd (\<lambda>st. st\<lparr>kthread := None\<rparr>)) (\<lambda>_.
                     bnd (spin_lock Ongoing_lock) (\<lambda>_.
                     bnd (upd (\<lambda>st. st\<lparr>ongoing := False\<rparr>)) (\<lambda>_.
                     spin_unlock Ongoing_lock)))))
             else (if t \<noteq> None then ret () else kthread_run)) (\<lambda>_.
        bnd (spin_unlock Kthread_lock) (\<lambda>_.
        ret 0))))))))"

section \<open>The attributes\<close>

record sysfs_struct = hcsr_struct +
  enable :: s32

subsection \<open>trigger\<close>

definition trigger_show :: "string \<Rightarrow> (int \<times> string, 'z hcsr_struct_scheme) cmd" where
  "trigger_show buf =
     bnd (spin_lock Kconfig_lock) (\<lambda>_.
     bnd (look trigger_pin) (\<lambda>trig_pin.
     bnd (spin_unlock Kconfig_lock) (\<lambda>_.
     ret (snprintf 10 (fmt_d (word_of_int trig_pin)) buf))))"

text \<open>The old pin is freed before anything is known about the new one.\<close>

definition trigger_store :: "gpio_env \<Rightarrow> string \<Rightarrow> int \<Rightarrow> (int, 'z hcsr_struct_scheme) cmd" where
  "trigger_store genv buf count =
     bnd (upd (\<lambda>st. st\<lparr>gpios := freeTrig (trigger_pin st) (gpios st)\<rparr>)) (\<lambda>_.
     case sscanf_d buf of
       None \<Rightarrow> ret 0
     | Some trig_pin \<Rightarrow>
         bnd (on_gpio (setTrig3 genv (sint trig_pin))) (\<lambda>r.
         if 0 > r then ret r
         else
           bnd (spin_lock Kconfig_lock) (\<lambda>_.
           bnd (upd (\<lambda>st. st\<lparr>trigger_pin := sint trig_pin\<rparr>)) (\<lambda>_.
           bnd (spin_unlock Kconfig_lock) (\<lambda>_.
           ret count)))))"

subsection \<open>echo\<close>

definition echo_show :: "string \<Rightarrow> (int \<times> string, 'z hcsr_struct_scheme) cmd" where
  "echo_show buf =
     bnd (spin_lock Kconfig_lock) (\<lambda>_.
     bnd (look echo_pin) (\<lambda>echo_pin.
     bnd (spin_unlock Kconfig_lock) (\<lambda>_.
     ret (snprintf 10 (fmt_d (word_of_int echo_pin)) buf))))"

definition echo_failed :: "int \<times> int \<Rightarrow> int \<Rightarrow> (int, 'z hcsr_struct_scheme) cmd" where
  "echo_failed prev_pins r =
     bnd (upd (\<lambda>st. st\<lparr>trigger_pin := fst prev_pins, echo_pin := snd prev_pins\<rparr>)) (\<lambda>_.
     bnd (spin_unlock Kconfig_lock) (\<lambda>_.
     ret r))"

definition echo_store :: "gpio_env \<Rightarrow> irq_env \<Rightarrow> string \<Rightarrow> int \<Rightarrow> (int, 'z hcsr_struct_scheme) cmd" where
  "echo_store genv ienv buf count =
     bnd (spin_lock Irq_done_lock) (\<lambda>_.
     bnd (look irq_done) (\<lambda>d.
     bnd (if d then bnd free_irq (\<lambda>_. upd (\<lambda>st. st\<lparr>irq_done := False\<rparr>)) else ret ()) (\<lambda>_.
     bnd (spin_unlock Irq_done_lock) (\<lambda>_.
     bnd (upd (\<lambda>st. st\<lparr>gpios := freeEcho (echo_pin st) (gpios st)\<rparr>)) (\<lambda>_.
     bnd (spin_lock Kconfig_lock) (\<lambda>_.
     bnd (look (\<lambda>st. (trigger_pin st, echo_pin st))) (\<lambda>prev_pins.
     case sscanf_d buf of
       None \<Rightarrow> echo_failed prev_pins 0
     | Some echo \<Rightarrow>
         bnd (on_gpio (setEcho genv (sint echo))) (\<lambda>r.
         if 0 > r then echo_failed prev_pins r
         else
           bnd (upd (\<lambda>st. st\<lparr>echo_pin := sint echo\<rparr>)) (\<lambda>_.
           bnd (set_ISR ienv) (\<lambda>r.
           if 0 > r then echo_failed prev_pins r
           else
             bnd (spin_lock Irq_done_lock) (\<lambda>_.
             bnd (upd (\<lambda>st. st\<lparr>irq_done := True\<rparr>)) (\<lambda>_.
             bnd (spin_unlock Irq_done_lock) (\<lambda>_.
             bnd (spin_unlock Kconfig_lock) (\<lambda>_.
             ret count))))))))))))))"

subsection \<open>mode and frequency\<close>

definition mode_show :: "string \<Rightarrow> (int \<times> string, 'z hcsr_struct_scheme) cmd" where
  "mode_show buf =
     bnd (spin_lock Kconfig_lock) (\<lambda>_.
     bnd (look mode) (\<lambda>m.
     bnd (spin_unlock Kconfig_lock) (\<lambda>_.
     ret (snprintf 10 (fmt_d m) buf))))"

text \<open>The value is tested before the result of the scan; it is 0 when nothing was scanned.\<close>

definition mode_store :: "string \<Rightarrow> int \<Rightarrow> (int, 'z hcsr_struct_scheme) cmd" where
  "mode_store buf count =
     (let m = (case sscanf_d buf of None \<Rightarrow> 0 | Some v \<Rightarrow> v) in
      if m \<noteq> ONE_SHOT \<and> m \<noteq> PERIODIC then ret (- EINVAL)
      else if sscanf_d buf = None then ret 0
      else
        bnd (spin_lock Kconfig_lock) (\<lambda>_.
        bnd (upd (\<lambda>st. st\<lparr>mode := m\<rparr>)) (\<lambda>_.
        bnd (spin_unlock Kconfig_lock) (\<lambda>_.
        ret count))))"

definition frequency_show :: "string \<Rightarrow> (int \<times> string, 'z hcsr_struct_scheme) cmd" where
  "frequency_show buf =
     bnd (spin_lock Kconfig_lock) (\<lambda>_.
     bnd (look freq) (\<lambda>f.
     bnd (spin_unlock Kconfig_lock) (\<lambda>_.
     ret (snprintf 10 (fmt_d f) buf))))"

definition frequency_store :: "string \<Rightarrow> int \<Rightarrow> (int, 'z hcsr_struct_scheme) cmd" where
  "frequency_store buf count =
     (case sscanf_d buf of
        None \<Rightarrow> ret 0
      | Some f \<Rightarrow>
          if f = 0 then ret (- EINVAL)
          else
            bnd (spin_lock Kconfig_lock) (\<lambda>_.
            bnd (upd (\<lambda>st. st\<lparr>freq := f\<rparr>)) (\<lambda>_.
            bnd (spin_unlock Kconfig_lock) (\<lambda>_.
            ret count))))"

subsection \<open>enable and distance\<close>

definition enable_show :: "string \<Rightarrow> (int \<times> string, sysfs_struct) cmd" where
  "enable_show buf =
     bnd (spin_lock Kconfig_lock) (\<lambda>_.
     bnd (look enable) (\<lambda>e.
     bnd (spin_unlock Kconfig_lock) (\<lambda>_.
     ret (snprintf 10 (fmt_d e) buf))))"

definition enable_done :: "s32 \<Rightarrow> int \<Rightarrow> (int, sysfs_struct) cmd" where
  "enable_done e count =
     bnd (spin_lock Kconfig_lock) (\<lambda>_.
     bnd (upd (\<lambda>st. st\<lparr>enable := e\<rparr>)) (\<lambda>_.
     bnd (spin_unlock Kconfig_lock) (\<lambda>_.
     ret count)))"

text \<open>In the periodic branch \<open>kconfig_lock\<close> is not given back.\<close>

definition enable_store ::
  "(nat \<Rightarrow> u64 \<times> (nat \<Rightarrow> u64 option)) \<Rightarrow> bool \<Rightarrow> string \<Rightarrow> int \<Rightarrow> (int, sysfs_struct) cmd" where
  "enable_store atts sending buf count =
     (case sscanf_d buf of
        None \<Rightarrow> ret 0
      | Some e \<Rightarrow>
          if e = 0
          then
            bnd (spin_lock Kthread_lock) (\<lambda>_.
            bnd (look kthread) (\<lambda>t.
            bnd (if t \<noteq> None
                 then bnd (kthread_stop3 sending) (\<lambda>_. upd (\<lambda>st. st\<lparr>kthread := None\<rparr>))
                 else ret ()) (\<lambda>_.
            bnd (spin_unlock Kthread_lock) (\<lambda>_.
            bnd (spin_lock Ongoing_lock) (\<lambda>_.
            bnd (upd (\<lambda>st. st\<lparr>ongoing := False\<rparr>)) (\<lambda>_.
            bnd (spin_unlock Ongoing_lock) (\<lambda>_.
            enable_done e count)))))))
          else if e = 1
          then
            bnd (look kthread) (\<lambda>t.
            if t \<noteq> None then ret count
            else
              bnd (spin_lock Kconfig_lock) (\<lambda>_.
              bnd (look mode) (\<lambda>m.
              if m = ONE_SHOT
              then
                bnd (spin_unlock Kconfig_lock) (\<lambda>_.
                bnd (spin_lock Ongoing_lock) (\<lambda>_.
                bnd (look ongoing) (\<lambda>on.
                bnd (spin_unlock Ongoing_lock) (\<lambda>_.
                bnd (if \<not> on then bnd (send3 atts 5) (\<lambda>_. ret ()) else ret ()) (\<lambda>_.
                enable_done e count)))))
              else
                bnd (spin_lock Kthread_lock) (\<lambda>_.
                bnd kthread_run (\<lambda>_.
                bnd (spin_unlock Kthread_lock) (\<lambda>_.
                enable_done e count))))))
          else ret (- EINVAL))"

definition distance_show :: "string \<Rightarrow> (int \<times> string, 'z hcsr_struct_scheme) cmd" where
  "distance_show buf =
     bnd (spin_lock Cir_buf_lock) (\<lambda>_.
     bnd (look (\<lambda>st. if newest st = - 1 then 0 else cbuf st ! nat (newest st))) (\<lambda>d.
     bnd (spin_unlock Cir_buf_lock) (\<lambda>_.
     ret (snprintf 10 (fmt_d d) buf))))"

section \<open>A new device\<close>

text \<open>The structure after \<open>memset\<close>, and after \<open>init_hcsr_struct\<close>.\<close>

definition zero_hcsr3 :: sysfs_struct where
  "zero_hcsr3 = \<lparr>held = {}, irq_done = False, echo_isr_number = 0, kstart = 0, kthread = None,
     trigger_pin = 0, echo_pin = 0, mode = 0, freq = 0, newest = 0, cbuf = replicate NUM_DATA 0,
     ongoing = False, gpios = \<lparr>requested = {}, dirs = (\<lambda>_. None), bad_free = []\<rparr>, irqs = {},
     bad_irq = [], edges = [], enable = 0\<rparr>"

definition init_hcsr_struct3 :: "sysfs_struct \<Rightarrow> sysfs_struct" where
  "init_hcsr_struct3 h = h\<lparr>kthread := None, irq_done := False, echo_isr_number := - 1, mode := 0,
     newest := - 1, trigger_pin := - 1, echo_pin := - 1, held := {}\<rparr>"

section \<open>Giving a device back\<close>

text \<open>The part of \<open>hc_sr04_exit\<close> that releases the interrupt line and the pins, under the lock.\<close>

definition release_dev3 :: "(unit, 'z hcsr_struct_scheme) cmd" where
  "release_dev3 =
     bnd (spin_lock Irq_done_lock) (\<lambda>_.
     bnd (look irq_done) (\<lambda>d.
     bnd (if d then free_irq else ret ()) (\<lambda>_.
     bnd free_gpio (\<lambda>_.
     spin_unlock Irq_done_lock))))"

end
