(* ===== verification/HCSR_Sysfs_Proofs.thy ===== *)
theory HCSR_Sysfs_Proofs
  imports HCSR_Sysfs
begin

text \<open>
  What the sysfs driver guarantees: with no lock held its file operations are those of the
  first driver; writing the pins through the attributes configures a device as the ioctl
  does; what the attributes show is what was stored, for numbers of up to eight
  characters; and the branches that hang, lose a pin or report nothing.
\<close>

section \<open>Setting up the trigger pin\<close>

interpretation trig3: pin_setup True "- {0}" env "trig_entry3 env pin" for env pin
  by unfold_locales
     (auto simp: trig_entry3_def Let_def available_def gpio_request_def gpio_direction_output_def
       split: if_splits prod.splits)

text \<open>Two loop bodies that differ only in the error they report.\<close>

definition same_but_error :: "entry_body \<Rightarrow> entry_body \<Rightarrow> bool" where
  "same_but_error b c \<longleftrightarrow>
     (\<forall>m p v g. snd (b m p v g) = snd (c m p v g) \<and> (fst (b m p v g) = None \<longleftrightarrow> fst (c m p v g) = None)
       \<and> fst (b m p v g) \<noteq> Some 0 \<and> fst (c m p v g) \<noteq> Some 0)"

lemma same_but_error_row:
  assumes "same_but_error b c"
  shows "snd (row_loop b m es g) = snd (row_loop c m es g)
    \<and> (fst (row_loop b m es g) = None \<longleftrightarrow> fst (row_loop c m es g) = None)
    \<and> fst (row_loop b m es g) \<noteq> Some 0 \<and> fst (row_loop c m es g) \<noteq> Some 0"
proof (induction es arbitrary: m g)
  case (Cons e es)
  obtain p v where e: "e = (p, v)" by (cases e)
  obtain r1 g1 r2 g2 where r: "b m p v g = (r1, g1)" "c m p v g = (r2, g2)"
    by (cases "b m p v g"; cases "c m p v g") auto
  have "g1 = g2 \<and> (r1 = None \<longleftrightarrow> r2 = None) \<and> r1 \<noteq> Some 0 \<and> r2 \<noteq> Some 0"
    using assms r by (metis fst_conv same_but_error_def snd_conv)
  with Cons.IH [of "Suc m" g1] show ?case by (cases r1; cases r2) (simp_all add: e r)
qed simp

lemma same_but_error_rows:
  assumes "same_but_error b c"
  shows "snd (rows_loop b pin rows g) = snd (rows_loop c pin rows g)
    \<and> (fst (rows_loop b pin rows g) = 0 \<longleftrightarrow> fst (rows_loop c pin rows g) = 0)"
proof (induction rows arbitrary: g)
  case (Cons row rows)
  obtain r1 g1 r2 g2 where r: "row_loop b 0 row g = (r1, g1)" "row_loop c 0 row g = (r2, g2)"
    by (cases "row_loop b 0 row g"; cases "row_loop c 0 row g") auto
  have "g1 = g2 \<and> (r1 = None \<longleftrightarrow> r2 = None) \<and> r1 \<noteq> Some 0 \<and> r2 \<noteq> Some 0"
    using same_but_error_row [OF assms, of 0 row g] by (simp add: r)
  with Cons.IH [of g] Cons.IH [of g1] show ?case by (cases r1; cases r2) (auto simp: r)
qed simp

lemma trig_entries_same: "same_but_error (trig_entry3 env pin) (trig_entry env pin)"
  by (auto simp: same_but_error_def trig_entry3_def trig_entry_def Let_def split: prod.splits)

lemma setTrig3_setTrig:
  "snd (setTrig3 env pin g) = snd (setTrig env pin g)"
  "fst (setTrig3 env pin g) = 0 \<longleftrightarrow> fst (setTrig env pin g) = 0"
  using same_but_error_rows [OF trig_entries_same, of env pin pin all_pins g]
  by (simp_all add: setTrig3_def setTrig_def)

lemma setTrig3_ok: "setTrig3 env pin g = (0, g') \<longleftrightarrow> setTrig env pin g = (0, g')"
  using setTrig3_setTrig [of env pin g] by (metis prod.collapse fst_conv snd_conv)

lemma setTrig3_acquires: "setTrig3 env pin g = (0, g') \<Longrightarrow> acquires (pin_gpios True pin) g g'"
  by (simp add: setTrig3_def pin_gpios_def trig3.rows_acquire)

lemma setTrig3_available:
  "available env (pin_gpios True pin) g \<Longrightarrow> fst (setTrig3 env pin g) = 0"
  by (simp add: setTrig3_def pin_gpios_def trig3.rows_available)

section \<open>Measuring\<close>

lemma do_send3_eq: "held st = {} \<Longrightarrow> do_send3 att st = do_send att st"
  by (simp add: do_send3_def do_send_def run_simps held_same_hc split: prod.splits)

lemma do_send_keeps_unlocked:
  assumes "held st = {}"
  shows "\<exists>v st'. do_send att st = Ret v st' \<and> held st' = {}"
  using assms by (cases att) (auto simp: do_send_run split: option.splits)

lemma send_loop3_eq: "held st = {} \<Longrightarrow> send_loop3 atts k r st = send_loop atts k r st"
proof (induction r arbitrary: k st)
  case (Suc r)
  obtain v st' where "do_send (atts k) st = Ret v st'" "held st' = {}"
    using do_send_keeps_unlocked [OF Suc.prems] by blast
  with Suc show ?case by (simp add: bnd_def ret_def do_send3_eq)
qed (simp add: do_send3_eq)

lemma send3_eq: "held st = {} \<Longrightarrow> send3 atts r st = send atts r st"
  by (simp add: send3_def send_def run_simps send_loop3_eq held_same_hc)

lemma send_unlocked:
  assumes "held st = {}"
  shows "\<exists>st'. send atts (Suc r) st = Ret 0 st' \<and> held st' = {}"
proof -
  obtain s0 ev s1 ev1 where "atts 0 = (s0, ev)" "atts 1 = (s1, ev1)"
    by (cases "atts 0"; cases "atts 1") auto
  from send_run [OF assms this] assms show ?thesis by (auto split: option.splits)
qed

lemma thread_rounds3_eq: "held st = {} \<Longrightarrow> thread_rounds3 rounds st = thread_rounds rounds st"
proof (induction rounds arbitrary: st)
  case (Cons a rounds)
  obtain st' where "send a 3 st = Ret 0 st'" "held st' = {}"
    using send_unlocked [OF Cons.prems, of a 2] by (auto simp: numeral_3_eq_3)
  with Cons show ?case by (simp add: bnd_def send3_eq)
qed simp

lemma read3_eq:
  "held st = {} \<Longrightarrow> hc_sr04_read3 atts es failed um st = hc_sr04_read atts es failed um st"
  by (simp add: hc_sr04_read3_def hc_sr04_read_def run_simps held_same_hc send3_eq)

lemma kthread_stop3_unlocked: "Kconfig_lock \<notin> held st \<Longrightarrow> kthread_stop3 sending st = Ret () st"
  by (simp add: kthread_stop3_def run_simps)

lemma write3_eq:
  "held st = {} \<Longrightarrow> hc_sr04_write3 atts sending failed buf st = hc_sr04_write atts failed buf st"
  by (simp add: hc_sr04_write3_def hc_sr04_write_def run_simps held_same_hc send3_eq
      kthread_stop3_unlocked Let_def)

lemma thread_function3_eq:
  "held st = {} \<Longrightarrow> thread_function3 rounds st = thread_function rounds st"
  by (simp add: thread_function3_def thread_function_def run_simps thread_rounds3_eq)

section \<open>The ioctls\<close>

lemma setpins3_run:
  assumes "held st = {}"
  shows "ioctl_SETPINs3 genv ienv 0 pins st =
    bnd (on_gpio (setTrig3 genv (fst pins))) (\<lambda>r.
      if r \<noteq> 0 then setpins_error r
      else bnd (on_gpio (setEcho genv (snd pins))) (\<lambda>r.
        if r \<noteq> 0 then setpins_error r
        else bnd (set_ISR ienv) (\<lambda>r.
          if r \<noteq> 0 then setpins_error r
          else bnd (upd (\<lambda>st. st\<lparr>irq_done := True\<rparr>)) (\<lambda>_.
               bnd (spin_unlock Irq_done_lock) (\<lambda>_. ret 0)))))
    ((unconfigured pins st)\<lparr>held := {Irq_done_lock}\<rparr>)"
  using assms
  by (simp add: ioctl_SETPINs3_def run_simps free_irq_def free_gpio_def unconfigured_def held_last)

text \<open>Only the error code of a trigger pin that cannot be set up differs.\<close>

lemma setpins3_eq:
  assumes "held st = {}"
  shows "state_of (ioctl_SETPINs3 genv ienv failed pins st) = state_of (ioctl_SETPINs genv ienv failed pins st)
    \<and> (ioctl_SETPINs3 genv ienv failed pins st = Ret 0 st' \<longleftrightarrow> ioctl_SETPINs genv ienv failed pins st = Ret 0 st')"
proof (cases "failed = 0")
  case True
  let ?u = "unconfigured pins st"
  obtain r1 g1 r2 g2 where t: "setTrig3 genv (fst pins) (gpios ?u) = (r1, g1)"
    "setTrig genv (fst pins) (gpios ?u) = (r2, g2)"
    by (cases "setTrig3 genv (fst pins) (gpios ?u)"; cases "setTrig genv (fst pins) (gpios ?u)") auto
  then have "g1 = g2" "r1 = 0 \<longleftrightarrow> r2 = 0"
    using setTrig3_setTrig [of genv "fst pins" "gpios ?u"] by simp_all
  with t show ?thesis unfolding True setpins3_run [OF assms] setpins_run [OF assms]
    by (cases "r2 = 0") (simp_all add: bnd_def on_gpio_def setpins_error_def upd_def ret_def spin_unlock_def)
qed (simp add: ioctl_SETPINs3_def ioctl_SETPINs_def run_simps)

lemma setmode3_eq:
  assumes "held st = {}" and "kthread st = None \<or> \<not> sending"
  shows "ioctl_SETMODE3 sending failed wm st = ioctl_SETMODE failed wm st"
  using assms by (auto simp: ioctl_SETMODE3_def ioctl_SETMODE_def run_simps kthread_stop3_def)

section \<open>The stores\<close>

lemma trigger_store_run:
  assumes "held st = {}"
  shows "trigger_store genv buf count st =
    (let st1 = st\<lparr>gpios := freeTrig (trigger_pin st) (gpios st)\<rparr> in
     case sscanf_d buf of
       None \<Rightarrow> Ret 0 st1
     | Some v \<Rightarrow> (let (r, g) = setTrig3 genv (sint v) (gpios st1) in
         if 0 > r then Ret r (st1\<lparr>gpios := g\<rparr>) else Ret count (st1\<lparr>gpios := g, trigger_pin := sint v\<rparr>)))"
  using assms
  by (auto simp: trigger_store_def run_simps on_gpio_def Let_def split: option.splits prod.splits
      intro!: hcsr_struct.equality)

text \<open>What \<open>echo_store\<close> gives back before it looks at the new pin.\<close>

definition echo_released :: "'z hcsr_struct_scheme \<Rightarrow> 'z hcsr_struct_scheme" where
  "echo_released st =
     (let st1 = (if irq_done st then (state_of (free_irq st))\<lparr>irq_done := False\<rparr> else st)
      in st1\<lparr>gpios := freeEcho (echo_pin st) (gpios st)\<rparr>)"

lemma echo_released_sel [simp]:
  "held (echo_released st) = held st" "trigger_pin (echo_released st) = trigger_pin st"
  "echo_pin (echo_released st) = echo_pin st" "\<not> irq_done (echo_released st)"
  "gpios (echo_released st) = freeEcho (echo_pin st) (gpios st)"
  "echo_isr_number (echo_released st) = echo_isr_number st"
  "irqs (echo_released st) = irqs st - (if irq_done st then {echo_isr_number st} else {})"
  "bad_irq (echo_released st) =
     bad_irq st @ (if irq_done st \<and> echo_isr_number st \<notin> irqs st then [echo_isr_number st] else [])"
  by (auto simp: echo_released_def Let_def free_irq_def upd_def)

lemma echo_store_run:
  assumes "held st = {}"
  shows "echo_store genv ienv buf count st =
    (let st1 = echo_released st in
     case sscanf_d buf of
       None \<Rightarrow> Ret 0 st1
     | Some v \<Rightarrow> (let (r, g) = setEcho genv (sint v) (gpios st1); n = to_irq ienv (sint v) in
         if 0 > r then Ret r (st1\<lparr>gpios := g\<rparr>)
         else if 0 > n then Ret (- EAGAIN) (st1\<lparr>gpios := g\<rparr>)
         else if req_irq ienv n \<noteq> 0 then Ret (- EAGAIN) (st1\<lparr>gpios := g, echo_isr_number := n\<rparr>)
         else Ret count (st1\<lparr>gpios := g, echo_pin := sint v, echo_isr_number := n,
           irqs := insert n (irqs st1), irq_done := True\<rparr>)))"
  using assms
  by (auto simp: echo_store_def echo_released_def run_simps free_irq_def on_gpio_def set_ISR_def
      echo_failed_def Let_def split: option.splits prod.splits intro!: hcsr_struct.equality)

section \<open>Replacing one pin\<close>

definition pin_free :: "gpio_env \<Rightarrow> bool \<Rightarrow> int \<Rightarrow> int set \<Rightarrow> bool" where
  "pin_free genv t pin taken \<longleftrightarrow>
     (\<forall>p \<in> set (pin_gpios t pin). p \<notin> taken \<and> \<not> busy genv p \<and> dir_ret genv p = 0)"

lemma pin_free_available: "pin_free genv t pin (requested g) \<longleftrightarrow> available genv (pin_gpios t pin) g"
  by (simp add: pin_free_def available_def pin_gpios_distinct)

lemma trigger_store_ok:
  assumes "held st = {}" and "sscanf_d buf = Some v"
    and free: "pin_free genv True (sint v) (requested (gpios st) - set (pin_gpios True (trigger_pin st)))"
  shows "\<exists>g. trigger_store genv buf count st = Ret count (st\<lparr>gpios := g, trigger_pin := sint v\<rparr>)
    \<and> setTrig3 genv (sint v) (freeTrig (trigger_pin st) (gpios st)) = (0, g)
    \<and> acquires (pin_gpios True (sint v)) (freeTrig (trigger_pin st) (gpios st)) g"
proof -
  let ?g0 = "freeTrig (trigger_pin st) (gpios st)"
  have "available genv (pin_gpios True (sint v)) ?g0"
    using free by (simp add: pin_free_available [symmetric] freeTrig_eq free_always)
  then obtain g where g: "setTrig3 genv (sint v) ?g0 = (0, g)"
    using setTrig3_available by (metis prod.collapse)
  with setTrig3_acquires [OF g] assms(1,2) show ?thesis by (simp add: trigger_store_run)
qed

lemma echo_store_ok:
  assumes "held st = {}" and "sscanf_d buf = Some v"
    and free: "pin_free genv False (sint v) (requested (gpios st) - set (pin_gpios False (echo_pin st)))"
    and irq: "n = to_irq ienv (sint v)" "0 \<le> n" "req_irq ienv n = 0"
  shows "\<exists>g. echo_store genv ienv buf count st = Ret count ((echo_released st)\<lparr>gpios := g, echo_pin := sint v,
        echo_isr_number := n, irqs := insert n (irqs (echo_released st)), irq_done := True\<rparr>)
    \<and> setEcho genv (sint v) (freeEcho (echo_pin st) (gpios st)) = (0, g)
    \<and> acquires (pin_gpios False (sint v)) (freeEcho (echo_pin st) (gpios st)) g"
proof -
  let ?g0 = "freeEcho (echo_pin st) (gpios st)"
  have "available genv (pin_gpios False (sint v)) ?g0"
    using free by (simp add: pin_free_available [symmetric] freeEcho_eq free_always)
  then obtain g where g: "setEcho genv (sint v) ?g0 = (0, g)"
    using set_available(2) by (metis prod.collapse)
  with setEcho_acquires [OF g] assms show ?thesis by (simp add: echo_store_run Let_def)
qed

lemma release_dev3_run:
  "held st = {} \<Longrightarrow> release_dev3 st = Ret () (state_of (bnd (if irq_done st then free_irq else ret ()) (\<lambda>_. free_gpio) st))"
  by (auto simp: release_dev3_def run_simps free_irq_def free_gpio_def intro!: hcsr_struct.equality)

section \<open>Showing\<close>

lemma shows_run:
  assumes "held st = {}"
  shows "trigger_show buf st = Ret (snprintf 10 (fmt_d (word_of_int (trigger_pin st))) buf) st"
    and "echo_show buf st = Ret (snprintf 10 (fmt_d (word_of_int (echo_pin st))) buf) st"
    and "mode_show buf st = Ret (snprintf 10 (fmt_d (mode st)) buf) st"
    and "frequency_show buf st = Ret (snprintf 10 (fmt_d (freq st)) buf) st"
    and "distance_show buf st =
      Ret (snprintf 10 (fmt_d (if newest st = - 1 then 0 else cbuf st ! nat (newest st))) buf) st"
  using assms
  by (simp_all add: trigger_show_def echo_show_def mode_show_def frequency_show_def distance_show_def
      run_simps held_same_hc)

lemma enable_show_run: "held st = {} \<Longrightarrow> enable_show buf st = Ret (snprintf 10 (fmt_d (enable st)) buf) st"
  by (simp add: enable_show_def run_simps held_same_hc)

text \<open>A show function that displays \<open>v\<close>: the returned length covers exactly the text of \<open>v\<close>.\<close>

definition displays :: "(int \<times> string, 's) outcome \<Rightarrow> s32 \<Rightarrow> 's \<Rightarrow> bool" where
  "displays res v st \<longleftrightarrow>
     (\<exists>page. res = Ret (int (length (fmt_d v)), page) st \<and> take (length (fmt_d v)) page = fmt_d v)"

lemma displays_text: "length (dec v) \<le> 8 \<Longrightarrow> displays (Ret (snprintf 10 (fmt_d v) buf) st) v st"
  using page_text [of v buf] by (metis displays_def prod.collapse)

lemma dec_small:
  assumes "unat v < 10 ^ 8"
  shows "length (dec v) \<le> 8"
proof -
  define n where "n = unat v"
  have "uint v = int n" "n < 100000000" using assms by (simp_all add: n_def)
  then have "- (2 ^ 31) \<le> uint v" "uint v < 2 ^ 31" by simp_all
  then have "sint v = uint v" by (simp add: sint_uint signed_take_bit_int_eq_self)
  then have "dec v = dec_nat (unat v)" by (simp add: dec_def)
  with length_dec_nat [of "unat v" 7] assms show ?thesis by simp
qed

text \<open>A distance always fits.\<close>

lemma distance_fits: "length (dec (distance_of start now)) \<le> 8"
proof (rule dec_small)
  have "unat (ucast (now - start) :: u32) < 2 ^ LENGTH(32)" by (rule unsigned_less)
  then have "unat (ucast (now - start) :: u32) div 5800 \<le> (2 ^ 32 - 1) div 5800"
    by (intro div_le_mono) simp
  moreover have "unat (distance_of start now) = unat (ucast (now - start) :: u32) div 5800"
    by (simp add: distance_of_def unat_div)
  ultimately show "unat (distance_of start now) < 10 ^ 8" by simp
qed

section \<open>Enabling\<close>

lemma enable_done_run: "held st = {} \<Longrightarrow> enable_done e count st = Ret count (st\<lparr>enable := e\<rparr>)"
  by (simp add: enable_done_def run_simps held_same_hc)

lemma enable_one_shot_run:
  assumes "held st = {}" and "sscanf_d buf = Some 1" and "kthread st = None" and "mode st = 0"
    and "\<not> ongoing st" and "send atts 5 st = Ret r st'" and "held st' = {}"
  shows "enable_store atts sending buf count st = Ret count (st'\<lparr>enable := 1\<rparr>)"
  using assms
  by (simp add: enable_store_def run_simps held_same_hc send3_eq enable_done_run)

section \<open>Sample device\<close>

definition fresh_dev :: sysfs_struct where
  "fresh_dev = init_hcsr_struct3 zero_hcsr3"

definition dev_1 :: sysfs_struct where
  "dev_1 = fresh_dev\<lparr>trigger_pin := 6, echo_pin := 15, irq_done := True, echo_isr_number := 55, irqs := {55},
     gpios := \<lparr>requested = {6, 36, 15, 42, 43}, dirs = (\<lambda>_. None), bad_free = []\<rparr>\<rparr>"

lemma fresh_dev_sel [simp]:
  "held fresh_dev = {}" "trigger_pin fresh_dev = - 1" "echo_pin fresh_dev = - 1" "\<not> irq_done fresh_dev"
  "irqs fresh_dev = {}" "mode fresh_dev = 0" "\<not> ongoing fresh_dev" "newest fresh_dev = - 1"
  "kthread fresh_dev = None" "gpios fresh_dev = \<lparr>requested = {}, dirs = (\<lambda>_. None), bad_free = []\<rparr>"
  "cbuf fresh_dev = replicate 5 0"
  by (simp_all add: fresh_dev_def init_hcsr_struct3_def zero_hcsr3_def)

lemma dev_1_configured [simp]: "configured dev_1" "held dev_1 = {}"
  by (simp_all add: configured_def dev_1_def dev_gpios_def gpios_of_pins)

section \<open>Properties\<close>

text \<open>
  (C23) Where the two drivers agree. When the caller holds no lock, the read, write and thread
  routines of the sysfs driver have exactly the effect and result of those of the misc
  driver, although the trigger pin is now read under a lock. \<open>SETPINS\<close> leaves the same
  state and succeeds in the same cases; its error codes differ and are not compared. \<open>SETMODE\<close> does the same with
  one exception: when a sampling thread runs and is about to send, it hangs in the sysfs driver (\<open>hcsr_setmode_deadlock\<close>) and
  returns in the misc driver.
\<close>

theorem hcsr_drivers_agree:
  assumes "held st = {}"
  shows "hc_sr04_read3 atts es failed um st = hc_sr04_read atts es failed um st
    \<and> hc_sr04_write3 atts sending failed buf st = hc_sr04_write atts failed buf st
    \<and> thread_function3 rounds st = thread_function rounds st
    \<and> state_of (ioctl_SETPINs3 genv ienv failed pins st) = state_of (ioctl_SETPINs genv ienv failed pins st)
    \<and> (ioctl_SETPINs3 genv ienv failed pins st = Ret 0 st' \<longleftrightarrow> ioctl_SETPINs genv ienv failed pins st = Ret 0 st')
    \<and> (kthread st = None \<or> \<not> sending \<longrightarrow> ioctl_SETMODE3 sending failed wm st = ioctl_SETMODE failed wm st)"
  using read3_eq [OF assms] write3_eq [OF assms] thread_function3_eq [OF assms] setpins3_eq [OF assms]
    setmode3_eq [OF assms] by blast

theorem hcsr_drivers_agree_witness:
  "hc_sr04_read3 no_echo [] 0 [0, 0, 0, 0] dev_1 = hc_sr04_read no_echo [] 0 [0, 0, 0, 0] dev_1"
  using hcsr_drivers_agree [of dev_1 no_echo "[]" 0 "[0, 0, 0, 0]" False "[]" "[]" easy_gpio easy_irq "(6, 15)" dev_1 "(0, 0)"]
  by simp

text \<open>
  \<open>SETMODE\<close> of the sysfs driver can hang. If a sampling thread runs and is about to read
  the trigger pin when it is to be stopped, it waits for \<open>kconfig_lock\<close>, which the caller of
  \<open>SETMODE\<close> holds while it waits for the thread: neither continues, with two locks held. The
  new mode and frequency are already stored.
\<close>

lemma hcsr_setmode_deadlock:
  assumes "held st = {}" and "kthread st \<noteq> None" and "fst wm = 0 \<or> fst wm = 1"
  shows "ioctl_SETMODE3 True 0 wm st =
    Oops SelfDeadlock (st\<lparr>mode := fst wm, freq := snd wm, held := {Kconfig_lock, Kthread_lock}\<rparr>)"
  using assms
  by (auto simp: ioctl_SETMODE3_def run_simps kthread_stop3_def intro!: hcsr_struct.equality)

lemma hcsr_setmode_deadlock_example:
  "\<exists>st'. ioctl_SETMODE3 True 0 (0, 4) (dev_1\<lparr>kthread := Some 3\<rparr>) = Oops SelfDeadlock st'"
  using hcsr_setmode_deadlock [of "dev_1\<lparr>kthread := Some 3\<rparr>" "(0, 4)"] by simp

text \<open>
  (C21) Configuring a new device through its attributes is the same as \<open>SETPINS\<close>: when the
  GPIOs and the interrupt line of both pins can be had, writing the trigger pin and then
  the echo pin returns the lengths of the texts and leads to exactly the state the ioctl
  leads to, in which the device holds the GPIOs of its pins and the line of its echo pin.
  Nothing is freed that was not held.
\<close>

theorem sysfs_pins_as_setpins:
  assumes "held st = {}" and "trigger_pin st = - 1" and "echo_pin st = - 1" and "\<not> irq_done st"
    and "irqs st = {}" and "sscanf_d tbuf = Some t" and "sscanf_d ebuf = Some e"
    and "grantable genv ienv (sint t, sint e) (requested (gpios st))"
  shows "\<exists>st1 st2. trigger_store genv tbuf c1 st = Ret c1 st1 \<and> echo_store genv ienv ebuf c2 st1 = Ret c2 st2
    \<and> ioctl_SETPINs3 genv ienv 0 (sint t, sint e) st = Ret 0 st2 \<and> configured st2
    \<and> trigger_pin st2 = sint t \<and> echo_pin st2 = sint e
    \<and> requested (gpios st2) = requested (gpios st) \<union> dev_gpios st2
    \<and> bad_free (gpios st2) = bad_free (gpios st) \<and> irqs st2 = {to_irq ienv (sint e)}"
proof -
  let ?u = "unconfigured (sint t, sint e) st"
  have nil: "freeTrig (- 1) g = g" "freeEcho (- 1) g = g" for g
    by (simp_all add: freeTrig_eq freeEcho_eq gpios_of_pins)
  have u: "?u = st\<lparr>trigger_pin := sint t, echo_pin := sint e\<rparr>"
    using assms(2-4) by (simp add: unconfigured_def run_simps free_gpio_def nil)
  have irq: "0 \<le> to_irq ienv (sint e)" "req_irq ienv (to_irq ienv (sint e)) = 0"
    using assms(8) by (simp_all add: grantable_def)
  obtain g1 g2 where g: "setTrig genv (sint t) (gpios st) = (0, g1)" "setEcho genv (sint e) g1 = (0, g2)"
    using set_both [OF assms(8)] by auto
  have g3: "setTrig3 genv (sint t) (gpios st) = (0, g1)" using g(1) by (simp add: setTrig3_ok)
  let ?st1 = "st\<lparr>gpios := g1, trigger_pin := sint t\<rparr>"
  let ?st2 = "st\<lparr>gpios := g2, trigger_pin := sint t, echo_pin := sint e, echo_isr_number := to_irq ienv (sint e),
    irqs := {to_irq ienv (sint e)}, irq_done := True\<rparr>"
  have s1: "trigger_store genv tbuf c1 st = Ret c1 ?st1"
    using assms(1,2,6) g3 by (simp add: trigger_store_run nil)
  have "echo_released ?st1 = ?st1" using assms(3,4) by (simp add: echo_released_def nil)
  then have s2: "echo_store genv ienv ebuf c2 ?st1 = Ret c2 ?st2"
    using assms(1,3,5,7) g(2) irq by (simp add: echo_store_run Let_def nil)
  have "ioctl_SETPINs genv ienv 0 (sint t, sint e) st = Ret 0 ?st2"
    using assms(1,5) irq g
    by (simp add: setpins_run [OF assms(1)] u run_simps on_gpio_def set_ISR_def held_last held_same_hc)
  moreover have "requested (gpios ?u) = requested (gpios st)" "irqs ?u = {}" by (simp_all add: u assms(5))
  ultimately show ?thesis
    using s1 s2 setpins3_eq [OF assms(1), of genv ienv 0 "(sint t, sint e)" ?st2]
      setpins_ok [OF assms(1), of genv ienv "(sint t, sint e)"] assms(8) by (auto simp: u)
qed

theorem sysfs_pins_as_setpins_witness:
  "\<exists>st1 st2. trigger_store easy_gpio ''6'' 1 fresh_dev = Ret 1 st1
     \<and> echo_store easy_gpio easy_irq ''15'' 2 st1 = Ret 2 st2 \<and> configured st2 \<and> irqs st2 = {55}"
proof -
  have s: "sscanf_d ''6'' = Some 6" "sscanf_d ''15'' = Some 15"
    by (simp_all add: sscanf_d_def isspace_def isdigit_def digits_val_def digit_val_def)
  have "grantable easy_gpio easy_irq (sint (6 :: s32), sint (15 :: s32)) (requested (gpios fresh_dev))"
    by (simp add: grantable_def easy_gpio_def easy_irq_def)
  from sysfs_pins_as_setpins [OF _ _ _ _ _ s this, of 1 2] show ?thesis
    by (auto simp: easy_irq_def)
qed

text \<open>
  A pin store that fails gives the old pin away but keeps its number. On a configured
  device a trigger text that is no number makes the store return 0, which is neither an
  error nor the length of the text; a trigger pin that cannot be had makes it return the
  error. In both cases the GPIOs of the old pin are free while the device still names it,
  so removing the device frees them a second time. A failed echo store has also given
  back the interrupt line, and the device is left without one.
\<close>

lemma sysfs_failed_store:
  assumes "configured st"
  shows "(sscanf_d buf = None \<longrightarrow> (\<exists>st'. trigger_store genv buf count st = Ret 0 st'
      \<and> trigger_pin st' = trigger_pin st
      \<and> requested (gpios st') = requested (gpios st) - set (pin_gpios True (trigger_pin st))
      \<and> bad_free (gpios (state_of (release_dev3 st'))) = bad_free (gpios st) @ pin_gpios True (trigger_pin st)))
    \<and> (sscanf_d buf = Some v \<and> setTrig3 genv (sint v) (freeTrig (trigger_pin st) (gpios st)) = (r, g) \<and> r < 0 \<longrightarrow>
      (\<exists>st'. trigger_store genv buf count st = Ret r st' \<and> trigger_pin st' = trigger_pin st \<and> gpios st' = g))
    \<and> (sscanf_d buf = None \<longrightarrow> (\<exists>st'. echo_store genv ienv buf count st = Ret 0 st'
      \<and> echo_pin st' = echo_pin st \<and> \<not> irq_done st' \<and> irqs st' = {}
      \<and> requested (gpios st') = requested (gpios st) - set (pin_gpios False (echo_pin st))))"
proof -
  let ?t = "pin_gpios True (trigger_pin st)" and ?e = "pin_gpios False (echo_pin st)"
  have c: "held st = {}" "irq_done st" "trigger_pin st \<noteq> echo_pin st" "set ?t \<subseteq> requested (gpios st)"
    "set ?e \<subseteq> requested (gpios st)" "irqs st = {echo_isr_number st}"
    using assms by (auto simp: configured_def dev_gpios_def)
  let ?st = "st\<lparr>gpios := freeTrig (trigger_pin st) (gpios st)\<rparr>"
  let ?g = "fold gpio_free ?t (gpios st)"
  have g: "requested ?g = requested (gpios st) - set ?t" "bad_free ?g = bad_free (gpios st)"
    using free_held [OF pin_gpios_distinct c(4)] by simp_all
  have disj: "set ?t \<inter> set ?e = {}" using pin_gpios_disjoint [OF c(3)] .
  have "bad_free (fold gpio_free ?t ?g) = bad_free (gpios st) @ ?t"
    and rq: "requested (fold gpio_free ?t ?g) = requested (gpios st) - set ?t"
    using free_not_held [of ?t ?g] g by auto
  moreover have "set ?e \<subseteq> requested (fold gpio_free ?t ?g)" using c(5) disj rq by auto
  ultimately have "bad_free (fold gpio_free ?e (fold gpio_free ?t ?g)) = bad_free (gpios st) @ ?t"
    using free_held [OF pin_gpios_distinct] by metis
  then have "bad_free (gpios (state_of (release_dev3 ?st))) = bad_free (gpios st) @ ?t"
    using c(1,2) by (simp add: release_dev3_run run_simps free_irq_def free_gpio_def freeTrig_eq freeEcho_eq)
  moreover have "requested (gpios ?st) = requested (gpios st) - set ?t"
    by (simp add: freeTrig_eq g)
  moreover have "requested (freeEcho (echo_pin st) (gpios st)) = requested (gpios st) - set ?e"
    by (simp add: freeEcho_eq free_always)
  ultimately show ?thesis
    using c by (simp add: trigger_store_run [OF c(1)] echo_store_run [OF c(1)])
qed

lemma sysfs_failed_store_example:
  "\<exists>st'. trigger_store easy_gpio ''x'' 1 dev_1 = Ret 0 st'
     \<and> requested (gpios st') = {15, 42, 43} \<and> bad_free (gpios (state_of (release_dev3 st'))) = [6, 36]"
proof -
  have s: "sscanf_d ''x'' = None" by (simp add: sscanf_d_def isspace_def isdigit_def)
  have d: "requested (gpios dev_1) - {6, 36} = {15, 42, 43}" "trigger_pin dev_1 = 6" "bad_free (gpios dev_1) = []"
    by (auto simp: dev_1_def)
  show ?thesis
    using sysfs_failed_store [OF dev_1_configured(1), of "''x''" easy_gpio 1 0 0 "gpios dev_1" easy_irq] s
    by (auto simp: d gpios_of_pins)
qed

text \<open>
  A pin store that succeeds replaces one pin. On a configured device, when the GPIOs of
  the new trigger pin can be had (those of the old one included) and it is not the echo
  pin, the device is configured afterwards with that trigger pin and the same echo pin; the
  GPIOs of the old pin are given back unless the new one uses them, and nothing else
  changes hands. The same holds for the echo pin, whose interrupt line is exchanged too.
\<close>

lemma sysfs_store_replaces_pin:
  assumes "configured st" and "sscanf_d buf = Some v"
  shows "(pin_free genv True (sint v) (requested (gpios st) - set (pin_gpios True (trigger_pin st)))
        \<and> sint v \<noteq> echo_pin st \<longrightarrow>
      (\<exists>st'. trigger_store genv buf count st = Ret count st' \<and> configured st'
        \<and> trigger_pin st' = sint v \<and> echo_pin st' = echo_pin st \<and> irqs st' = irqs st
        \<and> requested (gpios st') = requested (gpios st) - set (pin_gpios True (trigger_pin st))
             \<union> set (pin_gpios True (sint v))
        \<and> bad_free (gpios st') = bad_free (gpios st)))
    \<and> (pin_free genv False (sint v) (requested (gpios st) - set (pin_gpios False (echo_pin st)))
        \<and> sint v \<noteq> trigger_pin st \<and> 0 \<le> to_irq ienv (sint v) \<and> req_irq ienv (to_irq ienv (sint v)) = 0 \<longrightarrow>
      (\<exists>st'. echo_store genv ienv buf count st = Ret count st' \<and> configured st'
        \<and> echo_pin st' = sint v \<and> trigger_pin st' = trigger_pin st \<and> irqs st' = {to_irq ienv (sint v)}
        \<and> requested (gpios st') = requested (gpios st) - set (pin_gpios False (echo_pin st))
             \<union> set (pin_gpios False (sint v))
        \<and> bad_free (gpios st') = bad_free (gpios st) \<and> bad_irq st' = bad_irq st))"
proof (intro conjI impI; elim conjE)
  let ?t = "pin_gpios True (trigger_pin st)" and ?e = "pin_gpios False (echo_pin st)"
  have c: "held st = {}" "irq_done st" "trigger_pin st \<noteq> echo_pin st" "set ?t \<subseteq> requested (gpios st)"
    "set ?e \<subseteq> requested (gpios st)" "irqs st = {echo_isr_number st}"
    using assms(1) by (auto simp: configured_def dev_gpios_def)
  have disj: "set ?t \<inter> set ?e = {}" using pin_gpios_disjoint [OF c(3)] .
  note ft = free_held [OF pin_gpios_distinct c(4)] and fe = free_held [OF pin_gpios_distinct c(5)]
  {
    assume free: "pin_free genv True (sint v) (requested (gpios st) - set ?t)" and ne: "sint v \<noteq> echo_pin st"
    from trigger_store_ok [OF c(1) assms(2) free] obtain g where
      "trigger_store genv buf count st = Ret count (st\<lparr>gpios := g, trigger_pin := sint v\<rparr>)"
      "acquires (pin_gpios True (sint v)) (fold gpio_free ?t (gpios st)) g" by (auto simp: freeTrig_eq)
    then show "\<exists>st'. trigger_store genv buf count st = Ret count st' \<and> configured st'
        \<and> trigger_pin st' = sint v \<and> echo_pin st' = echo_pin st \<and> irqs st' = irqs st
        \<and> requested (gpios st') = requested (gpios st) - set ?t \<union> set (pin_gpios True (sint v))
        \<and> bad_free (gpios st') = bad_free (gpios st)"
      using ft c disj ne by (auto simp: configured_def dev_gpios_def acquires_def)
  next
    assume free: "pin_free genv False (sint v) (requested (gpios st) - set ?e)" and ne: "sint v \<noteq> trigger_pin st"
      and irq: "0 \<le> to_irq ienv (sint v)" "req_irq ienv (to_irq ienv (sint v)) = 0"
    from echo_store_ok [OF c(1) assms(2) free refl irq] obtain g where
      "echo_store genv ienv buf count st = Ret count ((echo_released st)\<lparr>gpios := g, echo_pin := sint v,
        echo_isr_number := to_irq ienv (sint v), irqs := insert (to_irq ienv (sint v)) (irqs (echo_released st)),
        irq_done := True\<rparr>)"
      "acquires (pin_gpios False (sint v)) (fold gpio_free ?e (gpios st)) g" by (auto simp: freeEcho_eq)
    then show "\<exists>st'. echo_store genv ienv buf count st = Ret count st' \<and> configured st'
        \<and> echo_pin st' = sint v \<and> trigger_pin st' = trigger_pin st \<and> irqs st' = {to_irq ienv (sint v)}
        \<and> requested (gpios st') = requested (gpios st) - set ?e \<union> set (pin_gpios False (sint v))
        \<and> bad_free (gpios st') = bad_free (gpios st) \<and> bad_irq st' = bad_irq st"
      using fe c disj ne by (auto simp: configured_def dev_gpios_def acquires_def)
  }
qed

lemma sysfs_store_replaces_pin_example:
  "\<exists>st'. trigger_store easy_gpio ''10'' 2 dev_1 = Ret 2 st' \<and> configured st'
     \<and> requested (gpios st') = {15, 42, 43, 10, 26, 74}"
proof -
  have s: "sscanf_d ''10'' = Some 10"
    by (simp add: sscanf_d_def isspace_def isdigit_def digits_val_def digit_val_def)
  have d: "trigger_pin dev_1 = 6" "echo_pin dev_1 = 15" by (simp_all add: dev_1_def)
  have e: "requested (gpios dev_1) - {6, 36} \<union> {10, 26, 74} = {15, 42, 43, 10, 26, 74}"
    by (auto simp: dev_1_def)
  have "pin_free easy_gpio True (sint (10 :: s32)) (requested (gpios dev_1) - set (pin_gpios True (trigger_pin dev_1)))"
    by (simp add: pin_free_def easy_gpio_def d gpios_of_pins) (simp add: dev_1_def)
  then show ?thesis
    using sysfs_store_replaces_pin [OF dev_1_configured(1) s, of easy_gpio 2 easy_irq]
    by (auto simp: d gpios_of_pins e simp flip: e)
qed

text \<open>
  (C22) What is stored is shown. A number whose text has at most eight characters, written to
  \<open>frequency\<close> (unless it is 0), \<open>mode\<close> (0 or 1) or, when its GPIOs can be had, \<open>trigger\<close>, is
  accepted and then displayed character for character. A frequency of ten digits is
  accepted too, but shown without its last digit: the buffer of ten characters cuts the
  text, and the length returned counts two bytes that are not text.
\<close>

theorem sysfs_store_then_show:
  assumes "held st = {}" and "length (dec v) \<le> 8"
  shows "(v \<noteq> 0 \<longrightarrow> frequency_store (fmt_d v) c st = Ret c (st\<lparr>freq := v\<rparr>)
      \<and> displays (frequency_show page (st\<lparr>freq := v\<rparr>)) v (st\<lparr>freq := v\<rparr>))
    \<and> (v = 0 \<or> v = 1 \<longrightarrow> mode_store (fmt_d v) c st = Ret c (st\<lparr>mode := v\<rparr>)
      \<and> displays (mode_show page (st\<lparr>mode := v\<rparr>)) v (st\<lparr>mode := v\<rparr>))
    \<and> (pin_free genv True (sint v) (requested (gpios st) - set (pin_gpios True (trigger_pin st))) \<longrightarrow>
      (\<exists>st'. trigger_store genv (fmt_d v) c st = Ret c st' \<and> displays (trigger_show page st') v st'))
    \<and> (10 ^ 9 \<le> sint w \<longrightarrow> frequency_store (fmt_d w) c st = Ret c (st\<lparr>freq := w\<rparr>)
      \<and> frequency_show page (st\<lparr>freq := w\<rparr>) =
          Ret (11, dec (word_of_int (sint w div 10)) @ NUL # drop 10 page) (st\<lparr>freq := w\<rparr>))"
proof (intro conjI impI)
  have store: "frequency_store (fmt_d x) c st = Ret c (st\<lparr>freq := x\<rparr>)" if "x \<noteq> 0" for x
    using assms(1) that by (simp add: frequency_store_def run_simps held_same_hc)
  show "frequency_store (fmt_d v) c st = Ret c (st\<lparr>freq := v\<rparr>)" if "v \<noteq> 0" using store [OF that] .
  show "displays (frequency_show page (st\<lparr>freq := v\<rparr>)) v (st\<lparr>freq := v\<rparr>)"
    using assms by (simp add: shows_run displays_text)
  show "mode_store (fmt_d v) c st = Ret c (st\<lparr>mode := v\<rparr>)" if "v = 0 \<or> v = 1"
    using assms(1) that by (auto simp: mode_store_def run_simps held_same_hc Let_def)
  show "displays (mode_show page (st\<lparr>mode := v\<rparr>)) v (st\<lparr>mode := v\<rparr>)"
    using assms by (simp add: shows_run displays_text)
  show "\<exists>st'. trigger_store genv (fmt_d v) c st = Ret c st' \<and> displays (trigger_show page st') v st'"
    if "pin_free genv True (sint v) (requested (gpios st) - set (pin_gpios True (trigger_pin st)))"
    using trigger_store_ok [OF assms(1) sscanf_fmt(1) that, of c] assms
    by (auto simp: shows_run displays_text)
  assume w: "10 ^ 9 \<le> sint w"
  then have "w \<noteq> 0" by auto
  then show "frequency_store (fmt_d w) c st = Ret c (st\<lparr>freq := w\<rparr>)" by (rule store)
  show "frequency_show page (st\<lparr>freq := w\<rparr>) =
      Ret (11, dec (word_of_int (sint w div 10)) @ NUL # drop 10 page) (st\<lparr>freq := w\<rparr>)"
    using assms(1) page_truncated(1,2) [OF w, of page]
    by (simp add: shows_run prod_eq_iff)
qed

theorem sysfs_store_then_show_witness:
  "frequency_store (fmt_d 5) 2 dev_1 = Ret 2 (dev_1\<lparr>freq := 5\<rparr>)
   \<and> displays (frequency_show [] (dev_1\<lparr>freq := 5\<rparr>)) 5 (dev_1\<lparr>freq := 5\<rparr>)"
proof -
  have "length (dec 5) \<le> 8" by (rule dec_small) simp
  then show ?thesis using sysfs_store_then_show [of dev_1 5 2 "[]" easy_gpio 0] by simp
qed

text \<open>
  (C24) Enabling a device. In one-shot mode, with no sampling thread and no measurement going on, writing 1 takes one measurement, and when the
  sensor answers, \<open>distance\<close> displays exactly the measured distance, whatever it is; without
  an answer the samples stay as they were and the store reports success all the same. While
  a measurement is going on, writing 1 in one-shot mode sends no pulse and only sets \<open>enable\<close>.
  Writing 0 ends the sampling thread and the measurement, writing 1 while a thread runs
  changes nothing, any other number is refused and a text that is no number is answered
  with 0. The remaining case, writing 1 in periodic mode without a thread, does not return where spin locks spin
  (\<open>sysfs_enable_periodic_hangs\<close>).
\<close>

theorem sysfs_enable:
  assumes "held st = {}" and "ring_ok st"
  shows "(sscanf_d buf = Some 1 \<and> kthread st = None \<and> mode st = 0 \<and> \<not> ongoing st \<longrightarrow>
      (\<exists>st'. enable_store atts sending buf count st = Ret count st' \<and> enable st' = 1 \<and> held st' = {}
        \<and> \<not> ongoing st'
        \<and> (case round_distance atts of
             Some d \<Rightarrow> displays (distance_show page st') d st'
           | None \<Rightarrow> cbuf st' = cbuf st \<and> newest st' = newest st)))
    \<and> (sscanf_d buf = Some 1 \<and> kthread st = None \<and> mode st = 0 \<and> ongoing st \<longrightarrow>
      enable_store atts sending buf count st = Ret count (st\<lparr>enable := 1\<rparr>))
    \<and> (sscanf_d buf = Some 0 \<longrightarrow>
      enable_store atts sending buf count st = Ret count (st\<lparr>kthread := None, ongoing := False, enable := 0\<rparr>))
    \<and> (sscanf_d buf = Some 1 \<and> kthread st \<noteq> None \<longrightarrow> enable_store atts sending buf count st = Ret count st)
    \<and> (sscanf_d buf = Some e \<and> e \<noteq> 0 \<and> e \<noteq> 1 \<longrightarrow> enable_store atts sending buf count st = Ret (- EINVAL) st)
    \<and> (sscanf_d buf = None \<longrightarrow> enable_store atts sending buf count st = Ret 0 st)"
proof (intro conjI impI)
  let ?s0 = "fst (atts 0)" and ?ev = "snd (atts 0)" and ?s1 = "fst (atts 1)"
  assume a: "sscanf_d buf = Some 1 \<and> kthread st = None \<and> mode st = 0 \<and> \<not> ongoing st"
  have send: "send atts 5 st = (case first_echo ?ev of
      Some k \<Rightarrow> Ret 0 (recorded (the (?ev k)) (pulse ?s0 st)) | None \<Rightarrow> Ret 0 (pulse ?s1 (pulse ?s0 st)))"
    using send_run [OF assms(1), of atts ?s0 ?ev ?s1 "snd (atts 1)" 4] a by simp
  note run = enable_one_shot_run [OF assms(1), of buf atts, where sending = sending and count = count]
  show "\<exists>st'. enable_store atts sending buf count st = Ret count st' \<and> enable st' = 1 \<and> held st' = {}
      \<and> \<not> ongoing st' \<and> (case round_distance atts of
             Some d \<Rightarrow> displays (distance_show page st') d st'
           | None \<Rightarrow> cbuf st' = cbuf st \<and> newest st' = newest st)"
  proof (cases "first_echo ?ev")
    case None
    then have "round_distance atts = None" by (simp add: round_distance_def case_prod_beta)
    with run [of 0 "pulse ?s1 (pulse ?s0 st)"] None send a assms(1) show ?thesis by simp
  next
    case (Some k)
    let ?d = "distance_of ?s0 (the (?ev k))" and ?r = "recorded (the (?ev k)) (pulse ?s0 st)"
    have d: "round_distance atts = Some ?d" using Some by (simp add: round_distance_def case_prod_beta)
    have "sample ?r = ?d" "0 \<le> newest ?r"
      using sample_push [of "pulse ?s0 st"] assms(2)
      by (simp_all add: recorded_def ring_ok_def push_sample_def)
    then have "newest ?r \<noteq> - 1" "cbuf ?r ! nat (newest ?r) = ?d" by (auto simp: sample_def)
    then have "displays (distance_show page (?r\<lparr>enable := 1\<rparr>)) ?d (?r\<lparr>enable := 1\<rparr>)"
      using assms(1) displays_text [OF distance_fits] by (simp add: shows_run)
    with run [of 0 ?r] Some send a assms(1) d show ?thesis by (intro exI [of _ "?r\<lparr>enable := 1\<rparr>"]) simp
  qed
qed (use assms(1) in \<open>auto simp: enable_store_def run_simps enable_done_def kthread_stop3_def
      intro!: sysfs_struct.equality\<close>)

theorem sysfs_enable_witness:
  "\<exists>st'. enable_store (echo_at 1 581000) False ''1'' 1 fresh_dev = Ret 1 st'
     \<and> displays (distance_show [] st') 100 st'"
proof -
  have s: "sscanf_d ''1'' = Some 1"
    by (simp add: sscanf_d_def isspace_def isdigit_def digits_val_def digit_val_def)
  have d: "round_distance (echo_at 1 581000) = Some 100"
    using echo_at_first [of 581000]
    by (simp add: round_distance_def case_prod_beta) (simp add: echo_at_def distance_of_def)
  have "ring_ok fresh_dev" by (simp add: ring_ok_def)
  from sysfs_enable [OF _ this, of "''1''" "echo_at 1 581000" False 1 "[]" 0] s d show ?thesis by auto
qed

text \<open>
  Enabling periodic sampling hangs. In periodic mode, with no thread running, writing 1
  to \<open>enable\<close> starts the thread and then takes \<open>kconfig_lock\<close> a second time, because the
  branch never gave it back: the writer spins for ever with the lock held, and so does
  everything else that needs it, the new thread's first pulse included.
\<close>

lemma sysfs_enable_periodic_hangs:
  assumes "held st = {}" and "sscanf_d buf = Some 1" and "kthread st = None" and "mode st \<noteq> 0"
  shows "\<exists>st'. enable_store atts sending buf count st = Oops SelfDeadlock st'
    \<and> kthread st' = Some (freq st) \<and> held st' = {Kconfig_lock} \<and> do_send3 att st' = Oops SelfDeadlock st'
    \<and> frequency_show page st' = Oops SelfDeadlock st'"
  using assms
  by (cases att)
     (simp add: enable_store_def run_simps kthread_run_def enable_done_def do_send3_def frequency_show_def)

lemma sysfs_enable_periodic_hangs_example:
  "\<exists>st'. enable_store no_echo False ''1'' 1 (fresh_dev\<lparr>mode := 1, freq := 3\<rparr>) = Oops SelfDeadlock st'
     \<and> kthread st' = Some 3"
proof -
  have "sscanf_d ''1'' = Some 1"
    by (simp add: sscanf_d_def isspace_def isdigit_def digits_val_def digit_val_def)
  then show ?thesis
    using sysfs_enable_periodic_hangs [of "fresh_dev\<lparr>mode := 1, freq := 3\<rparr>" "''1''" no_echo False 1 "no_echo 0" "[]"]
    by auto
qed

end
