(* ===== verification/HCSR_Platform.thy ===== *)
theory HCSR_Platform
  imports HCSR_Sysfs_Proofs
begin

text \<open>
  The platform side of the sysfs driver: creating and destroying a device
  (\<open>hc_sr04_init\<close> and \<open>hc_sr04_exit\<close> of \<open>hc_sr04.h\<close>), binding and unbinding it
  (\<open>HCSR_driver.c\<close>), registering the two platform devices (\<open>HCSR.c\<close>), opening by minor
  number. The platform bus calls \<open>probe\<close> for an unbound device and \<open>remove\<close> for a bound
  one, in any order and between any uses of the attributes; what every such history keeps
  is an invariant, by induction over the histories.
\<close>

section \<open>State\<close>

text \<open>What a device holds besides its GPIOs and its interrupt line.\<close>

datatype hres = Hcsr_mem | Misc_mem | Misc_dev | Chrdev_region | Cdev | Dev_node

text \<open>\<open>hclass\<close> is the pointer \<open>hcsr_class\<close>.\<close>

record sdev =
  dstate :: sysfs_struct
  own :: "hres set"
  hclass :: "nat option"

text \<open>
  \<open>slots\<close> is the field \<open>pdev\<close> of the two platform devices (true for \<open>HCSR_1_dev\<close>);
  \<open>hcsr_list3\<close> pairs the minor numbers with the devices; \<open>live_classes\<close> are the classes
  created and not destroyed, \<open>next_class\<close> a number not used for a class yet; the GPIOs are
  those of the board.
\<close>

record platform =
  slots :: "bool \<Rightarrow> sdev option"
  hcsr_list3 :: "(int \<times> bool) list"
  HCSR_class :: "nat option"
  class_cnt :: int
  live_classes :: "nat set"
  next_class :: nat
  sboard :: gpio

definition put :: "bool \<Rightarrow> sdev \<Rightarrow> platform \<Rightarrow> platform" where
  "put d s m = m\<lparr>slots := (slots m)(d \<mapsto> s)\<rparr>"

section \<open>Creating a device\<close>

text \<open>
  The answers of the kernel: whether the two allocations and \<open>cdev_alloc\<close> succeed, the
  results of \<open>misc_register\<close>, \<open>alloc_chrdev_region\<close> and \<open>cdev_add\<close>, and the minor number.
  \<open>class_create\<close>, \<open>device_create\<close> and \<open>device_create_file\<close>, whose results are not looked
  at, succeed.
\<close>

record init_env =
  hcsr_alloc :: bool
  misc_alloc :: bool
  misc_ret :: int
  minor_no :: int
  chrdev_ret :: int
  cdev_ok :: bool
  cdev_add_ret :: int

definition hc_sr04_init3 :: "init_env \<Rightarrow> bool \<Rightarrow> (int, platform) cmd" where
  "hc_sr04_init3 env d m =
     (if \<not> hcsr_alloc env then Oops NullDeref m
      else if \<not> misc_alloc env then Oops NullDeref m
      else
        let s0 = \<lparr>dstate = zero_hcsr3, own = {Hcsr_mem, Misc_mem}, hclass = None\<rparr> in
        if misc_ret env \<noteq> 0 then Ret 0 (put d s0 m)
        else
          let s1 = s0\<lparr>own := insert Misc_dev (own s0)\<rparr> in
          if chrdev_ret env \<noteq> 0 then Ret (- 1) (put d s1 m)
          else
            let s2 = s1\<lparr>own := insert Chrdev_region (own s1)\<rparr> in
            if \<not> cdev_ok env then Ret (- 1) (put d s2 m)
            else
              let s3 = s2\<lparr>own := insert Cdev (own s2)\<rparr> in
              if cdev_add_ret env < 0 then Ret (- 1) (put d s3 m)
              else
                let m1 = (if class_cnt m = 0
                          then m\<lparr>HCSR_class := Some (next_class m),
                            live_classes := insert (next_class m) (live_classes m),
                            next_class := Suc (next_class m)\<rparr>
                          else m);
                    m2 = m1\<lparr>class_cnt := class_cnt m1 + 1\<rparr>;
                    s4 = s3\<lparr>hclass := HCSR_class m2, dstate := init_hcsr_struct3 (dstate s3)\<rparr>;
                    m3 = m2\<lparr>hcsr_list3 := (minor_no env, d) # hcsr_list3 m2\<rparr>;
                    s5 = s4\<lparr>own := insert Dev_node (own s4)\<rparr>
                in Ret 0 (put d s5 m3))"

section \<open>Destroying a device\<close>

text \<open>
  The sampling thread has ended before anything is released. \<open>cdev_del\<close> needs the
  character device to exist, \<open>list_del\<close> the device to be in the list.
\<close>

definition hc_sr04_exit3 :: "bool \<Rightarrow> (unit, platform) cmd" where
  "hc_sr04_exit3 d m =
     (case slots m d of
        None \<Rightarrow> Oops NullDeref m
      | Some s \<Rightarrow>
          (case release_dev3 ((dstate s)\<lparr>gpios := sboard m\<rparr>) of
             Oops e st \<Rightarrow> Oops e m
           | Ret _ st \<Rightarrow>
               let s1 = s\<lparr>dstate := st, own := own s - {Dev_node}\<rparr>;
                   m1 = m\<lparr>sboard := gpios st, class_cnt := class_cnt m - 1\<rparr>;
                   m2 = (if class_cnt m1 = 0
                         then (case hclass s of None \<Rightarrow> m1 | Some c \<Rightarrow> m1\<lparr>live_classes := live_classes m1 - {c}\<rparr>)
                         else m1)
               in if Cdev \<notin> own s then Oops NullDeref (put d s1 m2)
                  else
                    let s2 = s1\<lparr>own := own s1 - {Cdev, Chrdev_region, Misc_dev}\<rparr> in
                    if d \<notin> snd ` set (hcsr_list3 m2) then Oops NullDeref (put d s2 m2)
                    else Ret () (m2\<lparr>hcsr_list3 := filter (\<lambda>c. snd c \<noteq> d) (hcsr_list3 m2),
                      slots := (slots m2)(d := None)\<rparr>)))"

section \<open>The platform driver\<close>

text \<open>The result of \<open>hc_sr04_init\<close> is not looked at.\<close>

definition HCSR_driver_probe :: "init_env \<Rightarrow> bool \<Rightarrow> (int, platform) cmd" where
  "HCSR_driver_probe env d = bnd (hc_sr04_init3 env d) (\<lambda>_. ret 0)"

definition HCSR_driver_remove :: "bool \<Rightarrow> (int, platform) cmd" where
  "HCSR_driver_remove d = bnd (hc_sr04_exit3 d) (\<lambda>_. ret 0)"

section \<open>The platform devices\<close>

text \<open>\<open>r1\<close> and \<open>r2\<close> are the answers of \<open>platform_device_register\<close>; the state is the set of registered devices.\<close>

definition HCSR_device_init :: "int \<Rightarrow> int \<Rightarrow> (int, bool set) cmd" where
  "HCSR_device_init r1 r2 =
     bnd (upd (\<lambda>regs. if r1 = 0 then insert True regs else regs)) (\<lambda>_.
     bnd (upd (\<lambda>regs. if r2 = 0 then insert False regs else regs)) (\<lambda>_.
     ret r2))"

definition HCSR_device_exit :: "(unit, bool set) cmd" where
  "HCSR_device_exit = bnd (upd (\<lambda>regs. regs - {False})) (\<lambda>_. upd (\<lambda>regs. regs - {True}))"

section \<open>Opening\<close>

definition get_curr_hcsr3 :: "int \<Rightarrow> platform \<Rightarrow> bool option" where
  "get_curr_hcsr3 minor m = map_option snd (find (\<lambda>c. fst c = minor) (hcsr_list3 m))"

definition hc_sr04_open3 :: "int \<Rightarrow> (int \<times> bool, platform) cmd" where
  "hc_sr04_open3 minor m =
     (case get_curr_hcsr3 minor m of None \<Rightarrow> Oops NullDeref m | Some d \<Rightarrow> Ret (0, d) m)"

definition hc_sr04_release3 :: "(int, platform) cmd" where
  "hc_sr04_release3 = ret 0"

section \<open>Using a device\<close>

text \<open>The operations that change a device, through its attributes or its device file.\<close>

datatype dev_op =
    Trigger string int
  | Echo_pin string int
  | Mode string int
  | Frequency string int
  | Enable "nat \<Rightarrow> u64 \<times> (nat \<Rightarrow> u64 option)" bool string int
  | Ioctl bool u32 nat "int \<times> int" "s32 \<times> u32"
  | Write "nat \<Rightarrow> u64 \<times> (nat \<Rightarrow> u64 option)" bool nat "byte list"

fun dev_call :: "gpio_env \<Rightarrow> irq_env \<Rightarrow> dev_op \<Rightarrow> (int, sysfs_struct) cmd" where
  "dev_call genv ienv (Trigger buf n) = trigger_store genv buf n"
| "dev_call genv ienv (Echo_pin buf n) = echo_store genv ienv buf n"
| "dev_call genv ienv (Mode buf n) = mode_store buf n"
| "dev_call genv ienv (Frequency buf n) = frequency_store buf n"
| "dev_call genv ienv (Enable atts sending buf n) = enable_store atts sending buf n"
| "dev_call genv ienv (Ioctl sending c failed pins wm) = hc_sr04_ioctl3 genv ienv sending c failed pins wm"
| "dev_call genv ienv (Write atts sending failed buf) = hc_sr04_write3 atts sending failed buf"

text \<open>A call on a bound device works on the GPIOs of the board.\<close>

definition on_dev :: "bool \<Rightarrow> ('a, sysfs_struct) cmd \<Rightarrow> ('a, platform) cmd" where
  "on_dev d c m =
     (case slots m d of
        None \<Rightarrow> Oops NullDeref m
      | Some s \<Rightarrow>
          (case c ((dstate s)\<lparr>gpios := sboard m\<rparr>) of
             Ret r st \<Rightarrow> Ret r (put d (s\<lparr>dstate := st\<rparr>) (m\<lparr>sboard := gpios st\<rparr>))
           | Oops e st \<Rightarrow> Oops e (put d (s\<lparr>dstate := st\<rparr>) (m\<lparr>sboard := gpios st\<rparr>))))"

section \<open>Histories\<close>

definition granted :: "init_env \<Rightarrow> bool" where
  "granted env \<longleftrightarrow> hcsr_alloc env \<and> misc_alloc env \<and> misc_ret env = 0 \<and> chrdev_ret env = 0
     \<and> cdev_ok env \<and> 0 \<le> cdev_add_ret env"

definition loaded :: "gpio \<Rightarrow> platform" where
  "loaded g = \<lparr>slots = (\<lambda>_. None), hcsr_list3 = [], HCSR_class = None, class_cnt = 0,
     live_classes = {}, next_class = 0, sboard = g\<rparr>"

text \<open>
  What the bus and the users can do, as long as the kernel grants what a new device asks
  for, gives it a minor number of its own, and no call hangs. A probe that is refused something is not
  among these steps: \<open>hc_sr04_init3\<close> has its error paths, and what they lead to is shown at the end.
\<close>

inductive plat_step :: "platform \<Rightarrow> platform \<Rightarrow> bool" where
  probe: "slots m d = None \<Longrightarrow> granted env \<Longrightarrow> minor_no env \<notin> fst ` set (hcsr_list3 m) \<Longrightarrow>
    HCSR_driver_probe env d m = Ret r m' \<Longrightarrow> plat_step m m'"
| remove: "HCSR_driver_remove d m = Ret r m' \<Longrightarrow> plat_step m m'"
| use: "on_dev d (dev_call genv ienv opn) m = Ret r m' \<Longrightarrow> plat_step m m'"

inductive_cases plat_stepE: "plat_step m m'"

definition plat_reach :: "gpio \<Rightarrow> platform \<Rightarrow> bool" where
  "plat_reach g m \<longleftrightarrow> plat_step\<^sup>*\<^sup>* (loaded g) m"

lemma plat_reach_start: "plat_reach g (loaded g)"
  by (simp add: plat_reach_def)

lemma plat_reach_step: "plat_reach g m \<Longrightarrow> plat_step m m' \<Longrightarrow> plat_reach g m'"
  by (simp add: plat_reach_def)

text \<open>
  What the two devices are meant to share, abstractly: the set of bound devices and the
  number of classes created so far. Binding the first device creates a class, binding
  another one does not.
\<close>

inductive share_step :: "bool set \<times> nat \<Rightarrow> bool set \<times> nat \<Rightarrow> bool" where
  bind: "d \<notin> B \<Longrightarrow> share_step (B, n) (insert d B, if B = {} then Suc n else n)"
| unbind: "d \<in> B \<Longrightarrow> share_step (B, n) (B - {d}, n)"

section \<open>Calls release their locks\<close>

lemma sends_unlocked:
  assumes "held st = {}"
  shows "\<exists>st'. send3 atts 5 st = Ret 0 st' \<and> held st' = {}"
  using send_unlocked [OF assms, of atts 4] by (simp add: send3_eq [OF assms])

lemma enable_unlocked:
  assumes "held st = {}" and "enable_store atts sending buf n st = Ret r st'"
  shows "held st' = {}"
proof -
  obtain u where "send3 atts 5 st = Ret 0 u" "held u = {}" using sends_unlocked [OF assms(1)] by blast
  then show ?thesis
    using assms
    by (auto simp: enable_store_def enable_done_def run_simps kthread_stop3_def kthread_run_def held_same_hc
        split: option.splits if_splits)
qed

lemma write_unlocked:
  assumes "held st = {}" and "hc_sr04_write3 atts sending failed buf st = Ret r st'"
  shows "held st' = {}"
proof -
  have send: "\<exists>u. send3 atts 5 t = Ret 0 u \<and> held u = {}" if "held t = {}" for t :: "'a hcsr_struct_scheme"
    using sends_unlocked [OF that] .
  obtain u where "send3 atts 5 st = Ret 0 u" "held u = {}" using send [OF assms(1)] by blast
  moreover obtain w where "send3 atts 5 (st\<lparr>cbuf := replicate 5 0, newest := - 1\<rparr>) = Ret 0 w" "held w = {}"
    using send [of "st\<lparr>cbuf := replicate 5 0, newest := - 1\<rparr>"] assms(1) by auto
  ultimately show ?thesis
    using assms
    by (auto simp: hc_sr04_write3_def run_simps kthread_stop3_def kthread_run_def held_same_hc Let_def
        split: if_splits)
qed

lemma setpins_unlocked:
  assumes "held st = {}" and "ioctl_SETPINs3 genv ienv failed pins st = Ret r st'"
  shows "held st' = {}"
proof (cases "failed = 0")
  case True
  then show ?thesis
    using assms unfolding True setpins3_run [OF assms(1)]
    by (auto simp: run_simps on_gpio_def setpins_error_def set_ISR_def Let_def
        split: if_splits prod.splits)
qed (use assms(2) in \<open>simp add: ioctl_SETPINs3_def run_simps\<close>)

lemma setmode_unlocked:
  "held st = {} \<Longrightarrow> ioctl_SETMODE3 sending failed wm st = Ret r st' \<Longrightarrow> held st' = {}"
  by (auto simp: ioctl_SETMODE3_def run_simps kthread_stop3_def kthread_run_def split: if_splits)

lemma dev_call_unlocked:
  assumes "held st = {}" and "dev_call genv ienv opn st = Ret r st'"
  shows "held st' = {}"
proof (cases opn)
  case (Trigger buf n)
  then show ?thesis
    using assms by (auto simp: trigger_store_run Let_def split: option.splits prod.splits if_splits)
next
  case (Echo_pin buf n)
  then show ?thesis
    using assms by (auto simp: echo_store_run Let_def split: option.splits prod.splits if_splits)
next
  case (Ioctl sending c failed pins wm)
  then show ?thesis
    using assms setpins_unlocked [OF assms(1)] setmode_unlocked [OF assms(1)]
    by (auto simp: hc_sr04_ioctl3_def run_simps split: if_splits)
next
  case (Write atts sending failed buf)
  then show ?thesis using write_unlocked [OF assms(1)] assms(2) by simp
qed (use assms enable_unlocked in
     \<open>auto simp: mode_store_def frequency_store_def run_simps Let_def split: option.splits if_splits\<close>)

section \<open>The invariant\<close>

definition bound :: "platform \<Rightarrow> bool set" where
  "bound m = {d. slots m d \<noteq> None}"

definition plat_ok :: "platform \<Rightarrow> bool" where
  "plat_ok m \<longleftrightarrow> class_cnt m = int (card (bound m))
     \<and> live_classes m = (if bound m = {} then {} else {the (HCSR_class m)})
     \<and> (\<forall>d s. slots m d = Some s \<longrightarrow> own s = UNIV \<and> hclass s = HCSR_class m \<and> HCSR_class m \<noteq> None
          \<and> held (dstate s) = {})
     \<and> distinct (map fst (hcsr_list3 m)) \<and> distinct (map snd (hcsr_list3 m))
     \<and> snd ` set (hcsr_list3 m) = bound m"

lemma hres_UNIV: "(UNIV :: hres set) = {Dev_node, Cdev, Chrdev_region, Misc_dev, Hcsr_mem, Misc_mem}"
  by (auto intro: hres.exhaust)

lemma bound_empty: "plat_ok m \<Longrightarrow> class_cnt m = 0 \<longleftrightarrow> bound m = {}"
  by (simp add: plat_ok_def)

lemma loaded_ok: "plat_ok (loaded g)"
  by (simp add: plat_ok_def loaded_def bound_def)

lemma init_ok_run:
  assumes "granted env"
  shows "hc_sr04_init3 env d m =
    (let m1 = (if class_cnt m = 0
        then m\<lparr>HCSR_class := Some (next_class m), live_classes := insert (next_class m) (live_classes m),
               next_class := Suc (next_class m)\<rparr>
        else m)
     in Ret 0 (m1\<lparr>class_cnt := class_cnt m + 1, hcsr_list3 := (minor_no env, d) # hcsr_list3 m,
          slots := (slots m)(d \<mapsto> \<lparr>dstate = init_hcsr_struct3 zero_hcsr3, own = UNIV, hclass = HCSR_class m1\<rparr>)\<rparr>))"
  using assms by (auto simp: granted_def hc_sr04_init3_def put_def Let_def hres_UNIV)

lemma init_failed_run:
  assumes "hcsr_alloc env" and "misc_alloc env" and "\<not> granted env"
  shows "\<exists>v R. hc_sr04_init3 env d m = Ret v (put d \<lparr>dstate = zero_hcsr3, own = R, hclass = None\<rparr> m)"
  using assms
  by (cases "misc_ret env = 0"; cases "chrdev_ret env = 0"; cases "cdev_ok env"; cases "cdev_add_ret env < 0")
     (auto simp: granted_def hc_sr04_init3_def Let_def)

lemma probe_ok:
  assumes ok: "plat_ok m" and d: "slots m d = None" and g: "granted env"
    and fresh: "minor_no env \<notin> fst ` set (hcsr_list3 m)" and p: "HCSR_driver_probe env d m = Ret r m'"
  shows "plat_ok m'"
proof -
  have nd: "d \<notin> bound m" using d by (simp add: bound_def)
  have b: "bound m' = insert d (bound m)" and c: "class_cnt m' = class_cnt m + 1"
    using p by (auto simp: HCSR_driver_probe_def bnd_def ret_def init_ok_run [OF g] Let_def bound_def split: if_splits)
  have "class_cnt m' = int (card (bound m'))" using ok nd by (simp add: b c plat_ok_def)
  moreover have "live_classes m' = {the (HCSR_class m')}"
    using ok p by (auto simp: HCSR_driver_probe_def bnd_def ret_def init_ok_run [OF g] Let_def plat_ok_def split: if_splits)
  moreover have "own s = UNIV \<and> hclass s = HCSR_class m' \<and> HCSR_class m' \<noteq> None \<and> held (dstate s) = {}"
    if "slots m' e = Some s" for e s
  proof (cases "class_cnt m = 0")
    case True
    then have "slots m e' = None" for e' using bound_empty [OF ok] by (auto simp: bound_def)
    with True that p show ?thesis
      by (auto simp: HCSR_driver_probe_def bnd_def ret_def init_ok_run [OF g] Let_def init_hcsr_struct3_def
          split: if_splits)
  next
    case False
    then obtain e' s' where "slots m e' = Some s'" using bound_empty [OF ok] by (auto simp: bound_def)
    then have "HCSR_class m \<noteq> None" using ok by (auto simp: plat_ok_def)
    with False that p ok show ?thesis
      by (auto simp: HCSR_driver_probe_def bnd_def ret_def init_ok_run [OF g] Let_def init_hcsr_struct3_def
          plat_ok_def split: if_splits)
  qed
  moreover have "hcsr_list3 m' = (minor_no env, d) # hcsr_list3 m"
    using p by (auto simp: HCSR_driver_probe_def bnd_def ret_def init_ok_run [OF g] Let_def split: if_splits)
  ultimately show ?thesis
    using ok fresh nd by (auto simp: plat_ok_def b)
qed

text \<open>Removing a bound device of a good platform, written out.\<close>

definition exit_released :: "sdev \<Rightarrow> platform \<Rightarrow> sysfs_struct" where
  "exit_released s m = state_of (release_dev3 ((dstate s)\<lparr>gpios := sboard m\<rparr>))"

lemma remove_run:
  assumes ok: "plat_ok m" and s: "slots m d = Some s"
  shows "HCSR_driver_remove d m = Ret 0 (m\<lparr>sboard := gpios (exit_released s m), class_cnt := class_cnt m - 1,
    live_classes := (if class_cnt m = 1 then {} else live_classes m),
    hcsr_list3 := filter (\<lambda>c. snd c \<noteq> d) (hcsr_list3 m), slots := (slots m)(d := None)\<rparr>)"
proof -
  have dev: "own s = UNIV" "hclass s = HCSR_class m" "HCSR_class m \<noteq> None" "held (dstate s) = {}"
    using ok s by (auto simp: plat_ok_def)
  have b: "d \<in> bound m" using s by (simp add: bound_def)
  then have l: "live_classes m = {the (HCSR_class m)}" "d \<in> snd ` set (hcsr_list3 m)"
    using ok by (auto simp: plat_ok_def)
  obtain c where c: "HCSR_class m = Some c" using dev(3) by blast
  obtain st where st: "release_dev3 ((dstate s)\<lparr>gpios := sboard m\<rparr>) = Ret () st"
    using release_dev3_run [of "(dstate s)\<lparr>gpios := sboard m\<rparr>"] dev(4) by auto
  show ?thesis
    using l dev(1) dev(2) [unfolded c] c
    by (simp add: HCSR_driver_remove_def bnd_def ret_def hc_sr04_exit3_def exit_released_def s st Let_def)
qed

text \<open>Removing a device that was never linked into the list.\<close>

lemma remove_unlinked_run:
  assumes "slots m d = Some s" and "release_dev3 ((dstate s)\<lparr>gpios := sboard m\<rparr>) = Ret () st"
    and "hclass s = None" and "d \<notin> snd ` set (hcsr_list3 m)"
  shows "\<exists>s'. HCSR_driver_remove d m =
    Oops NullDeref (put d s' (m\<lparr>sboard := gpios st, class_cnt := class_cnt m - 1\<rparr>))"
proof -
  let ?s1 = "s\<lparr>dstate := st, own := own s - {Dev_node}\<rparr>"
  let ?s' = "if Cdev \<in> own s then ?s1\<lparr>own := own ?s1 - {Cdev, Chrdev_region, Misc_dev}\<rparr> else ?s1"
  have "hc_sr04_exit3 d m = Oops NullDeref (put d ?s' (m\<lparr>sboard := gpios st, class_cnt := class_cnt m - 1\<rparr>))"
    using assms(3,4) by (simp add: hc_sr04_exit3_def assms(1,2) Let_def)
  then show ?thesis by (intro exI [of _ ?s']) (simp only: HCSR_driver_remove_def bnd_def outcome.case)
qed

lemma remove_ok:
  assumes ok: "plat_ok m" and r: "HCSR_driver_remove d m = Ret r m'"
  shows "plat_ok m'"
proof -
  obtain s where s: "slots m d = Some s"
    using r by (auto simp: HCSR_driver_remove_def bnd_def hc_sr04_exit3_def split: option.splits)
  note m' = remove_run [OF ok s, unfolded r, simplified, THEN conjunct2]
  have db: "d \<in> bound m" using s by (simp add: bound_def)
  have b: "bound m' = bound m - {d}" by (intro set_eqI) (simp add: m' bound_def)
  have "card (bound m') = card (bound m) - 1" "0 < card (bound m)"
    using db by (simp_all add: b card_Diff_singleton card_gt_0_iff) blast
  moreover have c1: "class_cnt m' = class_cnt m - 1" by (simp add: m')
  moreover have "class_cnt m = int (card (bound m))" using ok by (simp add: plat_ok_def)
  ultimately have c: "class_cnt m' = int (card (bound m'))" by linarith
  then have "class_cnt m = 1 \<longleftrightarrow> bound m' = {}" unfolding c1 by (simp add: algebra_simps)
  then have live: "live_classes m' = (if bound m' = {} then {} else {the (HCSR_class m')})"
    using ok db by (auto simp: m' plat_ok_def)
  have l: "hcsr_list3 m' = filter (\<lambda>c. snd c \<noteq> d) (hcsr_list3 m)" by (simp add: m')
  have img: "snd ` set (filter (\<lambda>c. snd c \<noteq> x) xs) = snd ` set xs - {x}" for x :: 'b and xs :: "('a \<times> 'b) list"
    by auto
  have "own t = UNIV \<and> hclass t = HCSR_class m' \<and> HCSR_class m' \<noteq> None \<and> held (dstate t) = {}"
    if "slots m' e = Some t" for e t
    using that ok by (cases "e = d") (auto simp: m' plat_ok_def)
  then show ?thesis
    using ok c live unfolding plat_ok_def l img b by (auto simp only: distinct_map_filter)
qed

lemma use_ok:
  assumes ok: "plat_ok m" and u: "on_dev d (dev_call genv ienv opn) m = Ret r m'"
  shows "plat_ok m'"
proof -
  obtain s st where s: "slots m d = Some s" "dev_call genv ienv opn ((dstate s)\<lparr>gpios := sboard m\<rparr>) = Ret r st"
    "m' = put d (s\<lparr>dstate := st\<rparr>) (m\<lparr>sboard := gpios st\<rparr>)"
    using u by (auto simp: on_dev_def split: option.splits outcome.splits)
  have "held (dstate s) = {}" using ok s(1) by (auto simp: plat_ok_def)
  then have h: "held st = {}" using dev_call_unlocked [OF _ s(2)] by simp
  have "e \<in> bound m' \<longleftrightarrow> e \<in> bound m" for e
    using s(1) by (cases "e = d") (simp_all add: s(3) put_def bound_def)
  then have b: "bound m' = bound m" by blast
  show ?thesis using ok s(1) h unfolding plat_ok_def b by (auto simp: s(3) put_def)
qed

lemma plat_step_ok: "plat_step m m' \<Longrightarrow> plat_ok m \<Longrightarrow> plat_ok m'"
  by (erule plat_stepE) (auto intro: probe_ok remove_ok use_ok)

definition plat_abs :: "platform \<Rightarrow> bool set \<times> nat" where
  "plat_abs m = (bound m, next_class m)"

lemma plat_step_share:
  assumes "plat_step m m'" and ok: "plat_ok m"
  shows "share_step (plat_abs m) (plat_abs m') \<or> plat_abs m' = plat_abs m"
  using assms(1)
proof (cases rule: plat_step.cases)
  case (probe d env r)
  have "d \<notin> bound m" using probe(1) by (simp add: bound_def)
  moreover have "bound m' = insert d (bound m)" "next_class m' = (if bound m = {} then Suc (next_class m) else next_class m)"
    using probe(2,4) bound_empty [OF ok]
    by (auto simp: HCSR_driver_probe_def bnd_def ret_def init_ok_run Let_def bound_def split: if_splits)
  ultimately show ?thesis using share_step.bind [of d "bound m" "next_class m"] by (simp add: plat_abs_def)
next
  case (remove d r)
  obtain s where s: "slots m d = Some s"
    using remove by (auto simp: HCSR_driver_remove_def bnd_def hc_sr04_exit3_def split: option.splits)
  note m' = remove_run [OF ok s, unfolded remove, simplified, THEN conjunct2]
  have "bound m' = bound m - {d}" by (intro set_eqI) (simp add: m' bound_def)
  moreover have "d \<in> bound m" "next_class m' = next_class m" using s by (simp_all add: bound_def m')
  ultimately show ?thesis using share_step.unbind [of d "bound m" "next_class m"] by (simp add: plat_abs_def)
next
  case (use d genv ienv opn r)
  then obtain s st where s: "slots m d = Some s" "m' = put d (s\<lparr>dstate := st\<rparr>) (m\<lparr>sboard := gpios st\<rparr>)"
    by (auto simp: on_dev_def split: option.splits outcome.splits)
  have "e \<in> bound m' \<longleftrightarrow> e \<in> bound m" for e
    using s by (cases "e = d") (simp_all add: put_def bound_def)
  then show ?thesis using s(2) by (auto simp: plat_abs_def put_def)
qed

interpretation bus: simulation "\<lambda>m. \<exists>g. m = loaded g" plat_step "\<lambda>a. a = ({}, 0)" share_step plat_abs plat_ok
  by unfold_locales
     (auto intro: loaded_ok plat_step_ok dest: plat_step_share, simp add: plat_abs_def loaded_def bound_def)

lemma plat_reach_ok: "plat_reach g m \<Longrightarrow> plat_ok m"
  unfolding plat_reach_def by (rule bus.inv_reachable) auto

lemma plat_reach_share: "plat_reach g m \<Longrightarrow> share_step\<^sup>*\<^sup>* ({}, 0) (bound m, next_class m)"
  using bus.simulates [of "loaded g" m] by (auto simp: plat_reach_def plat_abs_def loaded_def bound_def)

section \<open>Properties\<close>

text \<open>
  (C20) The shared class and the devices, in every history of binding, unbinding and use of
  the two devices in which the kernel grants everything a probe asks for, gives every device a minor number
  that is not in use, and every call returns. (After a probe to which the kernel refused something the counter is
  off and unbinding faults, as is shown below.) In these histories the counter is the number of bound devices; exactly one class exists
  while a device is bound, all bound devices belong to it, and none exists otherwise; every
  bound device holds all its resources, no lock is left taken, and opening its minor number
  finds it. Removing a bound device succeeds. The history as a whole is one of the
  abstract sharing discipline: a class is created when the first device is bound, and only
  then.
\<close>

theorem platform_invariant:
  assumes "plat_reach g m"
  shows "class_cnt m = int (card {d. slots m d \<noteq> None})
    \<and> live_classes m = (if \<forall>d. slots m d = None then {} else {the (HCSR_class m)})
    \<and> (\<forall>d s. slots m d = Some s \<longrightarrow> own s = UNIV \<and> hclass s = HCSR_class m \<and> held (dstate s) = {}
        \<and> (\<exists>minor. hc_sr04_open3 minor m = Ret (0, d) m) \<and> (\<exists>m'. HCSR_driver_remove d m = Ret 0 m'))
    \<and> (\<forall>minor d. hc_sr04_open3 minor m = Ret (0, d) m \<longrightarrow> slots m d \<noteq> None)
    \<and> share_step\<^sup>*\<^sup>* ({}, 0) ({d. slots m d \<noteq> None}, next_class m)"
proof -
  have ok: "plat_ok m" using plat_reach_ok [OF assms] .
  have "\<exists>minor. hc_sr04_open3 minor m = Ret (0, d) m" if d: "slots m d = Some s" for d s
  proof -
    from ok d have "d \<in> snd ` set (hcsr_list3 m)" by (auto simp: plat_ok_def bound_def)
    then obtain minor where m: "(minor, d) \<in> set (hcsr_list3 m)" by auto
    have "find (\<lambda>c. fst c = minor) (hcsr_list3 m) = Some (minor, d)"
      using ok m by (intro find_unique) (auto simp: plat_ok_def)
    then show ?thesis by (intro exI [of _ minor]) (simp add: hc_sr04_open3_def get_curr_hcsr3_def)
  qed
  moreover have "slots m d \<noteq> None" if "hc_sr04_open3 minor m = Ret (0, d) m" for minor d
  proof -
    from that have "d \<in> snd ` set (hcsr_list3 m)"
      by (auto simp: hc_sr04_open3_def get_curr_hcsr3_def split: option.splits dest!: find_in_set)
    then show ?thesis using ok by (auto simp: plat_ok_def bound_def)
  qed
  moreover have "(bound m = {}) = (\<forall>d. slots m d = None)" by (auto simp: bound_def)
  ultimately show ?thesis
    using ok remove_run [OF ok] plat_reach_share [OF assms] by (simp add: plat_ok_def bound_def)
qed

definition easy_init :: "int \<Rightarrow> init_env" where
  "easy_init minor = \<lparr>hcsr_alloc = True, misc_alloc = True, misc_ret = 0, minor_no = minor, chrdev_ret = 0,
     cdev_ok = True, cdev_add_ret = 0\<rparr>"

definition no_gpio :: gpio where
  "no_gpio = \<lparr>requested = {}, dirs = (\<lambda>_. None), bad_free = []\<rparr>"

text \<open>The platform after the first device was bound.\<close>

definition one_bound :: platform where
  "one_bound = (loaded no_gpio)\<lparr>HCSR_class := Some 0, live_classes := {0}, next_class := 1, class_cnt := 1,
     hcsr_list3 := [(57, True)],
     slots := (\<lambda>_. None)(True \<mapsto> \<lparr>dstate = fresh_dev, own = UNIV, hclass = Some 0\<rparr>)\<rparr>"

lemma one_bound_probe: "HCSR_driver_probe (easy_init 57) True (loaded no_gpio) = Ret 0 one_bound"
  by (simp add: HCSR_driver_probe_def bnd_def ret_def init_ok_run granted_def easy_init_def loaded_def
      one_bound_def fresh_dev_def)

lemma one_bound_reach: "plat_reach no_gpio one_bound"
  by (rule plat_reach_step [OF plat_reach_start plat_step.probe [OF _ _ _ one_bound_probe]])
     (simp_all add: loaded_def granted_def easy_init_def)

theorem platform_invariant_witness:
  "class_cnt one_bound = int (card {d. slots one_bound d \<noteq> None}) \<and> (\<exists>m'. HCSR_driver_remove True one_bound = Ret 0 m')"
proof -
  have "slots one_bound True = Some \<lparr>dstate = fresh_dev, own = UNIV, hclass = Some 0\<rparr>"
    by (simp add: one_bound_def)
  then show ?thesis using platform_invariant [OF one_bound_reach] by blast
qed

text \<open>
  (C40) A device whose creation fails cannot be removed. If \<open>misc_register\<close>,
  \<open>alloc_chrdev_region\<close>, \<open>cdev_alloc\<close> or \<open>cdev_add\<close> fails, in whatever history, binding the
  device nevertheless reports success. Unbinding it then dereferences a null pointer, after
  it has freed the GPIOs behind pin 0, which may belong to the other device, and lowered
  the count of bound devices below their number.
\<close>

theorem platform_failed_probe:
  assumes "plat_reach g m" and "slots m d = None" and "hcsr_alloc env" and "misc_alloc env" and "\<not> granted env"
  shows "\<exists>m' m''. HCSR_driver_probe env d m = Ret 0 m' \<and> HCSR_driver_remove d m' = Oops NullDeref m''
    \<and> class_cnt m'' = int (card {e. e \<noteq> d \<and> slots m'' e \<noteq> None}) - 1
    \<and> requested (sboard m'') = requested (sboard m) - {0, 18, 19, 66}"
proof -
  have ok: "plat_ok m" using plat_reach_ok [OF assms(1)] .
  have db: "d \<notin> bound m" using assms(2) by (simp add: bound_def)
  then have nl: "d \<notin> snd ` set (hcsr_list3 m)" using ok by (simp add: plat_ok_def)
  have "bound m = {e. e \<noteq> d \<and> slots m e \<noteq> None}" using db unfolding bound_def by blast
  then have cnt: "class_cnt m = int (card {e. e \<noteq> d \<and> slots m e \<noteq> None})"
    using ok by (simp only: plat_ok_def)
  obtain s where s: "HCSR_driver_probe env d m = Ret 0 (put d s m)" "dstate s = zero_hcsr3" "hclass s = None"
    using init_failed_run [OF assms(3-5), of d m] by (auto simp: HCSR_driver_probe_def bnd_def ret_def)
  let ?st = "zero_hcsr3\<lparr>gpios := fold gpio_free [0, 18, 66, 0, 18, 19, 66] (sboard m)\<rparr>"
  have st: "release_dev3 (zero_hcsr3\<lparr>gpios := sboard m\<rparr>) = Ret () ?st"
    by (simp add: release_dev3_run zero_hcsr3_def run_simps free_gpio_def freeTrig_eq freeEcho_eq gpios_of_pins)
  have "requested (fold gpio_free [0, 18, 66, 0, 18, 19, 66] (sboard m)) = requested (sboard m) - {0, 18, 19, 66}"
    unfolding free_always by auto
  then have "requested (gpios ?st) = requested (sboard m) - {0, 18, 19, 66}" by simp
  moreover obtain s' where r: "HCSR_driver_remove d (put d s m) =
      Oops NullDeref (put d s' ((put d s m)\<lparr>sboard := gpios ?st, class_cnt := class_cnt m - 1\<rparr>))"
    using remove_unlinked_run [of "put d s m" d s ?st] s(2,3) st nl by (auto simp: put_def)
  moreover have "{e. e \<noteq> d \<and> slots (put d s' ((put d s m)\<lparr>sboard := b, class_cnt := n\<rparr>)) e \<noteq> None} =
      {e. e \<noteq> d \<and> slots m e \<noteq> None}" for b n
    by (intro set_eqI) (simp add: put_def)
  ultimately show ?thesis
    using s(1) cnt by (intro exI [of _ "put d s m"] exI conjI) (assumption | simp add: put_def)+
qed

theorem platform_failed_probe_witness:
  "\<exists>m' m''. HCSR_driver_probe ((easy_init 57)\<lparr>misc_ret := - 16\<rparr>) True (loaded no_gpio) = Ret 0 m'
     \<and> HCSR_driver_remove True m' = Oops NullDeref m''"
proof -
  have "\<not> granted ((easy_init 57)\<lparr>misc_ret := - 16\<rparr>)" by (simp add: granted_def)
  with platform_failed_probe [OF plat_reach_start [of no_gpio], of True "(easy_init 57)\<lparr>misc_ret := - 16\<rparr>"]
  show ?thesis by (auto simp: loaded_def easy_init_def)
qed

text \<open>A history that configures the first device.\<close>

lemma configured_reach:
  "\<exists>m s. plat_reach no_gpio m \<and> slots m True = Some s \<and> configured ((dstate s)\<lparr>gpios := sboard m\<rparr>)
    \<and> requested (sboard m) = {6, 36, 15, 42, 43} \<and> dev_gpios (dstate s) = {6, 36, 15, 42, 43}"
proof -
  let ?s = "\<lparr>dstate = fresh_dev, own = UNIV, hclass = Some 0\<rparr>"
  have s: "slots one_bound True = Some ?s" "sboard one_bound = no_gpio" by (simp_all add: one_bound_def loaded_def)
  have f: "fresh_dev\<lparr>gpios := no_gpio\<rparr> = fresh_dev"
    by (simp add: fresh_dev_def no_gpio_def init_hcsr_struct3_def zero_hcsr3_def)
  have u: "unconfigured (6, 15) fresh_dev = fresh_dev\<lparr>trigger_pin := 6, echo_pin := 15\<rparr>"
    by (simp add: unconfigured_def run_simps free_gpio_def freeTrig_eq freeEcho_eq gpios_of_pins
        fresh_dev_def init_hcsr_struct3_def zero_hcsr3_def)
  obtain st where st: "ioctl_SETPINs easy_gpio easy_irq 0 (6, 15) fresh_dev = Ret 0 st" "configured st"
    "trigger_pin st = 6" "echo_pin st = 15" "requested (gpios st) = dev_gpios st"
    using setpins_ok [of fresh_dev easy_gpio easy_irq "(6, 15)"]
    by (auto simp: u grantable_def easy_gpio_def easy_irq_def)
  then have "dev_call easy_gpio easy_irq (Ioctl False SETPINS 0 (6, 15) (0, 0)) fresh_dev = Ret 0 st"
    using setpins3_eq [of fresh_dev easy_gpio easy_irq 0 "(6, 15)" st] by (simp add: hc_sr04_ioctl3_def)
  then have "on_dev True (dev_call easy_gpio easy_irq (Ioctl False SETPINS 0 (6, 15) (0, 0))) one_bound =
      Ret 0 (put True (?s\<lparr>dstate := st\<rparr>) (one_bound\<lparr>sboard := gpios st\<rparr>))"
    by (simp add: on_dev_def s f del: dev_call.simps)
  from plat_reach_step [OF one_bound_reach plat_step.use [OF this]]
  have "plat_reach no_gpio (put True (?s\<lparr>dstate := st\<rparr>) (one_bound\<lparr>sboard := gpios st\<rparr>))" .
  moreover have "dev_gpios st = {6, 36, 15, 42, 43}" using st(3,4) by (auto simp: dev_gpios_def gpios_of_pins)
  moreover have "st\<lparr>gpios := gpios st\<rparr> = st" by simp
  ultimately show ?thesis
    using st(2,5)
    by (intro exI [of _ "put True (?s\<lparr>dstate := st\<rparr>) (one_bound\<lparr>sboard := gpios st\<rparr>)"]
        exI [of _ "?s\<lparr>dstate := st\<rparr>"]) (simp add: put_def)
qed

text \<open>
  Removing a configured device gives back what it holds. In any history, unbinding a
  device that is configured on the board leaves exactly the GPIOs of the others requested,
  frees nothing twice and releases its interrupt line; the class is destroyed with the last
  device and only then.
\<close>

lemma platform_remove_gives_back:
  assumes "plat_reach g m" and "slots m d = Some s"
    and "configured ((dstate s)\<lparr>gpios := sboard m\<rparr>)"
  shows "\<exists>m'. HCSR_driver_remove d m = Ret 0 m' \<and> slots m' d = None
    \<and> requested (sboard m') = requested (sboard m) - dev_gpios (dstate s)
    \<and> bad_free (sboard m') = bad_free (sboard m)
    \<and> irqs (exit_released s m) = {} \<and> bad_irq (exit_released s m) = bad_irq (dstate s)
    \<and> live_classes m' = (if \<exists>e. slots m' e \<noteq> None then live_classes m else {})"
proof -
  let ?st = "(dstate s)\<lparr>gpios := sboard m\<rparr>"
  have ok: "plat_ok m" using plat_reach_ok [OF assms(1)] .
  have g: "dev_gpios ?st = dev_gpios (dstate s)" by (simp add: dev_gpios_def)
  have "held ?st = {}" "irq_done ?st" using assms(3) by (simp_all add: configured_def)
  then have "exit_released s m = exit_dev ?st"
    by (simp add: exit_released_def release_dev3_run exit_dev_def)
  note e = exit_configured [OF assms(3), folded this, unfolded g]
  obtain m' where m': "HCSR_driver_remove d m = Ret 0 m'" "slots m' = (slots m)(d := None)"
    "sboard m' = gpios (exit_released s m)" "live_classes m' = (if class_cnt m = 1 then {} else live_classes m)"
    "class_cnt m' = class_cnt m - 1"
    using remove_run [OF ok assms(2)] by auto
  have "plat_ok m'" using remove_ok [OF ok m'(1)] .
  then have "class_cnt m = 1 \<longleftrightarrow> \<not> (\<exists>e. slots m' e \<noteq> None)"
    using bound_empty [of m'] by (auto simp: m'(5) bound_def)
  with m' e show ?thesis by (intro exI [of _ m']) (auto simp del: split_paired_Ex)
qed

lemma platform_remove_gives_back_example:
  "\<exists>m m'. plat_reach no_gpio m \<and> requested (sboard m) \<noteq> {} \<and> HCSR_driver_remove True m = Ret 0 m'
     \<and> requested (sboard m') = {}"
proof -
  obtain m s where m: "plat_reach no_gpio m" "slots m True = Some s" "configured ((dstate s)\<lparr>gpios := sboard m\<rparr>)"
    "requested (sboard m) = {6, 36, 15, 42, 43}" "dev_gpios (dstate s) = {6, 36, 15, 42, 43}"
    using configured_reach by blast
  then show ?thesis using platform_remove_gives_back [OF m(1-3)] by auto
qed

end
