(* ===== verification/Sensor_Machine.thy ===== *)
theory Sensor_Machine
  imports HCSR_Proofs
begin

text \<open>
  A sensor device on a multiprocessor, for both sensor drivers: any number of user threads,
  the sampling threads and the echo interrupt, all interleaved. Taking a spin lock, every access to the ring
  under its lock, the section under another lock and every access outside a section are steps of their own; an interrupt
  arrives on the processor of a thread, which does not go on before the handler has returned.
  What the driver does at each of its program points is a value of type \<open>code\<close>, given by the
  theories of the drivers; here are the machine that runs it and, as locales, the laws
  under which a driver keeps its locks, its flag and its ring consistent, under which a measurement ends
  and under which its threads do not block each other.
\<close>

section \<open>The machine\<close>

text \<open>Sampling threads are numbered in the order in which they were started, from 1.\<close>

datatype who = User nat | Kth nat | Handler

fun role :: "who \<Rightarrow> nat" where
  "role (User n) = 0"
| "role (Kth k) = 1"
| "role Handler = 2"

text \<open>
  \<open>own\<close> is the holder of a lock, \<open>intr\<close> the thread on whose processor the handler runs,
  \<open>started\<close> the number of sampling threads started so far, \<open>stopped\<close> those that were told to
  stop. The last three fields only record: the distances stored since the ring was cleared,
  all distances stored, and the times of the pulses.
\<close>

record ('z, 'p) hsys =
  dev :: "'z hcsr_struct_scheme"
  own :: "hlock \<Rightarrow> who option"
  pc :: "who \<Rightarrow> 'p"
  intr :: "who option"
  started :: nat
  stopped :: "who set"
  hfault :: "fault option"
  since :: "u32 list"
  stored :: "u32 list"
  stamps :: "u64 list"

text \<open>
  The code of a driver: the lock a point waits for and where its new holder goes on, the locks held at a
  point, the step from a point that waits for no lock, the first point of a call, the points
  outside a call, and the points where a thread that does not exist yet, a sampling thread and the handler are.
\<close>

record ('z, 'p, 'c) code =
  acq_at :: "'p \<Rightarrow> (hlock \<times> 'p) option"
  hold_at :: "'p \<Rightarrow> hlock set"
  act_at :: "who \<Rightarrow> u64 \<Rightarrow> bool \<Rightarrow> 'p \<Rightarrow> ('z, 'p) hsys \<Rightarrow> ('p \<times> ('z, 'p) hsys) option"
  entry_at :: "'c \<Rightarrow> 'p"
  rest_at :: "'p \<Rightarrow> bool"
  idle_at :: 'p
  thread_at :: 'p
  irq_at :: 'p

abbreviation set_dev :: "('z hcsr_struct_scheme \<Rightarrow> 'z hcsr_struct_scheme) \<Rightarrow> ('z, 'p) hsys \<Rightarrow> ('z, 'p) hsys" where
  "set_dev f s \<equiv> s\<lparr>dev := f (dev s)\<rparr>"

text \<open>\<open>kthread_run\<close>: a new thread at point \<open>p\<close>, and the pointer to it.\<close>

definition start_thread :: "'p \<Rightarrow> ('z, 'p) hsys \<Rightarrow> ('z, 'p) hsys" where
  "start_thread p s = s\<lparr>dev := (dev s)\<lparr>kthread := Some (freq (dev s))\<rparr>, started := Suc (started s),
     pc := (pc s)(Kth (Suc (started s)) := p)\<rparr>"

text \<open>Moving on gives back the locks that the new point does not hold.\<close>

definition move :: "('z, 'p, 'c) code \<Rightarrow> who \<Rightarrow> 'p \<Rightarrow> ('z, 'p) hsys \<Rightarrow> ('z, 'p) hsys" where
  "move C w p s = s\<lparr>pc := (pc s)(w := p),
     own := (\<lambda>l. if l \<in> hold_at C (pc s w) \<and> l \<notin> hold_at C p then None else own s l)\<rparr>"

text \<open>A step of \<open>w\<close>; \<open>now\<close> is the time, \<open>bad\<close> says that a copy to the user fails.\<close>

definition sexec :: "('z, 'p, 'c) code \<Rightarrow> u64 \<Rightarrow> bool \<Rightarrow> who \<Rightarrow> ('z, 'p) hsys \<Rightarrow> ('z, 'p) hsys option" where
  "sexec C now bad w s =
     (if hfault s \<noteq> None \<or> intr s = Some w then None
      else case acq_at C (pc s w) of
          Some (l, p) \<Rightarrow> if own s l = None then Some (s\<lparr>own := (own s)(l \<mapsto> w), pc := (pc s)(w := p)\<rparr>) else None
        | None \<Rightarrow> (case act_at C w now bad (pc s w) s of None \<Rightarrow> None | Some (p, s') \<Rightarrow> Some (move C w p s')))"

text \<open>
  With \<open>masked\<close>, interrupts are off on a processor while a thread on it holds a lock that the
  handler takes, which the drivers do not ask for.
\<close>

definition may_interrupt :: "('z, 'p, 'c) code \<Rightarrow> bool \<Rightarrow> who option \<Rightarrow> ('z, 'p) hsys \<Rightarrow> bool" where
  "may_interrupt C masked v s \<longleftrightarrow> pc s Handler = idle_at C \<and>
     (case v of None \<Rightarrow> True
      | Some w \<Rightarrow> \<not> rest_at C (pc s w)
          \<and> (masked \<longrightarrow> Ongoing_lock \<notin> hold_at C (pc s w) \<and> Cir_buf_lock \<notin> hold_at C (pc s w)))"

text \<open>A step is labelled with who takes it.\<close>

inductive sstep :: "('z, 'p, 'c) code \<Rightarrow> bool \<Rightarrow> who option \<Rightarrow> ('z, 'p) hsys \<Rightarrow> ('z, 'p) hsys \<Rightarrow> bool"
  for C masked where
  Call: "hfault s = None \<Longrightarrow> rest_at C (pc s (User n)) \<Longrightarrow>
    sstep C masked None s (s\<lparr>pc := (pc s)(User n := entry_at C op)\<rparr>)"
| Interrupt: "hfault s = None \<Longrightarrow> may_interrupt C masked v s \<Longrightarrow>
    sstep C masked None s (s\<lparr>pc := (pc s)(Handler := irq_at C), intr := v\<rparr>)"
| Run: "sexec C now bad w s = Some s' \<Longrightarrow> sstep C masked (Some w) s s'"

abbreviation ssteps :: "('z, 'p, 'c) code \<Rightarrow> bool \<Rightarrow> ('z, 'p) hsys \<Rightarrow> ('z, 'p) hsys \<Rightarrow> bool" where
  "ssteps C masked \<equiv> (\<lambda>s s'. \<exists>x. sstep C masked x s s')\<^sup>*\<^sup>*"

inductive sruns :: "('z, 'p, 'c) code \<Rightarrow> bool \<Rightarrow> who option list \<Rightarrow> ('z, 'p) hsys \<Rightarrow> ('z, 'p) hsys \<Rightarrow> bool"
  for C masked where
  Stop: "sruns C masked [] s s"
| Go: "sstep C masked x s s1 \<Longrightarrow> sruns C masked xs s1 s' \<Longrightarrow> sruns C masked (x # xs) s s'"

text \<open>A device after the module was loaded, its pins set and nobody in it.\<close>

definition new_dev :: "'z hcsr_struct_scheme \<Rightarrow> bool" where
  "new_dev d \<longleftrightarrow> newest d = - 1 \<and> cbuf d = replicate NUM_DATA 0 \<and> \<not> ongoing d \<and> kthread d = None \<and> kstart d = 0"

definition hsys_of :: "('z, 'p, 'c) code \<Rightarrow> 'z hcsr_struct_scheme \<Rightarrow> ('z, 'p) hsys" where
  "hsys_of C d = \<lparr>dev = d, own = (\<lambda>_. None), pc = (\<lambda>_. idle_at C), intr = None, started = 0, stopped = {},
     hfault = None, since = [], stored = [], stamps = []\<rparr>"

lemma sexec_cases [consumes 1, case_names Take Act]:
  assumes "sexec C now bad w s = Some s'"
  obtains l p where "hfault s = None" "intr s \<noteq> Some w" "acq_at C (pc s w) = Some (l, p)" "own s l = None"
      "s' = s\<lparr>own := (own s)(l \<mapsto> w), pc := (pc s)(w := p)\<rparr>"
    | p s1 where "hfault s = None" "intr s \<noteq> Some w" "acq_at C (pc s w) = None"
      "act_at C w now bad (pc s w) s = Some (p, s1)" "s' = move C w p s1"
proof (cases "acq_at C (pc s w)")
  case None
  with assms that(2) show ?thesis by (auto simp: sexec_def split: if_splits option.splits)
next
  case (Some lp)
  with assms that(1) [of "fst lp" "snd lp"] show ?thesis by (auto simp: sexec_def split: if_splits prod.splits)
qed

lemma move_sel [simp]:
  "dev (move C w p s) = dev s" "intr (move C w p s) = intr s" "started (move C w p s) = started s"
  "since (move C w p s) = since s" "stored (move C w p s) = stored s" "stamps (move C w p s) = stamps s"
  "hfault (move C w p s) = hfault s" "stopped (move C w p s) = stopped s" "pc (move C w p s) = (pc s)(w := p)"
  by (simp_all add: move_def)

lemma sruns_ssteps: "sruns C m xs s s' \<Longrightarrow> ssteps C m s s'"
proof (induction rule: sruns.induct)
  case (Go x s s1 xs s')
  then show ?case by (intro converse_rtranclp_into_rtranclp [of _ s s1]) auto
qed simp

lemma ssteps_snoc: "ssteps C m s s1 \<Longrightarrow> sstep C m x s1 s' \<Longrightarrow> ssteps C m s s'"
  by (erule rtranclp.rtrancl_into_rtrancl) (rule exI)

section \<open>Runs\<close>

datatype 'c hevent = E_call nat 'c | E_int "who option" | E_run who u64

fun hrun :: "('z, 'p, 'c) code \<Rightarrow> bool \<Rightarrow> 'c hevent list \<Rightarrow> ('z, 'p) hsys \<Rightarrow> ('z, 'p) hsys option" where
  "hrun C m [] s = Some s"
| "hrun C m (E_call n op # es) s =
     (if hfault s = None \<and> rest_at C (pc s (User n)) then hrun C m es (s\<lparr>pc := (pc s)(User n := entry_at C op)\<rparr>) else None)"
| "hrun C m (E_int v # es) s =
     (if hfault s = None \<and> may_interrupt C m v s
      then hrun C m es (s\<lparr>pc := (pc s)(Handler := irq_at C), intr := v\<rparr>) else None)"
| "hrun C m (E_run w now # es) s = (case sexec C now False w s of None \<Rightarrow> None | Some s' \<Rightarrow> hrun C m es s')"

fun event_of :: "'c hevent \<Rightarrow> who option" where
  "event_of (E_run w now) = Some w"
| "event_of _ = None"

lemma hrun_sruns: "hrun C m es s = Some s' \<Longrightarrow> sruns C m (map event_of es) s s'"
proof (induction C m es s rule: hrun.induct)
  case (1 C m s)
  then show ?case by (auto intro: sruns.Stop)
next
  case (2 C m n op es s)
  then have "sstep C m None s (s\<lparr>pc := (pc s)(User n := entry_at C op)\<rparr>)"
    "sruns C m (map event_of es) (s\<lparr>pc := (pc s)(User n := entry_at C op)\<rparr>) s'"
    by (auto intro: sstep.Call split: if_splits)
  then show ?case by (simp add: sruns.Go)
next
  case (3 C m v es s)
  then have "sstep C m None s (s\<lparr>pc := (pc s)(Handler := irq_at C), intr := v\<rparr>)"
    "sruns C m (map event_of es) (s\<lparr>pc := (pc s)(Handler := irq_at C), intr := v\<rparr>) s'"
    by (auto intro: sstep.Interrupt split: if_splits)
  then show ?case by (simp add: sruns.Go)
next
  case (4 C m w now es s)
  then obtain s1 where "sexec C now False w s = Some s1" "sruns C m (map event_of es) s1 s'"
    by (auto split: option.splits)
  then show ?case using sruns.Go [OF sstep.Run] by auto
qed

lemma replicate_numeral_Cons: "replicate (numeral k) x = x # replicate (pred_numeral k) x"
  by (simp add: numeral_eq_Suc)

lemma hrun_steps: "hrun C m es s = Some s' \<Longrightarrow> ssteps C m s s'"
  using hrun_sruns sruns_ssteps by blast

section \<open>Kernels built for one processor\<close>

text \<open>
  In a kernel for one processor, without debugging of locks, spin locks compile to nothing: nobody waits at one, and
  nobody holds one. The same code on such a kernel.
\<close>

definition up_code :: "('z, 'p, 'c) code \<Rightarrow> ('z, 'p, 'c) code" where
  "up_code C = C\<lparr>acq_at := (\<lambda>_. None), hold_at := (\<lambda>_. {}),
     act_at := (\<lambda>w now bad p s. case acq_at C p of Some (l, p') \<Rightarrow> Some (p', s) | None \<Rightarrow> act_at C w now bad p s)\<rparr>"

lemma up_code_sel [simp]:
  "acq_at (up_code C) = (\<lambda>_. None)" "hold_at (up_code C) = (\<lambda>_. {})" "entry_at (up_code C) = entry_at C"
  "rest_at (up_code C) = rest_at C" "idle_at (up_code C) = idle_at C" "thread_at (up_code C) = thread_at C" "irq_at (up_code C) = irq_at C"
  "act_at (up_code C) = (\<lambda>w now bad p s. case acq_at C p of Some (l, p') \<Rightarrow> Some (p', s) | None \<Rightarrow> act_at C w now bad p s)"
  by (simp_all add: up_code_def)

section \<open>The ring\<close>

definition ring_of :: "'z hcsr_struct_scheme \<Rightarrow> int \<times> s32 list" where
  "ring_of d = (newest d, cbuf d)"

lemma ring_of_upd [simp]:
  "ring_of (d\<lparr>ongoing := b\<rparr>) = ring_of d" "ring_of (d\<lparr>kstart := t\<rparr>) = ring_of d" "ring_of (d\<lparr>edges := e\<rparr>) = ring_of d"
  "ring_of (d\<lparr>kthread := k\<rparr>) = ring_of d" "ring_of (d\<lparr>mode := m\<rparr>) = ring_of d" "ring_of (d\<lparr>freq := f\<rparr>) = ring_of d"
  "ring_of (d\<lparr>cbuf := c, newest := n\<rparr>) = (n, c)"
  by (simp_all add: ring_of_def)

lemma push_sel [simp]: "ongoing (push_sample x d) = ongoing d" "kstart (push_sample x d) = kstart d"
  by (simp_all add: push_sample_def)

definition push_ring :: "s32 \<Rightarrow> int \<times> s32 list \<Rightarrow> int \<times> s32 list" where
  "push_ring x R = ((fst R + 1) mod int NUM_DATA, (snd R)[nat ((fst R + 1) mod int NUM_DATA) := x])"

lemma ring_push: "ring_of (push_sample x d) = push_ring x (ring_of d)"
  by (simp add: ring_of_def push_ring_def push_sample_def next_slot_def)

text \<open>The word at an index of the buffer; the one before the buffer is \<open>newest\<close> itself.\<close>

definition slot :: "int \<Rightarrow> 'z hcsr_struct_scheme \<Rightarrow> s32" where
  "slot k d = (if k = - 1 then word_of_int (newest d) else cbuf d ! nat k)"

lemma slot_newest: "slot (newest d) d = sample d"
  by (simp add: slot_def sample_def)

text \<open>
  What becomes of a ring \<open>R\<close> and of the records in a step: nothing, it is cleared, or the distance
  that is pending is added.
\<close>

definition ring_moves :: "u32 option \<Rightarrow> int \<times> s32 list \<Rightarrow> ('z, 'p) hsys \<Rightarrow> int \<times> s32 list \<Rightarrow> ('z, 'p) hsys \<Rightarrow> bool" where
  "ring_moves pend R s R' s' \<longleftrightarrow>
     R' = R \<and> since s' = since s \<and> stored s' = stored s
     \<or> R' = (- 1, replicate NUM_DATA 0) \<and> since s' = [] \<and> stored s' = stored s
     \<or> (\<exists>d. pend = Some d \<and> R' = push_ring d R \<and> since s' = since s @ [d] \<and> stored s' = stored s @ [d])"

lemma new_ring: "new_dev d \<Longrightarrow> ring_ok d"
  by (simp add: new_dev_def ring_ok_def)

lemma new_ring_of: "new_dev d \<Longrightarrow> ring_of d = (- 1, replicate NUM_DATA 0)"
  by (simp add: new_dev_def ring_of_def)

lemma sample_ring:
  assumes "new_dev d0" and "ring_of d = ring_of (fold push_sample xs d0)"
  shows "sample d = (if xs = [] then - 1 else last xs)"
proof -
  have "sample d = sample (fold push_sample xs d0)" using assms(2) by (simp add: sample_def ring_of_def)
  also have "\<dots> = (if xs = [] then - 1 else last xs)"
  proof (cases xs rule: rev_cases)
    case Nil
    with assms(1) show ?thesis by (simp add: new_dev_def sample_def)
  next
    case (snoc ys y)
    with sample_push [OF cirb.push_all_invar [OF new_ring [OF assms(1)]], of y ys] show ?thesis by simp
  qed
  finally show ?thesis .
qed

text \<open>The newest sample, and the ones before it, of a ring that was filled from empty.\<close>

lemma ring_contents:
  assumes n: "new_dev d0" and r: "ring_of d = ring_of (fold push_sample xs d0)"
  shows "newest d = (if xs = [] then - 1 else (int (length xs) - 1) mod 5)"
    and "j < length xs \<Longrightarrow> j < 5 \<Longrightarrow> cbuf d ! ((length xs - Suc j) mod 5) = rev xs ! j"
proof -
  let ?d = "fold push_sample xs d0"
  have ok: "ring_ok d0" using new_ring [OF n] .
  have l: "length (cbuf d0) = 5" "next_slot d0 = 0" using n by (simp_all add: new_dev_def next_slot_def)
  show "newest d = (if xs = [] then - 1 else (int (length xs) - 1) mod 5)"
  proof (cases xs rule: rev_cases)
    case (snoc ys y)
    let ?e = "fold push_sample ys d0"
    have "next_slot ?e = length ys mod 5" using cirb.nxt_push_all [OF ok, of ys] l by simp
    then have "int (nat ((newest ?e + 1) mod 5)) = int (length ys mod 5)" by (simp add: next_slot_def)
    then have "(newest ?e + 1) mod 5 = int (length ys) mod 5" by (simp add: zmod_int)
    then show ?thesis using r snoc by (simp add: ring_of_def push_sample_def)
  qed (use r n in \<open>simp add: ring_of_def new_dev_def\<close>)
  assume "j < length xs" "j < 5"
  with cirb.slot_push_all [OF ok, of j xs] l r show "cbuf d ! ((length xs - Suc j) mod 5) = rev xs ! j"
    by (simp add: ring_of_def)
qed

definition from_pulse :: "('z, 'p) hsys \<Rightarrow> u32 \<Rightarrow> bool" where
  "from_pulse s x \<longleftrightarrow> (\<exists>ks \<in> insert 0 (set (stamps s)). \<exists>now. x = distance_of ks now)"

lemma from_pulseI: "k \<in> insert 0 (set (stamps s)) \<Longrightarrow> from_pulse s (distance_of k now)"
  unfolding from_pulse_def by blast

lemma from_pulse_mono: "set (stamps s) \<subseteq> set (stamps s') \<Longrightarrow> from_pulse s x \<Longrightarrow> from_pulse s' x"
  by (auto simp: from_pulse_def)

section \<open>What the code of a driver promises\<close>

text \<open>
  Points are classified: \<open>kind\<close> says who can be there (0 user threads, 1 sampling threads, 2 the
  handler), \<open>busy\<close> that a measurement is being made, \<open>shown\<close> the distance a finished call
  delivered, \<open>pending\<close> the distance the handler is about to store. \<open>blank\<close> is what
  a call may deliver from an empty ring. In the middle of a section of \<open>cir_buf_lock\<close> the ring in
  memory is not the one the section began with: at \<open>p\<close> it is \<open>half p R\<close> for a ring \<open>R\<close>; and \<open>seen p n\<close> says that
  \<open>n\<close> can be the index \<open>newest\<close> after what was read on the way to \<open>p\<close>. Neither is known of a point
  without the lock, and only there may others have changed the ring.
\<close>

locale sensor_code =
  fixes C :: "('z, 'p, 'c) code"
    and kind :: "'p \<Rightarrow> nat"
    and busy :: "'p \<Rightarrow> bool"
    and shown :: "'p \<Rightarrow> s32 option"
    and pending :: "'p \<Rightarrow> u32 option"
    and blank :: "'p \<Rightarrow> s32 set"
    and half :: "'p \<Rightarrow> int \<times> s32 list \<Rightarrow> int \<times> s32 list"
    and seen :: "'p \<Rightarrow> int \<Rightarrow> bool"
  assumes take_law: "acq_at C p = Some (l, p') \<Longrightarrow>
      hold_at C p' = insert l (hold_at C p) \<and> kind p' = kind p \<and> busy p' = busy p \<and> shown p' = None
      \<and> pending p' = pending p \<and> p' \<noteq> idle_at C \<and> \<not> rest_at C p"
    and take_ring: "acq_at C p = Some (l, p') \<Longrightarrow> half p' R = half p R \<and> seen p' n = seen p n"
    and control_law: "act_at C w now bad p s = Some (p', s') \<Longrightarrow>
      own s' = own s \<and> hold_at C p' \<subseteq> hold_at C p \<and> (p' = idle_at C \<or> kind p' = kind p) \<and> \<not> rest_at C p"
    and spawn_law: "act_at C w now bad p s = Some (p', s') \<Longrightarrow>
      pc s' = pc s \<and> started s' = started s
      \<or> kind p = 0 \<and> pc s' = (pc s)(Kth (Suc (started s)) := thread_at C) \<and> started s' = Suc (started s)"
    and intr_law: "act_at C w now bad p s = Some (p', s') \<Longrightarrow>
      intr s' = intr s \<and> \<not> (kind p = 2 \<and> p' = idle_at C) \<or> intr s' = None \<and> kind p = 2 \<and> p' = idle_at C"
    and flag_law: "act_at C w now bad p s = Some (p', s') \<Longrightarrow> ongoing (dev s') \<Longrightarrow> busy p' \<or> ongoing (dev s) \<and> \<not> busy p"
    and outside_law: "Cir_buf_lock \<notin> hold_at C p \<Longrightarrow> half p R = R \<and> seen p n"
    and keep_law: "act_at C w now bad p s = Some (p', s') \<Longrightarrow> Cir_buf_lock \<notin> hold_at C p \<Longrightarrow>
      ring_of (dev s') = ring_of (dev s) \<and> since s' = since s \<and> stored s' = stored s"
    and data_law: "act_at C w now bad p s = Some (p', s') \<Longrightarrow> Cir_buf_lock \<in> hold_at C p \<Longrightarrow> ring_of (dev s) = half p R \<Longrightarrow>
      \<exists>R'. ring_of (dev s') = half p' R' \<and> ring_moves (pending p) R s R' s'"
    and seen_law: "act_at C w now bad p s = Some (p', s') \<Longrightarrow> seen p (newest (dev s)) \<Longrightarrow> seen p' (newest (dev s'))"
    and time_law: "act_at C w now bad p s = Some (p', s') \<Longrightarrow>
      kstart (dev s') = kstart (dev s) \<and> stamps s' = stamps s \<or> stamps s' = stamps s @ [kstart (dev s')]"
    and shown_law: "act_at C w now bad p s = Some (p', s') \<Longrightarrow> shown p' = Some x \<Longrightarrow> seen p (newest (dev s)) \<Longrightarrow>
      Cir_buf_lock \<in> hold_at C p \<and> (\<forall>R. half p R = R) \<and> newest (dev s) \<noteq> - 1 \<and> x = sample (dev s) \<or> x \<in> blank p'"
    and pending_law: "act_at C w now bad p s = Some (p', s') \<Longrightarrow> pending p' = Some d \<Longrightarrow>
      pending p = Some d \<or> (\<exists>t. d = distance_of (kstart (dev s)) t)"
    and rest_law: "rest_at C p \<Longrightarrow> hold_at C p = {} \<and> \<not> busy p \<and> pending p = None"
    and entry_law: "hold_at C (entry_at C op) = {}" "kind (entry_at C op) = 0" "entry_at C op \<noteq> idle_at C"
      "shown (entry_at C op) = None" "pending (entry_at C op) = None"
    and thread_law: "hold_at C (thread_at C) = {}" "kind (thread_at C) = 1" "thread_at C \<noteq> idle_at C"
      "shown (thread_at C) = None" "pending (thread_at C) = None"
    and irq_law: "hold_at C (irq_at C) = {}" "kind (irq_at C) = 2" "irq_at C \<noteq> idle_at C"
      "shown (irq_at C) = None" "pending (irq_at C) = None"
    and idle_law: "rest_at C (idle_at C)" "shown (idle_at C) = None"
begin

definition fits :: "who \<Rightarrow> 'p \<Rightarrow> bool" where
  "fits w p \<longleftrightarrow> p = idle_at C \<or> kind p = role w"

definition lock_inv :: "('z, 'p) hsys \<Rightarrow> bool" where
  "lock_inv s \<longleftrightarrow> (\<forall>l w. own s l = Some w \<longleftrightarrow> l \<in> hold_at C (pc s w))"

definition role_inv :: "bool \<Rightarrow> ('z, 'p) hsys \<Rightarrow> bool" where
  "role_inv masked s \<longleftrightarrow> (\<forall>w. fits w (pc s w)) \<and> (\<forall>k > started s. pc s (Kth k) = idle_at C)
     \<and> (\<forall>w. intr s = Some w \<longrightarrow> pc s Handler \<noteq> idle_at C \<and> w \<noteq> Handler \<and> pc s w \<noteq> idle_at C
          \<and> (masked \<longrightarrow> Ongoing_lock \<notin> hold_at C (pc s w) \<and> Cir_buf_lock \<notin> hold_at C (pc s w)))"

definition flag_inv :: "('z, 'p) hsys \<Rightarrow> bool" where
  "flag_inv s \<longleftrightarrow> (ongoing (dev s) \<longrightarrow> (\<exists>w. busy (pc s w)))"

definition value_ok :: "('z, 'p) hsys \<Rightarrow> 'p \<Rightarrow> bool" where
  "value_ok s p \<longleftrightarrow> (\<forall>x. shown p = Some x \<longrightarrow> x \<in> blank p \<or> x \<in> set (stored s)) \<and> (\<forall>d. pending p = Some d \<longrightarrow> from_pulse s d)"

text \<open>
  The ring in memory is the one of the distances stored since it was cleared, but for what the thread
  in a section of \<open>cir_buf_lock\<close> has not finished.
\<close>

definition ring_inv :: "'z hcsr_struct_scheme \<Rightarrow> ('z, 'p) hsys \<Rightarrow> bool" where
  "ring_inv d0 s \<longleftrightarrow>
     (\<forall>w. Cir_buf_lock \<in> hold_at C (pc s w) \<longrightarrow>
        ring_of (dev s) = half (pc s w) (ring_of (fold push_sample (since s) d0)) \<and> seen (pc s w) (newest (dev s)))
     \<and> ((\<forall>w. Cir_buf_lock \<notin> hold_at C (pc s w)) \<longrightarrow> ring_of (dev s) = ring_of (fold push_sample (since s) d0))"

definition data_inv :: "('z, 'p) hsys \<Rightarrow> bool" where
  "data_inv s \<longleftrightarrow> set (since s) \<subseteq> set (stored s)
     \<and> (\<forall>x \<in> set (stored s). from_pulse s x) \<and> kstart (dev s) \<in> insert 0 (set (stamps s))
     \<and> (\<forall>w. value_ok s (pc s w))"

lemma active_kind:
  assumes "role_inv m s" and "\<not> rest_at C (pc s w)"
  shows "kind (pc s w) = role w"
proof -
  have "fits w (pc s w)" using assms(1) by (simp add: role_inv_def)
  with assms(2) idle_law(1) show ?thesis by (auto simp: fits_def)
qed

lemma active_thread: "role_inv m s \<Longrightarrow> \<not> rest_at C (pc s (Kth k)) \<Longrightarrow> k \<le> started s"
  using idle_law(1) by (auto simp: role_inv_def not_less [symmetric])

text \<open>What a step that is not the taking of a lock does to the points of everybody.\<close>

lemma act_points:
  assumes r: "role_inv m s" and a: "act_at C w now bad (pc s w) s = Some (p, s')"
  shows "pc s' = pc s \<and> started s' = started s
    \<or> (\<exists>n. w = User n) \<and> pc s (Kth (Suc (started s))) = idle_at C \<and> started s' = Suc (started s)
      \<and> pc s' = (pc s)(Kth (Suc (started s)) := thread_at C)"
proof -
  have "\<exists>n. w = User n" if "kind (pc s w) = 0"
    using that active_kind [OF r] control_law [OF a] by (cases w) auto
  with spawn_law [OF a] r show ?thesis by (auto simp: role_inv_def)
qed

lemma act_self:
  assumes r: "role_inv m s" and a: "act_at C w now bad (pc s w) s = Some (p, s')"
  shows "pc s' w = pc s w"
  using act_points [OF assms] by auto

lemma lock_take:
  assumes inv: "lock_inv s" and a: "acq_at C (pc s w) = Some (l, p)" "own s l = None"
  shows "lock_inv (s\<lparr>own := (own s)(l \<mapsto> w), pc := (pc s)(w := p)\<rparr>)"
proof -
  have "l \<notin> hold_at C (pc s w')" for w' using inv a(2) unfolding lock_inv_def by (metis option.distinct(1))
  then show ?thesis using inv take_law [OF a(1)] by (auto simp: lock_inv_def)
qed

lemma lock_leave:
  assumes inv: "lock_inv s" and h: "hold_at C p \<subseteq> hold_at C (pc s w)"
  shows "lock_inv (move C w p s)"
proof -
  have "own s l = Some w \<longleftrightarrow> l \<in> hold_at C (pc s w)" for l w using inv by (simp add: lock_inv_def)
  moreover from this have "w' = w" if "l \<in> hold_at C (pc s w')" "l \<in> hold_at C (pc s w)" for l w'
    using that by (metis option.inject)
  ultimately show ?thesis using h unfolding lock_inv_def move_def by (auto split: if_splits)
qed

lemma lock_step:
  assumes inv: "lock_inv s" "role_inv m s" and st: "sstep C m x s s'"
  shows "lock_inv s'"
  using st
proof cases
  case (Call n op)
  then show ?thesis using inv(1) rest_law [OF Call(4)] entry_law(1) by (auto simp: lock_inv_def)
next
  case (Interrupt v)
  then show ?thesis using inv(1) rest_law [OF idle_law(1)] irq_law(1) by (auto simp: lock_inv_def may_interrupt_def)
next
  case (Run now bad w)
  from Run(2) show ?thesis
  proof (cases rule: sexec_cases)
    case (Take l p)
    with lock_take [OF inv(1), of w l p] show ?thesis by simp
  next
    case (Act p s1)
    note a = Act(4)
    have "lock_inv s1" using act_points [OF inv(2) a] control_law [OF a] inv(1) rest_law [OF idle_law(1)] thread_law(1)
      by (auto simp: lock_inv_def split: if_splits)
    then show ?thesis using lock_leave control_law [OF a] act_self [OF inv(2) a] Act(5) by simp
  qed
qed

lemma role_act:
  assumes inv: "role_inv m s" and nw: "intr s \<noteq> Some w" and a: "act_at C w now bad (pc s w) s = Some (p, s1)"
  shows "role_inv m (move C w p s1)"
proof -
  define s' where s': "s' = move C w p s1"
  have f: "fits w (pc s w)" using inv by (simp add: role_inv_def)
  note k = act_points [OF inv a] and ctl = control_law [OF a]
  have "j \<le> started s" if "w = Kth j" for j using that active_thread [OF inv] ctl by auto
  then have idle: "pc s' (Kth i) = idle_at C" if "started s' < i" for i
    using that k inv unfolding s' by (cases "w = Kth i") (auto simp: role_inv_def)
  have "fits w p" using ctl active_kind [OF inv] by (auto simp: fits_def)
  moreover have "fits (Kth i) (thread_at C)" for i using thread_law(2) by (simp add: fits_def)
  ultimately have "fits w' (pc s' w')" for w' using k inv unfolding s' by (auto simp: role_inv_def)
  moreover have "pc s' Handler \<noteq> idle_at C \<and> w2 \<noteq> Handler \<and> pc s' w2 \<noteq> idle_at C
      \<and> (m \<longrightarrow> Ongoing_lock \<notin> hold_at C (pc s' w2) \<and> Cir_buf_lock \<notin> hold_at C (pc s' w2))" if i: "intr s' = Some w2" for w2
  proof -
    have i1: "intr s = Some w2" "\<not> (kind (pc s w) = 2 \<and> p = idle_at C)"
      using i intr_law [OF a] unfolding s' by auto
    then have w2: "pc s Handler \<noteq> idle_at C" "w2 \<noteq> Handler" "pc s w2 \<noteq> idle_at C" "w2 \<noteq> w"
      using inv nw unfolding role_inv_def by blast+
    then have "pc s' w2 = pc s w2" using k unfolding s' by auto
    moreover have "pc s' Handler \<noteq> idle_at C"
      using k w2(1) i1(2) f unfolding s' by (cases "w = Handler") (auto simp: fits_def)
    ultimately show ?thesis using inv i1(1) w2 unfolding role_inv_def by simp
  qed
  ultimately have "role_inv m s'" using idle unfolding role_inv_def by blast
  then show ?thesis by (simp add: s')
qed

lemma role_step:
  assumes inv: "role_inv m s" and st: "sstep C m x s s'"
  shows "role_inv m s'"
  using st
proof cases
  case (Call n op)
  have "fits (User n) (entry_at C op)" using entry_law(2) by (simp add: fits_def)
  then show ?thesis using inv Call entry_law(1,3) by (auto simp: role_inv_def)
next
  case (Interrupt v)
  then show ?thesis using inv irq_law(2,3) idle_law(1)
    by (auto simp: role_inv_def fits_def may_interrupt_def split: option.splits)
next
  case (Run now bad w)
  have f: "fits w (pc s w)" using inv by (simp add: role_inv_def)
  from Run(2) show ?thesis
  proof (cases rule: sexec_cases)
    case (Act p s1)
    with role_act [OF inv] show ?thesis by simp
  next
    case (Take l p)
    then have "w \<noteq> Kth k" if "started s < k" for k
      using that inv take_law [OF Take(3)] idle_law(1) by (auto simp: role_inv_def)
    moreover have "fits w p" using f take_law [OF Take(3)] idle_law(1) by (auto simp: fits_def)
    ultimately show ?thesis using Take inv take_law [OF Take(3)] by (auto simp: role_inv_def)
  qed
qed

lemma flag_step:
  assumes inv: "flag_inv s" "role_inv m s" and st: "sstep C m x s s'"
  shows "flag_inv s'"
  using st
proof cases
  case (Call n op)
  then have "w \<noteq> User n" if "busy (pc s w)" for w using that rest_law by blast
  with inv(1) Call show ?thesis by (auto simp: flag_inv_def)
next
  case (Interrupt v)
  then have "w \<noteq> Handler" if "busy (pc s w)" for w
    using that rest_law [OF idle_law(1)] by (auto simp: may_interrupt_def)
  with inv(1) Interrupt show ?thesis by (auto simp: flag_inv_def)
next
  case (Run now bad w)
  from Run(2) show ?thesis
  proof (cases rule: sexec_cases)
    case (Take l p)
    with take_law [OF Take(3)] inv(1) show ?thesis by (auto simp: flag_inv_def)
  next
    case (Act p s1)
    have pcs: "busy (pc s w') \<Longrightarrow> busy (pc s1 w')" for w'
      using act_points [OF inv(2) Act(4)] rest_law [OF idle_law(1)] by (auto split: if_splits)
    show ?thesis unfolding flag_inv_def
    proof
      assume "ongoing (dev s')"
      then have "ongoing (dev s1)" using Act(5) by simp
      with flag_law [OF Act(4)] consider "busy p" | "ongoing (dev s)" "\<not> busy (pc s w)" by blast
      then show "\<exists>w. busy (pc s' w)"
      proof cases
        case 1
        with Act(5) show ?thesis by (intro exI [of _ w]) simp
      next
        case 2
        with inv(1) obtain w' where "busy (pc s w')" "w' \<noteq> w" by (auto simp: flag_inv_def)
        with pcs Act(5) show ?thesis by (intro exI [of _ w']) simp
      qed
    qed
  qed
qed

lemma value_mono:
  assumes "set (stored s) \<subseteq> set (stored s')" and "set (stamps s) \<subseteq> set (stamps s')" and "value_ok s p"
  shows "value_ok s' p"
  using assms from_pulse_mono [of s s'] unfolding value_ok_def by blast

text \<open>No two of them in sections of the same lock.\<close>

lemma exclusion: "lock_inv s \<Longrightarrow> l \<in> hold_at C (pc s w) \<Longrightarrow> l \<in> hold_at C (pc s w') \<Longrightarrow> w = w'"
  unfolding lock_inv_def by (metis option.inject)

text \<open>Steps that leave the ring alone, and steps of the one who holds its lock.\<close>

lemma ring_frame:
  assumes "ring_inv d0 s" and "ring_of (dev s') = ring_of (dev s)" and "since s' = since s"
    and pc: "\<And>w. pc s' w = pc s w \<or> Cir_buf_lock \<notin> hold_at C (pc s w) \<and> Cir_buf_lock \<notin> hold_at C (pc s' w)"
  shows "ring_inv d0 s'"
proof -
  have n: "newest (dev s') = newest (dev s)" using assms(2) by (simp add: ring_of_def)
  show ?thesis unfolding ring_inv_def
  proof (intro conjI allI impI)
    fix w
    assume "Cir_buf_lock \<in> hold_at C (pc s' w)"
    then have "pc s' w = pc s w" "Cir_buf_lock \<in> hold_at C (pc s w)" using pc [of w] by auto
    then show "ring_of (dev s') = half (pc s' w) (ring_of (fold push_sample (since s') d0))" "seen (pc s' w) (newest (dev s'))"
      using assms(1-3) n by (simp_all add: ring_inv_def)
  next
    assume "\<forall>w. Cir_buf_lock \<notin> hold_at C (pc s' w)"
    then have "\<forall>w. Cir_buf_lock \<notin> hold_at C (pc s w)" using pc by metis
    then show "ring_of (dev s') = ring_of (fold push_sample (since s') d0)" using assms(1-3) by (simp add: ring_inv_def)
  qed
qed

lemma ring_held:
  assumes "ring_of (dev s') = half (pc s' w) (ring_of (fold push_sample (since s') d0))" and "seen (pc s' w) (newest (dev s'))"
    and o: "\<And>w'. w' \<noteq> w \<Longrightarrow> Cir_buf_lock \<notin> hold_at C (pc s' w')"
  shows "ring_inv d0 s'"
  unfolding ring_inv_def
proof (intro conjI allI impI)
  fix w'
  assume "Cir_buf_lock \<in> hold_at C (pc s' w')"
  then have "w' = w" using o by blast
  with assms(1,2) show "ring_of (dev s') = half (pc s' w') (ring_of (fold push_sample (since s') d0))"
    "seen (pc s' w') (newest (dev s'))" by simp_all
next
  assume "\<forall>w'. Cir_buf_lock \<notin> hold_at C (pc s' w')"
  with assms(1) outside_law [of "pc s' w"] show "ring_of (dev s') = ring_of (fold push_sample (since s') d0)" by simp
qed

lemma ring_since:
  assumes "new_dev d0" and "ring_moves pend (ring_of (fold push_sample (since s) d0)) s R' s'"
  shows "R' = ring_of (fold push_sample (since s') d0)"
  using assms by (auto simp: ring_moves_def ring_push new_ring_of)

lemma act_ring:
  assumes n: "new_dev d0" and inv: "ring_inv d0 s" "lock_inv s" "role_inv m s"
    and a: "act_at C w now bad (pc s w) s = Some (p, s1)"
  shows "ring_inv d0 (move C w p s1)"
proof -
  have t: "Cir_buf_lock \<notin> hold_at C (thread_at C)" "Cir_buf_lock \<notin> hold_at C (idle_at C)"
    using thread_law(1) rest_law [OF idle_law(1)] by simp_all
  have pcs: "pc s1 w' = pc s w' \<or> Cir_buf_lock \<notin> hold_at C (pc s w') \<and> Cir_buf_lock \<notin> hold_at C (pc s1 w')" for w'
    using act_points [OF inv(3) a] t by (cases "w' = Kth (Suc (started s))") auto
  show ?thesis
  proof (cases "Cir_buf_lock \<in> hold_at C (pc s w)")
    case False
    have "Cir_buf_lock \<notin> hold_at C p" using control_law [OF a] False by blast
    then show ?thesis using keep_law [OF a False] pcs False by (intro ring_frame [OF inv(1)]) auto
  next
    case True
    then have r: "ring_of (dev s) = half (pc s w) (ring_of (fold push_sample (since s) d0))" "seen (pc s w) (newest (dev s))"
      using inv(1) by (simp_all add: ring_inv_def)
    obtain R' where R': "ring_of (dev s1) = half p R'" "ring_moves (pending (pc s w)) (ring_of (fold push_sample (since s) d0)) s R' s1"
      using data_law [OF a True r(1)] by blast
    show ?thesis
    proof (rule ring_held [where w = w])
      show "Cir_buf_lock \<notin> hold_at C (pc (move C w p s1) w')" if "w' \<noteq> w" for w'
        using that pcs [of w'] exclusion [OF inv(2) True] by auto
    qed (use R' ring_since [OF n R'(2)] seen_law [OF a r(2)] in simp_all)
  qed
qed

lemma ring_step:
  assumes n: "new_dev d0" and inv: "ring_inv d0 s" "lock_inv s" "role_inv m s" and st: "sstep C m x s s'"
  shows "ring_inv d0 s'"
  using st
proof cases
  case (Call n op)
  with rest_law [OF Call(4)] entry_law(1) show ?thesis by (intro ring_frame [OF inv(1)]) auto
next
  case (Interrupt v)
  with rest_law [OF idle_law(1)] irq_law(1) show ?thesis by (intro ring_frame [OF inv(1)]) (auto simp: may_interrupt_def)
next
  case (Run now bad w)
  from Run(2) show ?thesis
  proof (cases rule: sexec_cases)
    case (Act p s1)
    with act_ring [OF n inv] show ?thesis by simp
  next
    case (Take l p)
    note t = take_law [OF Take(3)] and tr = take_ring [OF Take(3)]
    show ?thesis
    proof (cases "Cir_buf_lock \<in> hold_at C p")
      case False
      with Take t show ?thesis by (intro ring_frame [OF inv(1)]) auto
    next
      case True
      have o: "Cir_buf_lock \<notin> hold_at C (pc s w')" if "w' \<noteq> w" for w'
        using that True t Take(4) inv(2) unfolding lock_inv_def by (metis insert_iff option.distinct(1) option.inject)
      have "ring_of (dev s) = half (pc s w) (ring_of (fold push_sample (since s) d0)) \<and> seen (pc s w) (newest (dev s))"
        using inv(1) o outside_law [of "pc s w"] unfolding ring_inv_def by metis
      with tr Take(5) o show ?thesis by (intro ring_held [where w = w]) simp_all
    qed
  qed
qed

text \<open>The records and the values after such a step.\<close>

lemma act_data_inv:
  assumes n: "new_dev d0" and inv: "data_inv s" "ring_inv d0 s" "role_inv m s"
    and a: "act_at C w now bad (pc s w) s = Some (p, s1)"
  shows "data_inv s1 \<and> value_ok s1 p"
proof -
  have v: "value_ok s (pc s w')" for w' using inv(1) by (simp add: data_inv_def)
  have k: "kstart (dev s) \<in> insert 0 (set (stamps s))"
    and sub: "set (since s) \<subseteq> set (stored s)" and old: "\<forall>x \<in> set (stored s). from_pulse s x"
    using inv(1) by (simp_all add: data_inv_def)
  have rec: "since s1 = since s \<and> stored s1 = stored s \<or> since s1 = [] \<and> stored s1 = stored s
      \<or> (\<exists>d. pending (pc s w) = Some d \<and> since s1 = since s @ [d] \<and> stored s1 = stored s @ [d])"
  proof (cases "Cir_buf_lock \<in> hold_at C (pc s w)")
    case True
    then have "ring_of (dev s) = half (pc s w) (ring_of (fold push_sample (since s) d0))"
      using inv(2) by (simp add: ring_inv_def)
    from data_law [OF a True this] show ?thesis unfolding ring_moves_def by blast
  next
    case False
    with keep_law [OF a False] show ?thesis by simp
  qed
  have st: "set (stored s) \<subseteq> set (stored s1)" using rec by auto
  have sp: "set (stamps s) \<subseteq> set (stamps s1)" and k1: "kstart (dev s1) \<in> insert 0 (set (stamps s1))"
    using time_law [OF a] k by auto
  note mono = from_pulse_mono [OF sp]
  have se: "seen (pc s w) (newest (dev s))" using inv(2) outside_law [of "pc s w"] unfolding ring_inv_def by blast
  have sm: "sample (dev s) \<in> set (stored s)"
    if "newest (dev s) \<noteq> - 1" and "Cir_buf_lock \<in> hold_at C (pc s w)" and "\<forall>R. half (pc s w) R = R"
  proof -
    have r: "ring_of (dev s) = ring_of (fold push_sample (since s) d0)" using inv(2) that(2,3) unfolding ring_inv_def by metis
    with that(1) sample_ring [OF n r] ring_contents(1) [OF n r] subsetD [OF sub last_in_set] show ?thesis by auto
  qed
  have "set (since s1) \<subseteq> set (stored s1)" "\<forall>x \<in> set (stored s1). from_pulse s1 x"
    using rec sub old mono v [of w] by (auto simp: value_ok_def)
  moreover have "value_ok s1 (pc s1 w')" for w'
    using act_points [OF inv(3) a] value_mono [OF st sp v, of w'] thread_law(4,5)
    by (cases "w' = Kth (Suc (started s))") (auto simp: value_ok_def)
  moreover have "value_ok s1 p" unfolding value_ok_def
  proof (intro conjI allI impI)
    show "x \<in> blank p \<or> x \<in> set (stored s1)" if "shown p = Some x" for x
      using shown_law [OF a that se] sm st by auto
    show "from_pulse s1 d" if "pending p = Some d" for d
      using pending_law [OF a that] mono v [of w] from_pulseI [OF k] by (auto simp: value_ok_def)
  qed
  ultimately show ?thesis using k1 by (simp add: data_inv_def)
qed

lemma data_step:
  assumes n: "new_dev d0" and inv: "data_inv s" "ring_inv d0 s" "role_inv m s" and st: "sstep C m x s s'"
  shows "data_inv s'"
  using st
proof cases
  case (Call n op)
  have "value_ok s (entry_at C op)" using entry_law(4,5) by (simp add: value_ok_def)
  with inv(1) value_mono [of s s'] Call show ?thesis by (auto simp: data_inv_def from_pulse_def)
next
  case (Interrupt v)
  have "value_ok s (irq_at C)" using irq_law(4,5) by (simp add: value_ok_def)
  with inv(1) value_mono [of s s'] Interrupt show ?thesis by (auto simp: data_inv_def from_pulse_def)
next
  case (Run now bad w)
  from Run(2) show ?thesis
  proof (cases rule: sexec_cases)
    case (Take l p)
    have "value_ok s (pc s w)" using inv(1) by (simp add: data_inv_def)
    then have "value_ok s p" using take_law [OF Take(3)] by (simp add: value_ok_def)
    with Take inv(1) value_mono [of s s'] show ?thesis by (auto simp: data_inv_def from_pulse_def)
  next
    case (Act p s1)
    from act_data_inv [OF n inv Act(4)] show ?thesis
      using value_mono [of s1 s'] Act(5) by (auto simp: data_inv_def from_pulse_def)
  qed
qed

lemma invs_reachable:
  assumes "ssteps C m (hsys_of C d) s" and n: "new_dev d"
  shows "lock_inv s \<and> role_inv m s \<and> flag_inv s \<and> ring_inv d s \<and> data_inv s"
  using assms(1)
proof (induction rule: rtranclp_induct)
  case base
  show ?case using n rest_law [OF idle_law(1)] idle_law(2)
    by (simp add: lock_inv_def role_inv_def fits_def flag_inv_def ring_inv_def data_inv_def value_ok_def hsys_of_def new_dev_def)
next
  case (step s s')
  then show ?case using lock_step role_step flag_step ring_step [OF n] data_step [OF n] by blast
qed

text \<open>When nobody is in a section of the ring's lock, the ring is that of the distances since the last clear.\<close>

lemma ring_settled:
  assumes "ssteps C m (hsys_of C d) s" and "new_dev d" and "\<forall>w. Cir_buf_lock \<notin> hold_at C (pc s w)"
  shows "ring_of (dev s) = ring_of (fold push_sample (since s) d)"
  using invs_reachable [OF assms(1,2)] assms(3) by (simp add: ring_inv_def)

lemma shown_stored:
  assumes "ssteps C m (hsys_of C d) s" and "new_dev d" and "shown (pc s w) = Some x"
  shows "x \<in> blank (pc s w) \<or> x \<in> set (stored s)"
  using invs_reachable [OF assms(1,2)] assms(3) by (simp add: data_inv_def value_ok_def)

text \<open>Nobody else moves a thread that is in a call.\<close>

lemma others_stay:
  assumes r: "role_inv m s" and st: "sstep C m x s s'" and x: "x \<noteq> Some w" and p: "\<not> rest_at C (pc s w)"
  shows "pc s' w = pc s w"
  using st
proof cases
  case (Call n op)
  with p show ?thesis by auto
next
  case (Interrupt v)
  with p idle_law(1) show ?thesis by (auto simp: may_interrupt_def)
next
  case (Run now bad w')
  from Run(2) show ?thesis
  proof (cases rule: sexec_cases)
    case (Take l q)
    with Run x show ?thesis by auto
  next
    case (Act q s1)
    have "pc s1 w = pc s w" using act_points [OF r Act(4)] p idle_law(1) by auto
    with Act Run x show ?thesis by auto
  qed
qed

end

section \<open>A measurement ends\<close>

text \<open>
  \<open>sending c p\<close>: at point \<open>p\<close> a thread is in \<open>send\<close>, called from \<open>c\<close>; \<open>left p\<close> bounds the steps of
  its own that it still has there.
\<close>

locale sensor_send = sensor_code C kind busy shown pending blank half seen
  for C :: "('z, 'p, 'c) code" and kind busy shown pending blank half seen +
  fixes sending :: "'k \<Rightarrow> 'p \<Rightarrow> bool"
    and left :: "'p \<Rightarrow> nat"
    and after :: "'k \<Rightarrow>  'p"
  assumes send_take_law: "acq_at C p = Some (l, p') \<Longrightarrow> sending c p \<Longrightarrow> sending c p' \<and> left p' < left p"
    and send_act_law: "act_at C w now bad p s = Some (p', s') \<Longrightarrow> sending c p \<Longrightarrow>
      sending c p' \<and> left p' < left p \<or> p' = after c"
    and send_live_law: "sending c p \<Longrightarrow> 0 < left p \<and> \<not> rest_at C p"
begin

lemma sending_own:
  assumes "sexec C now bad w s = Some s'" and "sending c (pc s w)"
  shows "sending c (pc s' w) \<and> left (pc s' w) < left (pc s w) \<or> pc s' w = after c"
  using assms(1)
proof (cases rule: sexec_cases)
  case (Take l p)
  with send_take_law [OF Take(3) assms(2)] show ?thesis by simp
next
  case (Act p s1)
  with send_act_law [OF Act(4) assms(2)] show ?thesis by simp
qed

lemma send_ends:
  "sruns C m xs s s' \<Longrightarrow> role_inv m s \<Longrightarrow> sending c (pc s w) \<Longrightarrow> left (pc s w) \<le> count_list xs (Some w) \<Longrightarrow>
   \<exists>ys zs s1. xs = ys @ zs \<and> sruns C m ys s s1 \<and> sruns C m zs s1 s' \<and> pc s1 w = after c"
proof (induction rule: sruns.induct)
  case (Stop s)
  then show ?case using send_live_law [of c "pc s w"] by simp
next
  case (Go x s s1 xs s')
  have r1: "role_inv m s1" using role_step [OF Go.prems(1) Go.hyps(1)] .
  show ?case
  proof (cases "pc s1 w = after c")
    case True
    with Go.hyps sruns.Go [OF Go.hyps(1) sruns.Stop] show ?thesis
      by (intro exI [of _ "[x]"] exI [of _ xs] exI [of _ s1]) simp
  next
    case False
    have "sending c (pc s1 w) \<and> left (pc s1 w) \<le> count_list xs (Some w)"
    proof (cases "x = Some w")
      case True
      with Go.hyps(1) obtain now bad where "sexec C now bad w s = Some s1" by (auto elim: sstep.cases)
      from sending_own [OF this Go.prems(2)] False True Go.prems(3) show ?thesis by auto
    next
      case ne: False
      with others_stay [OF Go.prems(1) Go.hyps(1) ne] send_live_law [OF Go.prems(2)] Go.prems(2,3) show ?thesis by auto
    qed
    with Go.IH r1 obtain ys zs s2 where
      "xs = ys @ zs" "sruns C m ys s1 s2" "sruns C m zs s2 s'" "pc s2 w = after c" by blast
    with sruns.Go [OF Go.hyps(1)] show ?thesis
      by (intro exI [of _ "x # ys"] exI [of _ zs] exI [of _ s2]) simp
  qed
qed

text \<open>Either it has left, or it has not had its steps yet.\<close>

lemma send_ends_reachable:
  assumes "ssteps C m (hsys_of C d) s" and "new_dev d" and "sending c (pc s w)" and "sruns C m xs s s'"
  shows "count_list xs (Some w) < left (pc s w)
    \<or> (\<exists>ys zs s1. xs = ys @ zs \<and> sruns C m ys s s1 \<and> sruns C m zs s1 s' \<and> pc s1 w = after c)"
  using send_ends [OF assms(4) _ assms(3)] invs_reachable [OF assms(1,2)] by (meson not_le)

end

section \<open>Who waits for whom\<close>

text \<open>
  Waiting for the holder of a lock, for the handler on one's processor, or for the end of a
  sampling thread; \<open>join p\<close> is the thread whose end is awaited at point \<open>p\<close>.
\<close>

definition waits_on :: "('z, 'p, 'c) code \<Rightarrow> ('p \<Rightarrow> nat option) \<Rightarrow> ('z, 'p) hsys \<Rightarrow> who \<Rightarrow> who \<Rightarrow> bool" where
  "waits_on C join s w w' \<longleftrightarrow> (\<exists>l p. acq_at C (pc s w) = Some (l, p) \<and> own s l = Some w')
     \<or> intr s = Some w \<and> w' = Handler
     \<or> (\<exists>k. join (pc s w) = Some k \<and> w' = Kth k \<and> pc s w' \<noteq> idle_at C)"

definition can_step :: "('z, 'p, 'c) code \<Rightarrow> ('z, 'p) hsys \<Rightarrow> who \<Rightarrow> bool" where
  "can_step C s w \<longleftrightarrow> (\<forall>now bad. sexec C now bad w s \<noteq> None)"

locale sensor_waits = sensor_code C kind busy shown pending blank half seen
  for C :: "('z, 'p, 'c) code" and kind busy shown pending blank half seen +
  fixes join :: "'p \<Rightarrow> nat option"
  assumes join_law: "join p = Some k \<Longrightarrow> acq_at C p = None"
    and join_blocks: "join p = Some k \<Longrightarrow> pc s (Kth k) \<noteq> idle_at C \<Longrightarrow> act_at C w now bad p s = None"
    and act_total: "acq_at C p = None \<Longrightarrow> \<not> rest_at C p \<Longrightarrow> (\<And>k. join p = Some k \<Longrightarrow> pc s (Kth k) = idle_at C) \<Longrightarrow>
      act_at C w now bad p s \<noteq> None"
    and kth_rest: "kind p = 1 \<Longrightarrow> \<not> rest_at C p" and irq_rest: "kind p = 2 \<Longrightarrow> \<not> rest_at C p"
    and join_rest: "join p = Some k \<Longrightarrow> \<not> rest_at C p"
begin

lemma waiting_no_step:
  assumes "waits_on C join s w w'"
  shows "sexec C now bad w s = None"
  using assms join_law join_blocks unfolding waits_on_def sexec_def by (auto split: option.splits)

text \<open>Who is in a call and waits for nobody can go on.\<close>

lemma not_waiting_steps:
  assumes f: "hfault s = None" and n: "\<And>w'. \<not> waits_on C join s w w'" and p: "\<not> rest_at C (pc s w)"
  shows "can_step C s w"
proof -
  have i: "intr s \<noteq> Some w" using n [of Handler] by (auto simp: waits_on_def)
  show ?thesis
  proof (cases "acq_at C (pc s w)")
    case None
    have "pc s (Kth k) = idle_at C" if "join (pc s w) = Some k" for k using n [of "Kth k"] that by (auto simp: waits_on_def)
    then have "act_at C w now bad (pc s w) s \<noteq> None" for now bad by (rule act_total [OF None p])
    then have "sexec C now bad w s \<noteq> None" for now bad using f i None by (auto simp: sexec_def split: option.splits)
    then show ?thesis by (simp add: can_step_def)
  next
    case (Some lp)
    then obtain l q where q: "acq_at C (pc s w) = Some (l, q)" by (cases lp) simp
    then have "own s l = None" using n by (cases "own s l") (auto simp: waits_on_def)
    with q f i show ?thesis by (simp add: can_step_def sexec_def)
  qed
qed

lemma waits_active:
  assumes l: "lock_inv s" and r: "role_inv m s" and w: "waits_on C join s w w'"
  shows "\<not> rest_at C (pc s w) \<or> intr s = Some w" and "\<not> rest_at C (pc s w')"
proof -
  show "\<not> rest_at C (pc s w) \<or> intr s = Some w" using w take_law join_rest unfolding waits_on_def by blast
  have "hold_at C (pc s w') \<noteq> {} \<or> role w' \<noteq> 0 \<and> pc s w' \<noteq> idle_at C"
    using w l r unfolding waits_on_def lock_inv_def role_inv_def by auto
  moreover have "fits w' (pc s w')" using r by (simp add: role_inv_def)
  ultimately show "\<not> rest_at C (pc s w')"
    using rest_law kth_rest irq_rest by (cases w') (auto simp: fits_def)
qed

text \<open>
  Threads that wait for each other, each for one of them, do so for ever: none of them moves again.
\<close>

lemma cycle_step:
  assumes l: "lock_inv s" and r: "role_inv m s" and D: "\<forall>w \<in> D. \<exists>w' \<in> D. waits_on C join s w w'" and act: "\<forall>w \<in> D. \<not> rest_at C (pc s w)"
    and st: "sstep C m x s s'"
  shows "(\<forall>w \<in> D. pc s' w = pc s w) \<and> (\<forall>w \<in> D. \<exists>w' \<in> D. waits_on C join s' w w')"
proof -
  have x: "x \<noteq> Some w" if "w \<in> D" for w
    using that D st waiting_no_step [of s w] by (auto elim!: sstep.cases)
  have p: "pc s' w = pc s w" if "w \<in> D" for w
    using that others_stay [OF r st x] act by blast
  have l': "lock_inv s'" using lock_step [OF l r st] .
  have i: "intr s' = intr s" if h: "Handler \<in> D"
    using st
  proof cases
    case (Interrupt v)
    with act h idle_law(1) show ?thesis by (auto simp: may_interrupt_def)
  next
    case (Run now bad w)
    have k: "kind (pc s w) \<noteq> 2" if "\<not> rest_at C (pc s w)"
      using active_kind [OF r that] x [OF h] Run(1) by (cases w) auto
    from Run(2) show ?thesis by (cases rule: sexec_cases) (use k in \<open>auto dest: intr_law control_law\<close>)
  qed simp
  have "waits_on C join s' w w'" if "w \<in> D" "w' \<in> D" "waits_on C join s w w'" for w w'
    using that p i l l' unfolding waits_on_def lock_inv_def by metis
  with p D show ?thesis by blast
qed

lemma cycle_forever:
  assumes "ssteps C m s s'" and "lock_inv s" and "role_inv m s" and D: "\<forall>w \<in> D. \<exists>w' \<in> D. waits_on C join s w w'"
    and act: "\<forall>w \<in> D. \<not> rest_at C (pc s w)"
  shows "lock_inv s' \<and> role_inv m s' \<and> (\<forall>w \<in> D. pc s' w = pc s w) \<and> (\<forall>w \<in> D. \<exists>w' \<in> D. waits_on C join s' w w')"
  using assms(1)
proof (induction rule: rtranclp_induct)
  case base
  with assms show ?case by simp
next
  case (step s1 s2)
  then obtain x where x: "sstep C m x s1 s2" by blast
  from step.IH act cycle_step [OF _ _ _ _ x, of D] lock_step [OF _ _ x] role_step [OF _ x] show ?case by auto
qed

end

text \<open>
  An order of the points in which everybody waits downwards; \<open>good\<close> are the points that keep to it.
\<close>

locale sensor_order = sensor_waits C kind busy shown pending blank half seen join
  for C :: "('z, 'p, 'c) code" and kind busy shown pending blank half seen join +
  fixes good :: "'p \<Rightarrow> bool"
    and lev :: "who \<Rightarrow> 'p \<Rightarrow> nat"
  assumes lock_drop: "good p \<Longrightarrow> good p' \<Longrightarrow> kind p = role w \<Longrightarrow> kind p' = role w' \<Longrightarrow>
      acq_at C p = Some (l, q) \<Longrightarrow> l \<in> hold_at C p' \<Longrightarrow> lev w' p' < lev w p"
    and intr_drop: "good p \<Longrightarrow> role w \<noteq> 2 \<Longrightarrow> Ongoing_lock \<notin> hold_at C p \<Longrightarrow> Cir_buf_lock \<notin> hold_at C p \<Longrightarrow>
      lev Handler p' < lev w p"
    and join_drop: "good p \<Longrightarrow> good p' \<Longrightarrow> join p = Some k \<Longrightarrow> kind p = role w \<Longrightarrow> kind p' = 1 \<Longrightarrow> lev (Kth k) p' < lev w p"
begin

lemma waits_drop:
  assumes l: "lock_inv s" and r: "role_inv True s" and g: "\<And>w. good (pc s w)" and w: "waits_on C join s w w'"
  shows "lev w' (pc s w') < lev w (pc s w)"
proof -
  note k' = active_kind [OF r waits_active(2) [OF l r w]]
  consider (lock) l p where "acq_at C (pc s w) = Some (l, p)" "l \<in> hold_at C (pc s w')"
    | (intr) "intr s = Some w" "w' = Handler"
    | (join) k where "join (pc s w) = Some k" "w' = Kth k"
    using w l unfolding waits_on_def lock_inv_def by blast
  then show ?thesis
  proof cases
    case lock
    have "\<not> rest_at C (pc s w)" using take_law [OF lock(1)] by simp
    from lock_drop [OF g g active_kind [OF r this] k' lock] show ?thesis .
  next
    case intr
    then have "w \<noteq> Handler" "Ongoing_lock \<notin> hold_at C (pc s w)" "Cir_buf_lock \<notin> hold_at C (pc s w)"
      using r by (auto simp: role_inv_def)
    with intr_drop [OF g, of w] show ?thesis using intr(2) by (cases w) simp_all
  next
    case join
    from join_drop [OF g g join(1) active_kind [OF r join_rest [OF join(1)]]] k' join(2) show ?thesis by simp
  qed
qed

lemma waits_end:
  assumes l: "lock_inv s" and r: "role_inv True s" and f: "hfault s = None" and g: "\<And>w. good (pc s w)"
  shows "\<not> rest_at C (pc s w) \<Longrightarrow> \<exists>w'. (waits_on C join s)\<^sup>*\<^sup>* w w' \<and> can_step C s w'"
proof (induction "lev w (pc s w)" arbitrary: w rule: less_induct)
  case less
  show ?case
  proof (cases "\<exists>w'. waits_on C join s w w'")
    case True
    then obtain w1 where w1: "waits_on C join s w w1" by blast
    from less.hyps [OF waits_drop [OF l r g w1] waits_active(2) [OF l r w1]]
    obtain w' where "(waits_on C join s)\<^sup>*\<^sup>* w1 w'" "can_step C s w'" by blast
    with w1 show ?thesis by (meson converse_rtranclp_into_rtranclp)
  next
    case False
    with not_waiting_steps [OF f _ less.prems] show ?thesis by blast
  qed
qed

end

end
