(* ===== verification/HCSR_Race.thy ===== *)
theory HCSR_Race
  imports Sensor_Machine
begin

text \<open>
  One device of the first sensor driver on a multiprocessor: any number of threads in
  \<open>hc_sr04_read\<close>, \<open>hc_sr04_write\<close> and \<open>ioctl_SETMODE\<close>, the sampling thread and the echo
  interrupt, as code for the machine of \<open>Sensor_Machine\<close>. The pins are set. This theory has the
  code, and the proofs that it keeps the laws of that machine. The accesses to the ring, and the test
  of the pointer to the sampling thread and its start, are steps of their own, so that it is the
  locks that keep others out of the sections.
\<close>

section \<open>Program points\<close>

text \<open>
  Who called \<open>send\<close>, and the points of the code at which somebody can be. A name that ends
  in 1 is inside the section whose lock is taken at the point before it, one that ends in 2 or 3 further on in the same
  section, with the index that was read; \<open>W_run\<close> is where the sampling thread is started; \<open>W_join\<close> and \<open>M_join\<close> have the
  thread that is stopped. \<open>Res\<close>: the call has returned, a read with the value that was copied.
\<close>

datatype cont = C_read | C_write | C_thread

datatype pt =
    Idle | Res int "s32 option"
  | R_mode | R_mode1 | R_on | R_on1 | R_spin | R_spin_loop | R_new | R_new1 | R_new2 | R_new3 int | R_re | R_re1
  | R_copy | R_copy1 | R_copy2 int
  | W_mode s32 | W_mode1 s32 | W_clr | W_clr1 | W_clr2 | W_on | W_on1 | W_kth s32 | W_kth1 s32 | W_run | W_join nat | W_off | W_off1
  | M_conf s32 u32 | M_conf1 s32 u32 | M_kth | M_kth1 | M_join nat
  | S_test cont nat | S_test1 cont nat | S_high cont nat | S_low cont nat | S_stamp cont nat
  | S_lock cont nat | S_lock1 cont nat | S_poll cont nat nat | S_out cont nat | S_out1 cont nat
  | K_start | K_sleep
  | I_test | I_test1 | I_time | I_buf u32 | I_buf1 u32 | I_buf2 u32 | I_end | I_end1

type_synonym msys = "(unit, pt) hsys"

section \<open>Steps\<close>

text \<open>The lock a point waits for, and where its holder goes on.\<close>

fun acq :: "pt \<Rightarrow> (hlock \<times> pt) option" where
  "acq R_mode = Some (Kconfig_lock, R_mode1)"
| "acq R_on = Some (Ongoing_lock, R_on1)"
| "acq R_new = Some (Cir_buf_lock, R_new1)"
| "acq R_re = Some (Cir_buf_lock, R_re1)"
| "acq R_copy = Some (Cir_buf_lock, R_copy1)"
| "acq (W_mode a) = Some (Kconfig_lock, W_mode1 a)"
| "acq W_clr = Some (Cir_buf_lock, W_clr1)"
| "acq W_on = Some (Ongoing_lock, W_on1)"
| "acq (W_kth a) = Some (Kthread_lock, W_kth1 a)"
| "acq W_off = Some (Ongoing_lock, W_off1)"
| "acq (M_conf m f) = Some (Kconfig_lock, M_conf1 m f)"
| "acq M_kth = Some (Kthread_lock, M_kth1)"
| "acq (S_test c r) = Some (Ongoing_lock, S_test1 c r)"
| "acq (S_lock c r) = Some (Ongoing_lock, S_lock1 c r)"
| "acq (S_out c r) = Some (Ongoing_lock, S_out1 c r)"
| "acq I_test = Some (Ongoing_lock, I_test1)"
| "acq (I_buf d) = Some (Cir_buf_lock, I_buf1 d)"
| "acq I_end = Some (Ongoing_lock, I_end1)"
| "acq _ = None"

fun holds :: "pt \<Rightarrow> hlock set" where
  "holds R_mode1 = {Kconfig_lock}"
| "holds R_on1 = {Ongoing_lock}"
| "holds R_new1 = {Cir_buf_lock}"
| "holds R_new2 = {Cir_buf_lock}"
| "holds (R_new3 k) = {Cir_buf_lock}"
| "holds R_re1 = {Cir_buf_lock}"
| "holds R_copy1 = {Cir_buf_lock}"
| "holds (R_copy2 k) = {Cir_buf_lock}"
| "holds (W_mode1 a) = {Kconfig_lock}"
| "holds W_clr1 = {Cir_buf_lock}"
| "holds W_clr2 = {Cir_buf_lock}"
| "holds W_on1 = {Ongoing_lock}"
| "holds (W_kth1 a) = {Kthread_lock}"
| "holds W_run = {Kthread_lock}"
| "holds (W_join k) = {Kthread_lock}"
| "holds W_off = {Kthread_lock}"
| "holds W_off1 = {Kthread_lock, Ongoing_lock}"
| "holds (M_conf1 m f) = {Kconfig_lock}"
| "holds M_kth = {Kconfig_lock}"
| "holds M_kth1 = {Kconfig_lock, Kthread_lock}"
| "holds (M_join k) = {Kconfig_lock, Kthread_lock}"
| "holds (S_test1 c r) = {Ongoing_lock}"
| "holds (S_lock1 c r) = {Ongoing_lock}"
| "holds (S_out1 c r) = {Ongoing_lock}"
| "holds I_test1 = {Ongoing_lock}"
| "holds (I_buf1 d) = {Cir_buf_lock}"
| "holds (I_buf2 d) = {Cir_buf_lock}"
| "holds I_end1 = {Ongoing_lock}"
| "holds _ = {}"

text \<open>Where a caller of \<open>send\<close> goes on.\<close>

fun after_send :: "cont \<Rightarrow> pt" where
  "after_send C_read = R_spin"
| "after_send C_write = Res 0 None"
| "after_send C_thread = K_sleep"

text \<open>\<open>send\<close> and \<open>do_send\<close>; \<open>r\<close> retries are left, \<open>n\<close> is \<open>counter\<close>.\<close>

fun send_act :: "u64 \<Rightarrow> pt \<Rightarrow> msys \<Rightarrow> (pt \<times> msys) option" where
  "send_act now (S_test1 c r) s =
     Some (if ongoing (dev s) then (after_send c, s) else (S_high c r, set_dev (\<lambda>d. d\<lparr>ongoing := True\<rparr>) s))"
| "send_act now (S_high c r) s = Some (S_low c r, set_dev (\<lambda>d. d\<lparr>edges := edges d @ [(trigger_pin d, 1)]\<rparr>) s)"
| "send_act now (S_low c r) s = Some (S_stamp c r, set_dev (\<lambda>d. d\<lparr>edges := edges d @ [(trigger_pin d, 0)]\<rparr>) s)"
| "send_act now (S_stamp c r) s =
     Some (S_lock c r, set_dev (\<lambda>d. d\<lparr>kstart := now\<rparr>) (s\<lparr>stamps := stamps s @ [now]\<rparr>))"
| "send_act now (S_lock1 c r) s = Some (if ongoing (dev s) then S_poll c r 1 else after_send c, s)"
| "send_act now (S_poll c r n) s =
     Some (if \<not> ongoing (dev s) then after_send c else if n + 1 > 50000 then S_out c r else S_poll c r (n + 1), s)"
| "send_act now (S_out1 c r) s =
     Some (if r = 0 then after_send c else S_high c (r - 1), set_dev (\<lambda>d. d\<lparr>ongoing := False\<rparr>) s)"
| "send_act now p s = None"

text \<open>\<open>hc_sr04_read\<close>; \<open>bad\<close>: \<open>copy_to_user\<close> fails.\<close>

fun read_act :: "bool \<Rightarrow> pt \<Rightarrow> msys \<Rightarrow> (pt \<times> msys) option" where
  "read_act bad R_mode1 s = Some (if mode (dev s) = ONE_SHOT then R_on else R_new, s)"
| "read_act bad R_on1 s = Some (if \<not> ongoing (dev s) then S_test C_read 5 else R_spin, s)"
| "read_act bad R_spin s = Some (if ongoing (dev s) then R_spin_loop else R_copy, s)"
| "read_act bad R_spin_loop s = Some (if ongoing (dev s) then R_spin_loop else R_spin, s)"
| "read_act bad R_new1 s = Some (if newest (dev s) \<noteq> - 1 then R_new2 else R_re, s)"
| "read_act bad R_new2 s = Some (R_new3 (newest (dev s)), s)"
| "read_act bad (R_new3 k) s = Some (Res 0 (if bad then None else Some (slot k (dev s))), s)"
| "read_act bad R_re1 s = Some (if newest (dev s) = - 1 then R_re else R_copy, s)"
| "read_act bad R_copy1 s = Some (R_copy2 (newest (dev s)), s)"
| "read_act bad (R_copy2 k) s = Some (if bad then Res (- EAGAIN) None else Res 0 (Some (slot k (dev s))), s)"
| "read_act bad p s = None"

text \<open>\<open>hc_sr04_write\<close>; \<open>kthread_stop\<close> returns when the thread is gone.\<close>

fun write_act :: "pt \<Rightarrow> msys \<Rightarrow> (pt \<times> msys) option" where
  "write_act (W_mode1 a) s =
     Some (if mode (dev s) = ONE_SHOT then (if a \<noteq> 0 then W_clr else W_on) else W_kth a, s)"
| "write_act W_clr1 s = Some (W_clr2, set_dev (\<lambda>d. d\<lparr>cbuf := replicate NUM_DATA 0\<rparr>) s)"
| "write_act W_clr2 s = Some (W_on, set_dev (\<lambda>d. d\<lparr>newest := - 1\<rparr>) (s\<lparr>since := []\<rparr>))"
| "write_act W_on1 s = Some (if \<not> ongoing (dev s) then S_test C_write 5 else Res 0 None, s)"
| "write_act (W_kth1 a) s =
     (if a = 0
      then (if kthread (dev s) = None then Some (Res 0 None, s) else Some (W_join (started s), s\<lparr>stopped := insert (Kth (started s)) (stopped s)\<rparr>))
      else Some (if kthread (dev s) \<noteq> None then Res 0 None else W_run, s))"
| "write_act W_run s = Some (Res 0 None, start_thread K_start s)"
| "write_act (W_join k) s =
     (if pc s (Kth k) \<noteq> Idle then None else Some (W_off, set_dev (\<lambda>d. d\<lparr>kthread := None\<rparr>) s))"
| "write_act W_off1 s = Some (Res 0 None, set_dev (\<lambda>d. d\<lparr>ongoing := False\<rparr>) s)"
| "write_act p s = None"

text \<open>\<open>ioctl_SETMODE\<close>, after the mode was checked.\<close>

fun mode_act :: "pt \<Rightarrow> msys \<Rightarrow> (pt \<times> msys) option" where
  "mode_act (M_conf1 m f) s = Some (M_kth, set_dev (\<lambda>d. d\<lparr>mode := m, freq := f\<rparr>) s)"
| "mode_act M_kth1 s =
     (if kthread (dev s) = None then Some (Res 0 None, s) else Some (M_join (started s), s\<lparr>stopped := insert (Kth (started s)) (stopped s)\<rparr>))"
| "mode_act (M_join k) s =
     (if pc s (Kth k) \<noteq> Idle then None
      else if mode (dev s) \<noteq> ONE_SHOT then Some (Res 0 None, start_thread K_start s)
      else Some (Res 0 None, set_dev (\<lambda>d. d\<lparr>kthread := None\<rparr>) s))"
| "mode_act p s = None"

text \<open>The sampling thread: a thread that is told to stop before it ran does nothing.\<close>

fun thread_act :: "who \<Rightarrow> pt \<Rightarrow> msys \<Rightarrow> (pt \<times> msys) option" where
  "thread_act w K_start s =
     Some (if w \<in> stopped s then (Idle, s)
      else if freq (dev s) = 0 then (K_start, s\<lparr>hfault := Some DivideError\<rparr>)
      else (S_test C_thread 3, s))"
| "thread_act w K_sleep s = Some (if w \<in> stopped s then Idle else S_test C_thread 3, s)"
| "thread_act w p s = None"

text \<open>\<open>echo_recv_isr\<close>.\<close>

fun isr_act :: "u64 \<Rightarrow> pt \<Rightarrow> msys \<Rightarrow> (pt \<times> msys) option" where
  "isr_act now I_test1 s = Some (if \<not> ongoing (dev s) then I_end else I_time, s)"
| "isr_act now I_time s = Some (I_buf (distance_of (kstart (dev s)) now), s)"
| "isr_act now (I_buf1 d) s = Some (I_buf2 d, set_dev (\<lambda>x. x\<lparr>newest := (newest x + 1) mod int NUM_DATA\<rparr>) s)"
| "isr_act now (I_buf2 d) s =
     Some (I_end, set_dev (\<lambda>x. x\<lparr>cbuf := (cbuf x)[nat (newest x) := d]\<rparr>) (s\<lparr>since := since s @ [d], stored := stored s @ [d]\<rparr>))"
| "isr_act now I_end1 s = Some (Idle, set_dev (\<lambda>d. d\<lparr>ongoing := False\<rparr>) (s\<lparr>intr := None\<rparr>))"
| "isr_act now p s = None"

text \<open>The next step at a point that waits for no lock.\<close>

definition act :: "who \<Rightarrow> u64 \<Rightarrow> bool \<Rightarrow> pt \<Rightarrow> msys \<Rightarrow> (pt \<times> msys) option" where
  "act w now bad p s =
     (case send_act now p s of Some x \<Rightarrow> Some x | None \<Rightarrow>
      case read_act bad p s of Some x \<Rightarrow> Some x | None \<Rightarrow>
      case write_act p s of Some x \<Rightarrow> Some x | None \<Rightarrow>
      case mode_act p s of Some x \<Rightarrow> Some x | None \<Rightarrow>
      case thread_act w p s of Some x \<Rightarrow> Some x | None \<Rightarrow> isr_act now p s)"

datatype hcall = Read | Write s32 | Set_mode s32 u32

definition entry_pt :: "hcall \<Rightarrow> pt" where
  "entry_pt op =
     (case op of
        Read \<Rightarrow> R_mode
      | Write a \<Rightarrow> W_mode a
      | Set_mode m f \<Rightarrow> if m \<noteq> ONE_SHOT \<and> m \<noteq> PERIODIC then Res (- EINVAL) None else M_conf m f)"

fun at_rest :: "pt \<Rightarrow> bool" where
  "at_rest Idle = True"
| "at_rest (Res _ _) = True"
| "at_rest _ = False"

definition misc_code :: "(unit, pt, hcall) code" where
  "misc_code = \<lparr>acq_at = acq, hold_at = holds, act_at = act, entry_at = entry_pt, rest_at = at_rest,
     idle_at = Idle, thread_at = K_start, irq_at = I_test\<rparr>"

lemma misc_code_sel [simp]:
  "acq_at misc_code = acq" "hold_at misc_code = holds" "act_at misc_code = act" "entry_at misc_code = entry_pt"
  "rest_at misc_code = at_rest" "idle_at misc_code = Idle" "thread_at misc_code = K_start" "irq_at misc_code = I_test"
  by (simp_all add: misc_code_def)

abbreviation hsteps :: "bool \<Rightarrow> msys \<Rightarrow> msys \<Rightarrow> bool" where
  "hsteps \<equiv> ssteps misc_code"

abbreviation hruns :: "bool \<Rightarrow> who option list \<Rightarrow> msys \<Rightarrow> msys \<Rightarrow> bool" where
  "hruns \<equiv> sruns misc_code"

section \<open>What is at a point\<close>

text \<open>Who can be where: 0 for user threads, 1 for the sampling thread, 2 for the handler.\<close>

fun kind :: "pt \<Rightarrow> nat" where
  "kind K_start = 1"
| "kind K_sleep = 1"
| "kind (S_test c r) = (if c = C_thread then 1 else 0)"
| "kind (S_test1 c r) = (if c = C_thread then 1 else 0)"
| "kind (S_high c r) = (if c = C_thread then 1 else 0)"
| "kind (S_low c r) = (if c = C_thread then 1 else 0)"
| "kind (S_stamp c r) = (if c = C_thread then 1 else 0)"
| "kind (S_lock c r) = (if c = C_thread then 1 else 0)"
| "kind (S_lock1 c r) = (if c = C_thread then 1 else 0)"
| "kind (S_poll c r n) = (if c = C_thread then 1 else 0)"
| "kind (S_out c r) = (if c = C_thread then 1 else 0)"
| "kind (S_out1 c r) = (if c = C_thread then 1 else 0)"
| "kind I_test = 2"
| "kind I_test1 = 2"
| "kind I_time = 2"
| "kind (I_buf d) = 2"
| "kind (I_buf1 d) = 2"
| "kind (I_buf2 d) = 2"
| "kind I_end = 2"
| "kind I_end1 = 2"
| "kind _ = 0"

fun measuring :: "pt \<Rightarrow> bool" where
  "measuring (S_high c r) = True"
| "measuring (S_low c r) = True"
| "measuring (S_stamp c r) = True"
| "measuring (S_lock c r) = True"
| "measuring (S_lock1 c r) = True"
| "measuring (S_poll c r n) = True"
| "measuring (S_out c r) = True"
| "measuring (S_out1 c r) = True"
| "measuring _ = False"

fun read_value :: "pt \<Rightarrow> s32 option" where
  "read_value (Res c v) = v"
| "read_value _ = None"

fun to_store :: "pt \<Rightarrow> u32 option" where
  "to_store (I_buf d) = Some d"
| "to_store (I_buf1 d) = Some d"
| "to_store (I_buf2 d) = Some d"
| "to_store _ = None"

text \<open>
  What the sections of \<open>cir_buf_lock\<close> leave in memory half-way, and what is known of \<open>newest\<close> in them.
\<close>

fun half_ring :: "pt \<Rightarrow> int \<times> s32 list \<Rightarrow> int \<times> s32 list" where
  "half_ring (I_buf2 d) R = ((fst R + 1) mod int NUM_DATA, snd R)"
| "half_ring W_clr2 R = (fst R, replicate NUM_DATA 0)"
| "half_ring _ R = R"

fun seen_index :: "pt \<Rightarrow> int \<Rightarrow> bool" where
  "seen_index R_new2 n = (n \<noteq> - 1)"
| "seen_index (R_new3 k) n = (n = k)"
| "seen_index (R_copy2 k) n = (n = k)"
| "seen_index _ n = True"

fun joins :: "pt \<Rightarrow> nat option" where
  "joins (W_join k) = Some k"
| "joins (M_join k) = Some k"
| "joins _ = None"

lemma after_simps [simp]:
  "kind (after_send c) = (if c = C_thread then 1 else 0)" "holds (after_send c) = {}" "after_send c \<noteq> Idle" "after_send c \<noteq> W_run"
  "\<not> measuring (after_send c)" "read_value (after_send c) = None" "to_store (after_send c) = None" "joins (after_send c) = None"
  "half_ring (after_send c) R = R" "seen_index (after_send c) n"
  by (cases c; simp)+

lemma acq_frame:
  assumes "acq p = Some (l, p')"
  shows "holds p' = insert l (holds p) \<and> kind p' = kind p \<and> measuring p' = measuring p \<and> read_value p' = None
    \<and> to_store p' = to_store p \<and> p' \<noteq> Idle \<and> \<not> at_rest p"
  using assms by (cases p) auto

lemma acq_ring: "acq p = Some (l, p') \<Longrightarrow> half_ring p' R = half_ring p R \<and> seen_index p' n = seen_index p n"
  by (cases p) auto

lemma no_ring_lock: "Cir_buf_lock \<notin> holds p \<Longrightarrow> half_ring p R = R \<and> seen_index p n"
  by (cases p) auto

lemma act_control:
  assumes "act w now bad p s = Some (p', s')"
  shows "own s' = own s \<and> holds p' \<subseteq> holds p \<and> (p' = Idle \<or> kind p' = kind p) \<and> \<not> at_rest p"
    and "pc s' = pc s \<and> started s' = started s
      \<or> kind p = 0 \<and> pc s' = (pc s)(Kth (Suc (started s)) := K_start) \<and> started s' = Suc (started s)"
    and "intr s' = intr s \<and> \<not> (kind p = 2 \<and> p' = Idle) \<or> intr s' = None \<and> kind p = 2 \<and> p' = Idle"
  using assms by (cases p; auto simp: act_def start_thread_def split: if_splits)+

lemma act_flag:
  assumes "act w now bad p s = Some (p', s')" and "ongoing (dev s')"
  shows "measuring p' \<or> ongoing (dev s) \<and> \<not> measuring p"
  using assms by (cases p) (auto simp: act_def start_thread_def push_sample_def split: if_splits)

lemma act_keeps:
  assumes "act w now bad p s = Some (p', s')" and "Cir_buf_lock \<notin> holds p"
  shows "ring_of (dev s') = ring_of (dev s) \<and> since s' = since s \<and> stored s' = stored s"
  using assms by (cases p) (auto simp: act_def start_thread_def split: if_splits)

lemma act_data:
  assumes "act w now bad p s = Some (p', s')" and "Cir_buf_lock \<in> holds p" and "ring_of (dev s) = half_ring p R"
  shows "\<exists>R'. ring_of (dev s') = half_ring p' R' \<and> ring_moves (to_store p) R s R' s'"
  using assms by (cases p) (auto simp: act_def ring_of_def ring_moves_def push_ring_def prod_eq_iff split: if_splits)

lemma act_time:
  assumes "act w now bad p s = Some (p', s')"
  shows "kstart (dev s') = kstart (dev s) \<and> stamps s' = stamps s \<or> stamps s' = stamps s @ [kstart (dev s')]"
  using assms by (cases p) (auto simp: act_def start_thread_def split: if_splits)

lemma act_seen:
  assumes "act w now bad p s = Some (p', s')" and "seen_index p (newest (dev s))"
  shows "seen_index p' (newest (dev s'))"
  using assms by (cases p) (auto simp: act_def start_thread_def split: if_splits)

lemma act_value:
  assumes "act w now bad p s = Some (p', s')"
  shows "read_value p' = Some x \<Longrightarrow> seen_index p (newest (dev s)) \<Longrightarrow>
      Cir_buf_lock \<in> holds p \<and> (\<forall>R. half_ring p R = R) \<and> newest (dev s) \<noteq> - 1 \<and> x = sample (dev s) \<or> x \<in> {- 1}"
    and "to_store p' = Some d \<Longrightarrow> to_store p = Some d \<or> (\<exists>t. d = distance_of (kstart (dev s)) t)"
  using assms by (cases p; auto simp: act_def sample_def slot_def split: if_splits)+

interpretation msc: sensor_code misc_code kind measuring read_value to_store "\<lambda>_. {- 1}" half_ring seen_index
proof (unfold_locales, unfold misc_code_sel)
  show "holds (entry_pt op) = {}" "kind (entry_pt op) = 0" "entry_pt op \<noteq> Idle" "read_value (entry_pt op) = None"
    "to_store (entry_pt op) = None" for op by (cases op; simp add: entry_pt_def)+
  show "at_rest p \<Longrightarrow> holds p = {} \<and> \<not> measuring p \<and> to_store p = None" for p by (cases p) simp_all
qed (fact acq_frame acq_ring no_ring_lock act_control act_flag act_keeps act_data act_time act_seen act_value | simp)+

section \<open>The sampling thread\<close>

text \<open>There is at most one, the pointer to it is not null, and one is only started where the pointer is null.\<close>

definition thread_inv :: "msys \<Rightarrow> bool" where
  "thread_inv s \<longleftrightarrow> (\<forall>k. pc s (Kth k) \<noteq> Idle \<longrightarrow> k = started s \<and> kthread (dev s) \<noteq> None)
     \<and> (\<forall>w k. joins (pc s w) = Some k \<longrightarrow> k = started s) \<and> (\<forall>w. pc s w = W_run \<longrightarrow> kthread (dev s) = None)"

lemma act_thread:
  assumes "act w now bad p s = Some (p', s')"
  shows "pc s' = pc s \<and> started s' = started s \<and> (\<forall>k. joins p' = Some k \<longrightarrow> k = started s)
      \<and> (kthread (dev s) \<noteq> None \<longrightarrow> kthread (dev s') = None \<longrightarrow> (\<exists>k. joins p = Some k \<and> pc s (Kth k) = Idle))
      \<and> (kthread (dev s) = None \<longrightarrow> kthread (dev s') = None) \<and> (p' = W_run \<longrightarrow> kthread (dev s') = None)
    \<or> Kthread_lock \<in> holds p \<and> pc s' = (pc s)(Kth (Suc (started s)) := K_start) \<and> started s' = Suc (started s)
      \<and> kthread (dev s') \<noteq> None \<and> joins p' = None \<and> p' \<noteq> W_run
      \<and> (p = W_run \<or> (\<exists>k. joins p = Some k \<and> pc s (Kth k) = Idle))"
  using assms by (cases p) (auto simp: act_def start_thread_def push_sample_def split: if_splits)

lemma joins_frame: "joins p = Some k \<Longrightarrow> Kthread_lock \<in> holds p \<and> acq p = None \<and> \<not> at_rest p"
  by (cases p) auto

lemma thread_move:
  assumes t: "thread_inv s" and l: "msc.lock_inv s" and a: "act w now bad (pc s w) s = Some (p, s1)"
  shows "thread_inv (move misc_code w p s1)"
proof -
  have t1: "k = started s \<and> kthread (dev s) \<noteq> None" if "pc s (Kth k) \<noteq> Idle" for k using t that by (auto simp: thread_inv_def)
  have t2: "k = started s" if "joins (pc s w') = Some k" for k w' using t that by (auto simp: thread_inv_def)
  have t3: "kthread (dev s) = None" if "pc s w' = W_run" for w' using t that by (auto simp: thread_inv_def)
  have e: "pc s (Kth j) = Idle" if "pc s w = W_run \<or> (\<exists>k. joins (pc s w) = Some k \<and> pc s (Kth k) = Idle)" for j
    using that t1 t2 t3 by blast
  have w: "pc s w \<noteq> Idle" using act_control(1) [OF a] by auto
  show ?thesis unfolding thread_inv_def
  proof (intro conjI allI impI)
    fix k assume k: "pc (move misc_code w p s1) (Kth k) \<noteq> Idle"
    with act_thread [OF a] w have "pc s (Kth k) \<noteq> Idle \<or> k = started s1 \<and> kthread (dev s1) \<noteq> None" by (auto split: if_splits)
    with act_thread [OF a] t1 [of k] e [of k] show "k = started (move misc_code w p s1)" "kthread (dev (move misc_code w p s1)) \<noteq> None"
      by auto
  next
    fix w' k assume j: "joins (pc (move misc_code w p s1) w') = Some k"
    have "joins (pc s w') = None" if "w' \<noteq> w" "Kthread_lock \<in> holds (pc s w)"
      using that joins_frame [of "pc s w'"] msc.exclusion [OF l, of Kthread_lock w w'] by (cases "joins (pc s w')") auto
    with act_thread [OF a] j t2 [of w' k] show "k = started (move misc_code w p s1)" by (auto split: if_splits)
  next
    fix w' assume r: "pc (move misc_code w p s1) w' = W_run"
    have "pc s w' \<noteq> W_run" if "w' \<noteq> w" "Kthread_lock \<in> holds (pc s w)"
      using that msc.exclusion [OF l, of Kthread_lock w w'] by auto
    with act_thread [OF a] r t3 [of w'] show "kthread (dev (move misc_code w p s1)) = None" by (auto split: if_splits)
  qed
qed

lemma thread_step:
  assumes t: "thread_inv s" and l: "msc.lock_inv s" and st: "sstep misc_code m x s s'"
  shows "thread_inv s'"
  using st
proof cases
  case (Call n op)
  have "joins (entry_pt op) = None" "entry_pt op \<noteq> W_run" by (cases op; simp add: entry_pt_def)+
  with Call t show ?thesis by (auto simp: thread_inv_def)
next
  case (Interrupt v)
  with t show ?thesis by (auto simp: thread_inv_def)
next
  case (Run now bad w)
  from Run(2) show ?thesis
  proof (cases rule: sexec_cases)
    case (Take l p)
    then have "joins p = None" "p \<noteq> W_run" "pc s w \<noteq> Idle" by (cases "pc s w"; auto)+
    with Take t show ?thesis by (auto simp: thread_inv_def)
  next
    case (Act p s1)
    with thread_move [OF t l] show ?thesis by simp
  qed
qed

lemma thread_reachable:
  assumes "hsteps m (hsys_of misc_code d) s" and n: "new_dev d"
  shows "thread_inv s"
  using assms(1)
proof (induction rule: rtranclp_induct)
  case base
  show ?case by (simp add: thread_inv_def hsys_of_def)
next
  case (step s s')
  then show ?case using thread_step msc.invs_reachable [OF step.hyps(1) n] by blast
qed

end
