(* ===== verification/Sensor_Measure.thy ===== *)
theory Sensor_Measure
  imports Sensor_Machine
begin

text \<open>
  How the sequential measurement of \<open>HCSR_Driver\<close> is found again in the machine of
  \<open>Sensor_Machine\<close>: from the laws of the single stretches of \<open>send\<close> (raising the flag, the pulse, polling, an
  echo, the time-out), each run without anybody in between, every outcome of the sequential \<open>send\<close> is a
  behaviour of the machine. Both sensor drivers interpret the locale.
\<close>

text \<open>Nobody holds a lock and no interrupt is being handled.\<close>

definition quiet :: "('z, 'p, 'c) code \<Rightarrow> ('z, 'p) hsys \<Rightarrow> bool" where
  "quiet C s \<longleftrightarrow> hfault s = None \<and> intr s = None \<and> own s = (\<lambda>_. None) \<and> pc s Handler = idle_at C"

text \<open>
  \<open>test c r\<close>, \<open>attempt c r\<close> and \<open>polling c r n\<close> are the points of \<open>send\<close>, called from \<open>c\<close> with \<open>r\<close> retries left, before the flag is
  tested, before a pulse, and after \<open>n\<close> polls.
\<close>

locale measurement =
  fixes C :: "('z, 'p, 'c) code"
    and test :: "'k \<Rightarrow> nat \<Rightarrow> 'p"
    and attempt :: "'k \<Rightarrow> nat \<Rightarrow> 'p"
    and polling :: "'k \<Rightarrow> nat \<Rightarrow> nat \<Rightarrow> 'p"
    and after :: "'k \<Rightarrow> 'p"
  assumes flag_up: "quiet C s \<Longrightarrow> pc s w = test c r \<Longrightarrow> w \<noteq> Handler \<Longrightarrow>
      \<exists>s'. ssteps C m s s' \<and> quiet C s' \<and> (if ongoing (dev s) then pc s' w = after c \<and> dev s' = dev s
        else pc s' w = attempt c r \<and> dev s' = (dev s)\<lparr>ongoing := True\<rparr>)"
    and pulse_sent: "quiet C s \<Longrightarrow> pc s w = attempt c r \<Longrightarrow> w \<noteq> Handler \<Longrightarrow>
      \<exists>s'. ssteps C m s s' \<and> quiet C s' \<and> pc s' w = (if ongoing (dev s) then polling c r 1 else after c) \<and> dev s' = pulse t (dev s)"
    and echo_stored: "quiet C s \<Longrightarrow> ongoing (dev s) \<Longrightarrow> w \<noteq> Handler \<Longrightarrow>
      \<exists>s'. ssteps C m s s' \<and> quiet C s' \<and> pc s' w = pc s w \<and> dev s' = recorded now (dev s)"
    and poll_again: "quiet C s \<Longrightarrow> ongoing (dev s) \<Longrightarrow> pc s w = polling c r n \<Longrightarrow> n < 50000 \<Longrightarrow>
      ssteps C m s (s\<lparr>pc := (pc s)(w := polling c r (Suc n))\<rparr>)"
    and poll_answered: "quiet C s \<Longrightarrow> \<not> ongoing (dev s) \<Longrightarrow> pc s w = polling c r n \<Longrightarrow> w \<noteq> Handler \<Longrightarrow>
      \<exists>s'. ssteps C m s s' \<and> quiet C s' \<and> pc s' w = after c \<and> dev s' = dev s"
    and timed_out: "quiet C s \<Longrightarrow> ongoing (dev s) \<Longrightarrow> pc s w = polling c (Suc r) 50000 \<Longrightarrow> w \<noteq> Handler \<Longrightarrow>
      \<exists>s'. ssteps C m s s' \<and> quiet C s' \<and> pc s' w = attempt c r \<and> dev s' = (dev s)\<lparr>ongoing := False\<rparr>"
begin

text \<open>A thread that polls while somebody's measurement goes on.\<close>

lemma polls:
  assumes "quiet C s" and "ongoing (dev s)" and "pc s w = polling c r n" and "w \<noteq> Handler"
  shows "n + k \<le> 50000 \<Longrightarrow> ssteps C m s (s\<lparr>pc := (pc s)(w := polling c r (n + k))\<rparr>)"
proof (induction k)
  case 0
  have "s\<lparr>pc := (pc s)(w := polling c r (n + 0))\<rparr> = s" using assms(3) by (simp add: fun_upd_idem)
  then show ?case by (simp only: rtranclp.rtrancl_refl)
next
  case (Suc k)
  let ?s = "s\<lparr>pc := (pc s)(w := polling c r (n + k))\<rparr>"
  have "quiet C ?s" "ongoing (dev ?s)" "pc ?s w = polling c r (n + k)" using assms by (simp_all add: quiet_def)
  from poll_again [OF this] Suc.prems have "ssteps C m ?s (s\<lparr>pc := (pc s)(w := polling c r (n + Suc k))\<rparr>)" by simp
  moreover have "ssteps C m s ?s" by (rule Suc.IH) (use Suc.prems in simp)
  ultimately show ?case by (rule rtranclp_trans [rotated])
qed

text \<open>The two outcomes of a measurement that was begun.\<close>

lemma answered:
  assumes q: "quiet C s" and p: "pc s w = polling c r n" and on: "ongoing (dev s)" and w: "w \<noteq> Handler"
  shows "\<exists>s'. ssteps C m s s' \<and> quiet C s' \<and> pc s' w = after c \<and> dev s' = recorded now (dev s)"
proof -
  obtain s1 where s1: "ssteps C m s s1" "quiet C s1" "pc s1 w = pc s w" "dev s1 = recorded now (dev s)"
    using echo_stored [OF q on w] by blast
  then have "\<not> ongoing (dev s1)" by (simp add: recorded_def)
  from poll_answered [OF s1(2) this s1(3) [unfolded p] w] obtain s2 where s2: "ssteps C m s1 s2" "quiet C s2" "pc s2 w = after c"
    "dev s2 = dev s1" by auto
  with s1(4) rtranclp_trans [OF s1(1) s2(1)] show ?thesis by auto
qed

lemma given_up:
  assumes q: "quiet C s" and p: "pc s w = polling c (Suc r) 1" and on: "ongoing (dev s)" and w: "w \<noteq> Handler"
  shows "\<exists>s'. ssteps C m s s' \<and> quiet C s' \<and> pc s' w = after c \<and> dev s' = pulse t ((dev s)\<lparr>ongoing := False\<rparr>)"
proof -
  let ?s = "s\<lparr>pc := (pc s)(w := polling c (Suc r) 50000)\<rparr>"
  have st: "ssteps C m s ?s" using polls [OF q on p w, of 49999] by simp
  have "quiet C ?s" "ongoing (dev ?s)" "pc ?s w = polling c (Suc r) 50000" using q on w by (simp_all add: quiet_def)
  from timed_out [OF this w] obtain s1 where s1: "ssteps C m ?s s1" "quiet C s1" "pc s1 w = attempt c r"
    "dev s1 = (dev s)\<lparr>ongoing := False\<rparr>" by auto
  from pulse_sent [OF s1(2,3) w] s1(4) obtain s2 where s2: "ssteps C m s1 s2" "quiet C s2" "pc s2 w = after c"
    "dev s2 = pulse t (dev s1)" by auto
  with s1(4) rtranclp_trans [OF rtranclp_trans [OF st s1(1)] s2(1)] show ?thesis by auto
qed

lemma send_covered:
  assumes q: "quiet C s" and p: "pc s w = test c (Suc r)" and w: "w \<noteq> Handler" and h: "held (dev s) = {}"
  shows "\<exists>d' s'. send atts (Suc r) (dev s) = Ret 0 d' \<and> ssteps C m s s' \<and> quiet C s' \<and> pc s' w = after c \<and> dev s' = d'"
proof -
  obtain t0 ev t1 ev1 where a: "atts 0 = (t0, ev)" "atts 1 = (t1, ev1)" by (cases "atts 0"; cases "atts 1") auto
  note seq = send_run [OF h a, of r]
  obtain s1 where s1: "ssteps C m s s1" "quiet C s1" "if ongoing (dev s) then pc s1 w = after c \<and> dev s1 = dev s
      else pc s1 w = attempt c (Suc r) \<and> dev s1 = (dev s)\<lparr>ongoing := True\<rparr>" using flag_up [OF q p w] by blast
  show ?thesis
  proof (cases "ongoing (dev s)")
    case True
    with s1 seq show ?thesis by auto
  next
    case off: False
    then have s1': "pc s1 w = attempt c (Suc r)" "dev s1 = (dev s)\<lparr>ongoing := True\<rparr>" using s1(3) by simp_all
    then obtain s2 where s2: "ssteps C m s1 s2" "quiet C s2" "pc s2 w = polling c (Suc r) 1" "dev s2 = pulse t0 (dev s1)"
      using pulse_sent [OF s1(2) s1'(1) w, of m t0] by auto
    have st: "ssteps C m s s2" using s1(1) s2(1) by (rule rtranclp_trans)
    have on: "ongoing (dev s2)" using s2(4) s1'(2) by simp
    show ?thesis
    proof (cases "first_echo ev")
      case (Some k)
      obtain s3 where s3: "ssteps C m s2 s3" "quiet C s3" "pc s3 w = after c" "dev s3 = recorded (the (ev k)) (dev s2)"
        using answered [OF s2(2,3) on w] by blast
      moreover have "dev s3 = recorded (the (ev k)) (pulse t0 (dev s))"
        using s3(4) s2(4) s1'(2) by (simp add: recorded_def pulse_def push_sample_def next_slot_def)
      ultimately show ?thesis using seq off Some rtranclp_trans [OF st s3(1)] by auto
    next
      case None
      obtain s3 where s3: "ssteps C m s2 s3" "quiet C s3" "pc s3 w = after c"
        "dev s3 = pulse t1 ((dev s2)\<lparr>ongoing := False\<rparr>)" using given_up [OF s2(2,3) on w] by blast
      moreover have "dev s3 = pulse t1 (pulse t0 (dev s))"
        using s3(4) s2(4) s1'(2) off by (simp add: pulse_def ongoing_same)
      ultimately show ?thesis using seq off None rtranclp_trans [OF st s3(1)] by auto
    qed
  qed
qed

end

end
