(* ===== verification/HCSR_Race_Proofs.thy ===== *)
theory HCSR_Race_Proofs
  imports HCSR_Race Sensor_Measure
begin

text \<open>
  What the interleaved sensor device of \<open>HCSR_Race\<close> guarantees: that a measurement always
  comes to an end, how the locks can and cannot block each other, the races of the
  measurement flag, and that it covers the sequential measurement.
\<close>

section \<open>A measurement ends\<close>

fun sending :: "cont \<Rightarrow> pt \<Rightarrow> bool" where
  "sending c (S_test c' r) = (c' = c)"
| "sending c (S_test1 c' r) = (c' = c)"
| "sending c (S_high c' r) = (c' = c)"
| "sending c (S_low c' r) = (c' = c)"
| "sending c (S_stamp c' r) = (c' = c)"
| "sending c (S_lock c' r) = (c' = c)"
| "sending c (S_lock1 c' r) = (c' = c)"
| "sending c (S_poll c' r n) = (c' = c)"
| "sending c (S_out c' r) = (c' = c)"
| "sending c (S_out1 c' r) = (c' = c)"
| "sending c _ = False"

text \<open>How many steps of its own a thread still has in \<open>send\<close>, at most.\<close>

fun send_left :: "pt \<Rightarrow> nat" where
  "send_left (S_test c r) = 50007 * r + 50009"
| "send_left (S_test1 c r) = 50007 * r + 50008"
| "send_left (S_high c r) = 50007 * r + 50007"
| "send_left (S_low c r) = 50007 * r + 50006"
| "send_left (S_stamp c r) = 50007 * r + 50005"
| "send_left (S_lock c r) = 50007 * r + 50004"
| "send_left (S_lock1 c r) = 50007 * r + 50003"
| "send_left (S_poll c r n) = 50007 * r + 3 + (50000 - n)"
| "send_left (S_out c r) = 50007 * r + 2"
| "send_left (S_out1 c r) = 50007 * r + 1"
| "send_left _ = 0"

lemma sending_acq: "acq p = Some (l, p') \<Longrightarrow> sending c p \<Longrightarrow> sending c p' \<and> send_left p' < send_left p"
  by (cases p) auto

lemma sending_act:
  "act w now bad p s = Some (p', s') \<Longrightarrow> sending c p \<Longrightarrow> sending c p' \<and> send_left p' < send_left p \<or> p' = after_send c"
  by (cases p) (auto simp: act_def gr0_conv_Suc split: if_splits)

lemma sending_pos: "sending c p \<Longrightarrow> 0 < send_left p \<and> \<not> at_rest p \<and> p \<noteq> Idle"
  by (cases p) auto

interpretation msd: sensor_send misc_code kind measuring read_value to_store "\<lambda>_. {- 1}" half_ring seen_index sending send_left after_send
  by unfold_locales (simp_all add: sending_acq sending_act sending_pos)

section \<open>Who waits for whom\<close>

text \<open>The order in which the locks are taken, with the handler and the sampling thread in it.\<close>

definition level :: "who \<Rightarrow> pt \<Rightarrow> nat" where
  "level w p =
     (if Ongoing_lock \<in> holds p \<or> Cir_buf_lock \<in> holds p then 0
      else if w = Handler then 1
      else if Kthread_lock \<in> holds p then 3
      else if Kconfig_lock \<in> holds p then 4
      else case map_option fst (acq p) of
          Some Kthread_lock \<Rightarrow> 4
        | Some Kconfig_lock \<Rightarrow> 5
        | _ \<Rightarrow> 2)"

lemma act_some:
  assumes "acq p = None" and "\<not> at_rest p" and "\<And>k. joins p = Some k \<Longrightarrow> pc s (Kth k) = Idle"
  shows "act w now bad p s \<noteq> None"
  using assms by (cases p) (auto simp: act_def)

lemma level_lock:
  assumes "kind p = role w" and "kind p' = role w'" and "acq p = Some (l, q)" and "l \<in> holds p'"
  shows "level w' p' < level w p"
proof -
  have "l \<notin> holds p" using assms(3) by (cases p) auto
  with assms show ?thesis
    by (cases p) (auto simp: level_def split: who.splits option.splits hlock.splits)
qed

lemma level_join:
  assumes "joins p = Some k" and "kind p = role w" and "kind p' = 1"
  shows "level (Kth k') p' < level w p"
proof -
  have "level (Kth k') p' \<le> 2" using assms(3) by (cases p') (auto simp: level_def)
  moreover have "w \<noteq> Handler" "Kthread_lock \<in> holds p" "Ongoing_lock \<notin> holds p" "Cir_buf_lock \<notin> holds p"
    using assms(1,2) by (cases p; auto)+
  ultimately show ?thesis by (simp add: level_def)
qed

interpretation mso: sensor_order misc_code kind measuring read_value to_store "\<lambda>_. {- 1}" half_ring seen_index joins "\<lambda>_. True" level
proof (unfold_locales, unfold misc_code_sel)
  show "joins p = Some k \<Longrightarrow> acq p = None" "joins p = Some k \<Longrightarrow> \<not> at_rest p" for p k by (simp_all add: joins_frame)
  show "joins p = Some k \<Longrightarrow> pc s (Kth k) \<noteq> Idle \<Longrightarrow> act w now bad p s = None" for p k s w now bad
    by (cases p) (auto simp: act_def)
  show "kind p = 1 \<Longrightarrow> \<not> at_rest p" "kind p = 2 \<Longrightarrow> \<not> at_rest p" for p by (cases p; simp)+
  show "role w \<noteq> 2 \<Longrightarrow> Ongoing_lock \<notin> holds p \<Longrightarrow> Cir_buf_lock \<notin> holds p \<Longrightarrow> level Handler p' < level w p" for w p p'
    by (cases w) (auto simp: level_def split: option.splits hlock.splits)
qed (fact act_some | rule level_lock level_join; assumption)+

section \<open>Runs\<close>

definition fresh_A :: hcsr_struct where
  "fresh_A = init_hcsr_struct zero_hcsr"

lemma fresh_new: "new_dev fresh_A"
  by (simp add: new_dev_def fresh_A_def init_hcsr_struct_def zero_hcsr_def)

lemmas hrun_simps = may_interrupt_def replicate_numeral_Cons sexec_def act_def move_def entry_pt_def start_thread_def hsys_of_def fresh_A_def
  init_hcsr_struct_def zero_hcsr_def sample_def slot_def

text \<open>A reader is about to look at the flag in \<open>send\<close>, under the lock, when an echo arrives on its processor.\<close>

definition jam_run :: "hcall hevent list" where
  "jam_run = [E_call 0 Read, E_run (User 0) 0, E_run (User 0) 0, E_run (User 0) 0, E_run (User 0) 0, E_run (User 0) 0,
     E_int (Some (User 0))]"

lemma jam_reached: "\<exists>s. hrun misc_code False jam_run (hsys_of misc_code fresh_A) = Some s \<and> pc s (User 0) = S_test1 C_read 5
     \<and> intr s = Some (User 0) \<and> pc s Handler = I_test \<and> own s Ongoing_lock = Some (User 0)"
  by (simp add: jam_run_def hrun_simps)

text \<open>
  An interrupt that has nothing to do with a measurement is being handled while a reader starts
  to measure.
\<close>

definition stray_run :: "hcall hevent list" where
  "stray_run = [E_int None, E_run Handler 0, E_run Handler 0, E_call 0 Read] @ replicate 9 (E_run (User 0) 1000)
     @ [E_run Handler 0, E_run Handler 0] @ replicate 6 (E_run (User 0) 2000)"

lemma stray_reached:
  "\<exists>s. hrun misc_code True stray_run (hsys_of misc_code fresh_A) = Some s \<and> pc s (User 0) = Res 0 (Some (- 1)) \<and> stored s = []
     \<and> stamps s = [1000] \<and> \<not> ongoing (dev s)"
  by (simp add: stray_run_def hrun_simps cong: if_cong)

text \<open>A one-shot read whose pulse is answered after 5.8 milliseconds.\<close>

definition read_start :: "hcall hevent list" where
  "read_start = [E_call 0 Read, E_run (User 0) 0, E_run (User 0) 0, E_run (User 0) 0, E_run (User 0) 0]"

definition read_rest :: "hcall hevent list" where
  "read_rest = replicate 7 (E_run (User 0) 0) @ [E_int None] @ replicate 8 (E_run Handler 5800000) @ replicate 5 (E_run (User 0) 0)"

lemma read_reached:
  "\<exists>s s'. hrun misc_code True read_start (hsys_of misc_code fresh_A) = Some s \<and> pc s (User 0) = S_test C_read 5
     \<and> hrun misc_code True read_rest s = Some s' \<and> pc s' (User 0) = Res 0 (Some 1000) \<and> stored s' = [1000]"
  by (simp add: read_start_def read_rest_def hrun_simps distance_of_def push_sample_def next_slot_def cong: if_cong)

text \<open>The handler waits on one processor for a reader on another.\<close>

definition wait_run :: "hcall hevent list" where
  "wait_run = read_start @ [E_run (User 0) 0, E_int None]"

lemma wait_reached:
  "\<exists>s. hrun misc_code True wait_run (hsys_of misc_code fresh_A) = Some s \<and> pc s Handler = I_test \<and> hfault s = None
     \<and> own s Ongoing_lock = Some (User 0)"
  by (simp add: wait_run_def read_start_def hrun_simps cong: if_cong)

section \<open>The sequential measurement\<close>

text \<open>The pulse of an attempt, up to the first look at the flag, and the handler of an echo.\<close>

definition pulse_events :: "who \<Rightarrow> u64 \<Rightarrow> hcall hevent list" where
  "pulse_events w t = replicate 5 (E_run w t)"

definition echo_events :: "u64 \<Rightarrow> hcall hevent list" where
  "echo_events now = E_int None # replicate 8 (E_run Handler now)"

lemmas quiet_simps = may_interrupt_def quiet_def sexec_def act_def move_def replicate_numeral_Cons pulse_events_def echo_events_def

lemma run_flag_up:
  assumes "quiet misc_code s" and "pc s w = S_test c r" and "w \<noteq> Handler"
  shows "\<exists>s'. hrun misc_code m [E_run w 0, E_run w 0] s = Some s' \<and> quiet misc_code s'
    \<and> (if ongoing (dev s) then pc s' w = after_send c \<and> dev s' = dev s
       else pc s' w = S_high c r \<and> dev s' = (dev s)\<lparr>ongoing := True\<rparr>)"
  using assms by (auto simp: quiet_simps cong: if_cong)

lemma run_pulse:
  assumes "quiet misc_code s" and "pc s w = S_high c r" and "w \<noteq> Handler"
  shows "\<exists>s'. hrun misc_code m (pulse_events w t) s = Some s' \<and> quiet misc_code s'
    \<and> pc s' w = (if ongoing (dev s) then S_poll c r 1 else after_send c) \<and> dev s' = pulse t (dev s)"
  using assms by (auto simp: quiet_simps pulse_def cong: if_cong)

lemma run_echo:
  assumes "quiet misc_code s" and "ongoing (dev s)" and "w \<noteq> Handler"
  shows "\<exists>s'. hrun misc_code m (echo_events now) s = Some s' \<and> quiet misc_code s' \<and> pc s' w = pc s w
    \<and> dev s' = recorded now (dev s)"
  using assms by (auto simp: quiet_simps recorded_def push_sample_def next_slot_def cong: if_cong)

lemma run_poll:
  assumes "quiet misc_code s" and "pc s w = S_poll c r n" and "w \<noteq> Handler"
  shows "ongoing (dev s) \<Longrightarrow> n < 50000 \<Longrightarrow> hrun misc_code m [E_run w 0] s = Some (s\<lparr>pc := (pc s)(w := S_poll c r (Suc n))\<rparr>)"
    and "\<not> ongoing (dev s) \<Longrightarrow>
      \<exists>s'. hrun misc_code m [E_run w 0] s = Some s' \<and> quiet misc_code s' \<and> pc s' w = after_send c \<and> dev s' = dev s"
  using assms by (auto simp: quiet_simps cong: if_cong)

lemma run_time_out:
  assumes "quiet misc_code s" and "ongoing (dev s)" and "pc s w = S_poll c (Suc r) 50000" and "w \<noteq> Handler"
  shows "\<exists>s'. hrun misc_code m [E_run w 0, E_run w 0, E_run w 0] s = Some s' \<and> quiet misc_code s' \<and> pc s' w = S_high c r
    \<and> dev s' = (dev s)\<lparr>ongoing := False\<rparr>"
  using assms by (auto simp: quiet_simps cong: if_cong)

lemma poll_not_handler: "quiet misc_code s \<Longrightarrow> pc s w = S_poll c r n \<Longrightarrow> w \<noteq> Handler"
  by (auto simp: quiet_def)

interpretation mme: measurement misc_code S_test S_high S_poll after_send
proof
  fix s w c r n m now t
  assume q: "quiet misc_code s"
  show "pc s w = S_test c r \<Longrightarrow> w \<noteq> Handler \<Longrightarrow> \<exists>s'. hsteps m s s' \<and> quiet misc_code s' \<and>
      (if ongoing (dev s) then pc s' w = after_send c \<and> dev s' = dev s
       else pc s' w = S_high c r \<and> dev s' = (dev s)\<lparr>ongoing := True\<rparr>)"
    using run_flag_up [OF q] hrun_steps by blast
  show "pc s w = S_high c r \<Longrightarrow> w \<noteq> Handler \<Longrightarrow> \<exists>s'. hsteps m s s' \<and> quiet misc_code s' \<and>
      pc s' w = (if ongoing (dev s) then S_poll c r 1 else after_send c) \<and> dev s' = pulse t (dev s)"
    using run_pulse [OF q] hrun_steps by blast
  show "ongoing (dev s) \<Longrightarrow> w \<noteq> Handler \<Longrightarrow> \<exists>s'. hsteps m s s' \<and> quiet misc_code s' \<and> pc s' w = pc s w
      \<and> dev s' = recorded now (dev s)"
    using run_echo [OF q] hrun_steps by blast
  show "ongoing (dev s) \<Longrightarrow> pc s w = S_poll c r n \<Longrightarrow> n < 50000 \<Longrightarrow> hsteps m s (s\<lparr>pc := (pc s)(w := S_poll c r (Suc n))\<rparr>)"
    using run_poll(1) [OF q _ poll_not_handler [OF q]] hrun_steps by blast
  show "\<not> ongoing (dev s) \<Longrightarrow> pc s w = S_poll c r n \<Longrightarrow> w \<noteq> Handler \<Longrightarrow>
      \<exists>s'. hsteps m s s' \<and> quiet misc_code s' \<and> pc s' w = after_send c \<and> dev s' = dev s"
    using run_poll(2) [OF q] hrun_steps by blast
  show "ongoing (dev s) \<Longrightarrow> pc s w = S_poll c (Suc r) 50000 \<Longrightarrow> w \<noteq> Handler \<Longrightarrow>
      \<exists>s'. hsteps m s s' \<and> quiet misc_code s' \<and> pc s' w = S_high c r \<and> dev s' = (dev s)\<lparr>ongoing := False\<rparr>"
    using run_time_out [OF q] hrun_steps by blast
qed

section \<open>A time-out that ends the measurement of somebody else\<close>

text \<open>
  Two readers: the first has been answered but not looked at the flag when the second starts to
  measure. It takes the measurement of the second for its own, and its time-out ends it.
\<close>

definition two_readers :: "hcall hevent list" where
  "two_readers = [E_call 0 Read] @ replicate 11 (E_run (User 0) 0) @ [E_int None] @ replicate 8 (E_run Handler 5800000)
     @ [E_call 1 Read] @ replicate 11 (E_run (User 1) 7000000)"

definition time_out :: "hcall hevent list" where
  "time_out = replicate 3 (E_run (User 0) 0) @ replicate 5 (E_run (User 1) 0)"

lemma two_readers_reached:
  "\<exists>s s'. hrun misc_code True two_readers (hsys_of misc_code fresh_A) = Some s \<and> pc s (User 0) = S_poll C_read 5 1 \<and> ongoing (dev s)
     \<and> quiet misc_code s
     \<and> hrun misc_code True time_out (s\<lparr>pc := (pc s)(User 0 := S_poll C_read 5 50000)\<rparr>) = Some s'
     \<and> pc s' (User 1) = Res 0 (Some 1000) \<and> stored s' = [1000] \<and> stamps s' = [0, 7000000]"
  by (simp add: two_readers_def time_out_def quiet_def hrun_simps distance_of_def push_sample_def next_slot_def cong: if_cong)

lemma hcsr_timeout_ends_other:
  "\<exists>s. hsteps True (hsys_of misc_code fresh_A) s \<and> pc s (User 1) = Res 0 (Some 1000) \<and> stored s = [1000] \<and> stamps s = [0, 7000000]"
proof -
  obtain s s' where s: "hrun misc_code True two_readers (hsys_of misc_code fresh_A) = Some s" "pc s (User 0) = S_poll C_read 5 1"
    "ongoing (dev s)" "quiet misc_code s"
    and s': "hrun misc_code True time_out (s\<lparr>pc := (pc s)(User 0 := S_poll C_read 5 50000)\<rparr>) = Some s'"
    "pc s' (User 1) = Res 0 (Some 1000)" "stored s' = [1000]" "stamps s' = [0, 7000000]"
    using two_readers_reached by blast
  have "hsteps True s (s\<lparr>pc := (pc s)(User 0 := S_poll C_read 5 50000)\<rparr>)"
    using mme.polls [OF s(4,3,2), of 49999] by simp
  with hrun_steps [OF s(1)] hrun_steps [OF s'(1)] have "hsteps True (hsys_of misc_code fresh_A) s'" by (meson rtranclp_trans)
  with s' show ?thesis by blast
qed

lemma read_start_quiet:
  "\<exists>s. hrun misc_code True read_start (hsys_of misc_code fresh_A) = Some s \<and> pc s (User 0) = S_test C_read 5 \<and> quiet misc_code s \<and> dev s = fresh_A"
  by (simp add: read_start_def hrun_simps quiet_def cong: if_cong)

section \<open>Properties\<close>

text \<open>
  (C7) What holds of a sensor under every interleaving of readers, writers, mode changes, the
  sampling thread and the echo interrupt, on any number of processors. No two of them are in
  sections of the same lock, and there is never more than one sampling thread. The measurement flag is never left behind: while it is set somebody
  is measuring. The accesses to the ring are steps of their own, so that others can come in between: while nobody is in a
  section of \<open>cir_buf_lock\<close>, the ring is exactly the distances stored since it was last cleared: \<open>newest\<close> is
  the slot of the last one, or -1, and the five newest are in their slots. A read that returns a
  value returns a distance that was stored, or -1 from an empty ring; never the old content of a slot that is being filled
  or cleared. Every stored distance was
  computed from the time of some pulse (or 0 before the first).
\<close>

theorem hcsr_race_safe:
  assumes "hsteps masked (hsys_of misc_code d) s" and "new_dev d"
  shows "(\<forall>l w w'. l \<in> holds (pc s w) \<longrightarrow> l \<in> holds (pc s w') \<longrightarrow> w = w')
    \<and> (\<forall>k k'. pc s (Kth k) \<noteq> Idle \<longrightarrow> pc s (Kth k') \<noteq> Idle \<longrightarrow> k = k')
    \<and> (ongoing (dev s) \<longrightarrow> (\<exists>w. measuring (pc s w)))
    \<and> ((\<forall>w. Cir_buf_lock \<notin> holds (pc s w)) \<longrightarrow>
         newest (dev s) = (if since s = [] then - 1 else (int (length (since s)) - 1) mod 5)
         \<and> (\<forall>j. j < length (since s) \<longrightarrow> j < 5 \<longrightarrow> cbuf (dev s) ! ((length (since s) - Suc j) mod 5) = rev (since s) ! j))
    \<and> (\<forall>w c x. pc s w = Res c (Some x) \<longrightarrow> x = - 1 \<or> x \<in> set (stored s))
    \<and> (\<forall>x \<in> set (stored s). \<exists>ks \<in> insert 0 (set (stamps s)). \<exists>now. x = distance_of ks now)"
proof -
  have l: "msc.lock_inv s" and f: "msc.flag_inv s" and dt: "msc.data_inv s"
    using msc.invs_reachable [OF assms] by blast+
  have "newest (dev s) = (if since s = [] then - 1 else (int (length (since s)) - 1) mod 5)
      \<and> (\<forall>j. j < length (since s) \<longrightarrow> j < 5 \<longrightarrow> cbuf (dev s) ! ((length (since s) - Suc j) mod 5) = rev (since s) ! j)"
    if "\<forall>w. Cir_buf_lock \<notin> holds (pc s w)"
    using ring_contents [OF assms(2) msc.ring_settled [OF assms]] that by simp
  moreover have "k = k'" if "pc s (Kth k) \<noteq> Idle" "pc s (Kth k') \<noteq> Idle" for k k'
    using thread_reachable [OF assms] that unfolding thread_inv_def by metis
  moreover have "x = - 1 \<or> x \<in> set (stored s)" if "pc s w = Res c (Some x)" for w c x
    using msc.shown_stored [OF assms, of w x] that by simp
  ultimately show ?thesis using msc.exclusion [OF l] f dt
    by (simp add: msc.flag_inv_def msc.data_inv_def from_pulse_def)
qed

theorem hcsr_race_safe_witness:
  "\<exists>s. hsteps True (hsys_of misc_code fresh_A) s \<and> pc s (User 0) = Res 0 (Some 1000) \<and> 1000 \<in> set (stored s)"
proof -
  obtain s s' where s: "hrun misc_code True read_start (hsys_of misc_code fresh_A) = Some s" "hrun misc_code True read_rest s = Some s'"
    and v: "pc s' (User 0) = Res 0 (Some 1000)" using read_reached by blast
  have "hsteps True (hsys_of misc_code fresh_A) s'" using hrun_steps [OF s(1)] hrun_steps [OF s(2)] by (rule rtranclp_trans)
  moreover from hcsr_race_safe [OF this fresh_new] v have "(1000 :: s32) = - 1 \<or> 1000 \<in> set (stored s')" by blast
  ultimately show ?thesis using v by auto
qed

text \<open>
  (C9) A measurement ends. Whatever everybody else does, a thread that has entered \<open>send\<close> with \<open>r\<close> retries
  has left it, for the place its caller goes on at, before it has taken \<open>50007 * r + 50009\<close> steps:
  50000 polls per attempt, and a few more.
\<close>

theorem hcsr_race_send_ends:
  assumes "hsteps masked (hsys_of misc_code d) s" and "new_dev d" and "pc s w = S_test c r" and "hruns masked xs s s'"
  shows "count_list xs (Some w) < 50007 * r + 50009
    \<or> (\<exists>ys zs s1. xs = ys @ zs \<and> hruns masked ys s s1 \<and> hruns masked zs s1 s' \<and> pc s1 w = after_send c)"
  using msd.send_ends_reachable [OF assms(1,2) _ assms(4), of c w] assms(3) by simp

theorem hcsr_race_send_ends_witness:
  "\<exists>s s'. hsteps True (hsys_of misc_code fresh_A) s \<and> pc s (User 0) = S_test C_read 5 \<and> pc s' (User 0) = Res 0 (Some 1000)
     \<and> hruns True (map event_of read_rest) s s'
     \<and> (count_list (map event_of read_rest) (Some (User 0)) < 300044
        \<or> (\<exists>ys zs s1. map event_of read_rest = ys @ zs \<and> hruns True ys s s1 \<and> hruns True zs s1 s' \<and> pc s1 (User 0) = R_spin))"
proof -
  obtain s s' where s: "hrun misc_code True read_start (hsys_of misc_code fresh_A) = Some s" "hrun misc_code True read_rest s = Some s'"
    "pc s (User 0) = S_test C_read 5" "pc s' (User 0) = Res 0 (Some 1000)" using read_reached by blast
  from hcsr_race_send_ends [OF hrun_steps [OF s(1)] fresh_new s(3) hrun_sruns [OF s(2)]]
    hrun_steps [OF s(1)] hrun_sruns [OF s(2)] s(3,4) show ?thesis
    unfolding after_send.simps by (intro exI [of _ s] exI [of _ s'] conjI) simp_all
qed

text \<open>
  (C8) The locks cannot block each other as long as an interrupt never arrives on a processor whose
  thread holds a lock of the handler. Everybody who is in a call, in the sampling thread or in the
  handler either can take a step or waits, through a chain of lock holders, interrupted threads
  and threads to be joined, for somebody who can.
\<close>

theorem hcsr_race_no_deadlock:
  assumes "hsteps True (hsys_of misc_code d) s" and "new_dev d" and "hfault s = None" and "\<not> at_rest (pc s w)"
  shows "\<exists>w'. (waits_on misc_code joins s)\<^sup>*\<^sup>* w w' \<and> can_step misc_code s w'"
  using mso.waits_end [OF _ _ assms(3)] msc.invs_reachable [OF assms(1,2)] assms(4) by simp

theorem hcsr_race_no_deadlock_witness:
  "\<exists>s. hsteps True (hsys_of misc_code fresh_A) s \<and> waits_on misc_code joins s Handler (User 0) \<and> (\<exists>w'. (waits_on misc_code joins s)\<^sup>*\<^sup>* Handler w' \<and> can_step misc_code s w')"
proof -
  obtain s where s: "hrun misc_code True wait_run (hsys_of misc_code fresh_A) = Some s" "pc s Handler = I_test" "hfault s = None"
    "own s Ongoing_lock = Some (User 0)" using wait_reached by blast
  then have "waits_on misc_code joins s Handler (User 0)" by (simp add: waits_on_def)
  with hcsr_race_no_deadlock [OF hrun_steps [OF s(1)] fresh_new s(3), of Handler] hrun_steps [OF s(1)] s(2)
  show ?thesis by auto
qed

text \<open>
  Without that, the driver hangs: it takes \<open>ongoing_lock\<close> with \<open>spin_lock\<close>, interrupts on. An echo that
  arrives while a reader is in the section of \<open>send\<close> puts the handler on top of the holder of the lock it
  needs; in every later state the handler still waits for the lock and the reader, interrupted, still holds it.
\<close>

lemma hcsr_interrupt_deadlock:
  "\<exists>s. hsteps False (hsys_of misc_code fresh_A) s \<and> pc s (User 0) = S_test1 C_read 5
     \<and> {s'. hsteps False s s'} \<subseteq> {s'. pc s' (User 0) = S_test1 C_read 5 \<and> intr s' = Some (User 0) \<and> pc s' Handler = I_test}"
proof -
  obtain s where s: "hrun misc_code False jam_run (hsys_of misc_code fresh_A) = Some s" "pc s (User 0) = S_test1 C_read 5"
    "intr s = Some (User 0)" "pc s Handler = I_test" "own s Ongoing_lock = Some (User 0)"
    using jam_reached by blast
  have st: "hsteps False (hsys_of misc_code fresh_A) s" using hrun_steps [OF s(1)] .
  have D: "\<forall>w \<in> {User 0, Handler}. \<exists>w' \<in> {User 0, Handler}. waits_on misc_code joins s w w'"
    "\<forall>w \<in> {User 0, Handler}. \<not> at_rest (pc s w)" using s by (auto simp: waits_on_def)
  have "pc s' (User 0) = S_test1 C_read 5 \<and> intr s' = Some (User 0) \<and> pc s' Handler = I_test" if "hsteps False s s'" for s'
  proof -
    from mso.cycle_forever [OF that _ _ D(1)] D(2) msc.invs_reachable [OF st fresh_new]
    have "pc s' (User 0) = pc s (User 0)" "pc s' Handler = pc s Handler" "\<exists>w' \<in> {User 0, Handler}. waits_on misc_code joins s' (User 0) w'"
      by simp_all
    with s(2,4) show ?thesis by (auto simp: waits_on_def)
  qed
  with st s(2) show ?thesis by blast
qed

text \<open>
  An interrupt that belongs to no measurement ends one that has just begun. The handler sees the flag
  down and means to ignore the signal, but sets the flag down once more when it returns; a reader that set it in
  between takes this for its echo, and reads -1 from the empty ring with success, its pulse sent and nothing stored.
\<close>

lemma hcsr_stray_echo:
  "\<exists>s. hsteps True (hsys_of misc_code fresh_A) s \<and> pc s (User 0) = Res 0 (Some (- 1)) \<and> stored s = [] \<and> stamps s = [1000]"
  using stray_reached hrun_steps by blast

text \<open>
  (C10) Every outcome of the sequential measurement is a behaviour of the device with everything
  interleaved. When nobody holds a lock, whatever \<open>send\<close> of \<open>HCSR_Driver\<close> returns and leaves behind for some
  times of pulses and echoes, a thread that enters \<open>send\<close> here can leave it with the same device: it finds a
  measurement going on, is answered, or times out and gives up in its second attempt.
\<close>

theorem hcsr_race_covers_send:
  assumes "quiet misc_code s" and "pc s w = S_test c (Suc r)" and "w \<noteq> Handler" and "held (dev s) = {}"
    and "send atts (Suc r) (dev s) = Ret v d'"
  shows "v = 0 \<and> (\<exists>s'. hsteps masked s s' \<and> quiet misc_code s' \<and> pc s' w = after_send c \<and> dev s' = d')"
  using mme.send_covered [OF assms(1-4), of atts masked] assms(5) by auto

theorem hcsr_race_covers_send_witness:
  "\<exists>s s'. hsteps True (hsys_of misc_code fresh_A) s \<and> hsteps True s s' \<and> pc s' (User 0) = R_spin
     \<and> dev s' = pulse 1000 (pulse 1000 (dev s))"
proof -
  obtain s where s: "hrun misc_code True read_start (hsys_of misc_code fresh_A) = Some s" "pc s (User 0) = S_test C_read 5" "quiet misc_code s"
    "dev s = fresh_A" using read_start_quiet by blast
  have h: "held fresh_A = {}" "\<not> ongoing fresh_A" by (simp_all add: fresh_A_def init_hcsr_struct_def zero_hcsr_def)
  have "first_echo (\<lambda>_. None) = None" by (simp add: first_echo_def find_None_iff)
  then have "send no_echo (Suc 4) fresh_A = Ret 0 (pulse 1000 (pulse 1000 fresh_A))"
    using send_run [OF h(1), of no_echo 1000 "\<lambda>_. None" 1000 "\<lambda>_. None" 4] h(2) by (simp add: no_echo_def)
  with hcsr_race_covers_send [OF s(3), of "User 0" C_read 4 no_echo] s h(1) hrun_steps [OF s(1)]
  show ?thesis by fastforce
qed

end
