(* ===== verification/HCSR_Sysfs_Race.thy ===== *)
theory HCSR_Sysfs_Race
  imports Sensor_Machine HCSR_Sysfs
begin

text \<open>
  One device of the second sensor driver on a multiprocessor, as code for the machine of
  \<open>Sensor_Machine\<close>: any number of threads in \<open>hc_sr04_read\<close>, \<open>hc_sr04_write\<close>,
  \<open>ioctl_SETMODE\<close> and the attributes, the sampling threads and the echo interrupt. The pins
  stay as they are: \<open>SETPINS\<close> and storing \<open>trigger\<close> or \<open>echo\<close> are not among the calls. This theory has the code and
  the proofs that it keeps the laws of the machine. As in \<open>HCSR_Race\<close> the accesses to the ring are steps of their own.
\<close>

section \<open>Program points\<close>

text \<open>
  Who called \<open>send\<close>; \<open>enable_store\<close> with its \<open>count\<close>. A point whose name ends in 1 is inside the section whose lock is
  taken at the point before it, one that ends in 2 or 3 further on in the same section, with the index that was read. \<open>Ret3\<close>: the call has returned, a read with the value that was copied; \<open>Prints\<close>
  and \<open>Shows\<close>: an attribute is printed, with the value of the configuration or the distance.
\<close>

datatype cont3 = C3_read | C3_write | C3_enable int | C3_thread

datatype attr = A_trigger | A_echo | A_mode | A_frequency | A_enable

datatype read_pt = R3_mode | R3_mode1 | R3_on | R3_on1 | R3_spin | R3_loop | R3_new | R3_new1 | R3_new2
  | R3_new3 int | R3_re | R3_re1 | R3_copy | R3_copy1 | R3_copy2 int

datatype write_pt = W3_mode s32 | W3_mode1 s32 | W3_clr | W3_clr1 | W3_clr2 | W3_on | W3_on1 | W3_kth s32 | W3_kth1 s32
  | W3_run | W3_join nat | W3_off | W3_off1

datatype mode_pt = M3_conf s32 u32 | M3_conf1 s32 u32 | M3_kth | M3_kth1 | M3_join nat

datatype store_pt = D3_mode s32 int | D3_mode1 s32 int | D3_freq u32 int | D3_freq1 u32 int

datatype enable_pt = E3_kth int | E3_kth1 int | E3_join nat int | E3_off int | E3_off1 int | E3_look int | E3_conf int
  | E3_conf1 int | E3_on int | E3_on1 int | E3_start int | E3_start1 int | E3_again int | E3_again1 int
  | E3_done s32 int | E3_done1 s32 int

datatype show_pt = A3_conf attr | A3_conf1 attr | A3_dist | A3_dist1 | A3_dist2 | A3_dist3 int

datatype send_pt = S3_test | S3_test1 | S3_pin | S3_pin1 | S3_high int | S3_low int | S3_stamp | S3_lock | S3_lock1
  | S3_poll nat | S3_out | S3_out1

datatype thread_pt = K3_start | K3_sleep

datatype isr_pt = I3_test | I3_test1 | I3_time | I3_buf u32 | I3_buf1 u32 | I3_buf2 u32 | I3_end | I3_end1

text \<open>In \<open>send\<close>, with its caller and the retries that are left.\<close>

datatype pt3 = Idle3 | Ret3 int "s32 option" | Prints s32 | Shows s32
  | In_read read_pt | In_write write_pt | In_mode mode_pt | In_store store_pt | In_enable enable_pt | In_show show_pt
  | In_send cont3 nat send_pt | In_thread thread_pt | In_isr isr_pt

type_synonym sys3 = "(unit sysfs_struct_ext, pt3) hsys"

section \<open>Steps\<close>

text \<open>
  The lock a point waits for, and where its holder goes on. \<open>E3_again\<close> is the end of \<open>enable_store\<close> after a thread was
  started, where \<open>kconfig_lock\<close>, still held, is taken once more.
\<close>

fun acq_read :: "read_pt \<Rightarrow> (hlock \<times> read_pt) option" where
  "acq_read R3_mode = Some (Kconfig_lock, R3_mode1)"
| "acq_read R3_on = Some (Ongoing_lock, R3_on1)"
| "acq_read R3_new = Some (Cir_buf_lock, R3_new1)"
| "acq_read R3_re = Some (Cir_buf_lock, R3_re1)"
| "acq_read R3_copy = Some (Cir_buf_lock, R3_copy1)"
| "acq_read _ = None"

fun acq_write :: "write_pt \<Rightarrow> (hlock \<times> write_pt) option" where
  "acq_write (W3_mode a) = Some (Kconfig_lock, W3_mode1 a)"
| "acq_write W3_clr = Some (Cir_buf_lock, W3_clr1)"
| "acq_write W3_on = Some (Ongoing_lock, W3_on1)"
| "acq_write (W3_kth a) = Some (Kthread_lock, W3_kth1 a)"
| "acq_write W3_off = Some (Ongoing_lock, W3_off1)"
| "acq_write _ = None"

fun acq_mode :: "mode_pt \<Rightarrow> (hlock \<times> mode_pt) option" where
  "acq_mode (M3_conf m f) = Some (Kconfig_lock, M3_conf1 m f)"
| "acq_mode M3_kth = Some (Kthread_lock, M3_kth1)"
| "acq_mode _ = None"

fun acq_store :: "store_pt \<Rightarrow> (hlock \<times> store_pt) option" where
  "acq_store (D3_mode m n) = Some (Kconfig_lock, D3_mode1 m n)"
| "acq_store (D3_freq f n) = Some (Kconfig_lock, D3_freq1 f n)"
| "acq_store _ = None"

fun acq_enable :: "enable_pt \<Rightarrow> (hlock \<times> enable_pt) option" where
  "acq_enable (E3_kth n) = Some (Kthread_lock, E3_kth1 n)"
| "acq_enable (E3_off n) = Some (Ongoing_lock, E3_off1 n)"
| "acq_enable (E3_conf n) = Some (Kconfig_lock, E3_conf1 n)"
| "acq_enable (E3_on n) = Some (Ongoing_lock, E3_on1 n)"
| "acq_enable (E3_start n) = Some (Kthread_lock, E3_start1 n)"
| "acq_enable (E3_again n) = Some (Kconfig_lock, E3_again1 n)"
| "acq_enable (E3_done e n) = Some (Kconfig_lock, E3_done1 e n)"
| "acq_enable _ = None"

fun acq_show :: "show_pt \<Rightarrow> (hlock \<times> show_pt) option" where
  "acq_show (A3_conf a) = Some (Kconfig_lock, A3_conf1 a)"
| "acq_show A3_dist = Some (Cir_buf_lock, A3_dist1)"
| "acq_show _ = None"

fun acq_send :: "send_pt \<Rightarrow> (hlock \<times> send_pt) option" where
  "acq_send S3_test = Some (Ongoing_lock, S3_test1)"
| "acq_send S3_pin = Some (Kconfig_lock, S3_pin1)"
| "acq_send S3_lock = Some (Ongoing_lock, S3_lock1)"
| "acq_send S3_out = Some (Ongoing_lock, S3_out1)"
| "acq_send _ = None"

fun acq_isr :: "isr_pt \<Rightarrow> (hlock \<times> isr_pt) option" where
  "acq_isr I3_test = Some (Ongoing_lock, I3_test1)"
| "acq_isr (I3_buf d) = Some (Cir_buf_lock, I3_buf1 d)"
| "acq_isr I3_end = Some (Ongoing_lock, I3_end1)"
| "acq_isr _ = None"

fun acq3 :: "pt3 \<Rightarrow> (hlock \<times> pt3) option" where
  "acq3 (In_read q) = map_option (apsnd In_read) (acq_read q)"
| "acq3 (In_write q) = map_option (apsnd In_write) (acq_write q)"
| "acq3 (In_mode q) = map_option (apsnd In_mode) (acq_mode q)"
| "acq3 (In_store q) = map_option (apsnd In_store) (acq_store q)"
| "acq3 (In_enable q) = map_option (apsnd In_enable) (acq_enable q)"
| "acq3 (In_show q) = map_option (apsnd In_show) (acq_show q)"
| "acq3 (In_send c r q) = map_option (apsnd (In_send c r)) (acq_send q)"
| "acq3 (In_isr q) = map_option (apsnd In_isr) (acq_isr q)"
| "acq3 _ = None"

text \<open>The locks held at a point.\<close>

fun holds_read :: "read_pt \<Rightarrow> hlock set" where
  "holds_read R3_mode1 = {Kconfig_lock}"
| "holds_read R3_on1 = {Ongoing_lock}"
| "holds_read R3_new1 = {Cir_buf_lock}"
| "holds_read R3_new2 = {Cir_buf_lock}"
| "holds_read (R3_new3 k) = {Cir_buf_lock}"
| "holds_read R3_re1 = {Cir_buf_lock}"
| "holds_read R3_copy1 = {Cir_buf_lock}"
| "holds_read (R3_copy2 k) = {Cir_buf_lock}"
| "holds_read _ = {}"

fun holds_write :: "write_pt \<Rightarrow> hlock set" where
  "holds_write (W3_mode1 a) = {Kconfig_lock}"
| "holds_write W3_clr1 = {Cir_buf_lock}"
| "holds_write W3_clr2 = {Cir_buf_lock}"
| "holds_write W3_on1 = {Ongoing_lock}"
| "holds_write (W3_kth1 a) = {Kthread_lock}"
| "holds_write W3_run = {Kthread_lock}"
| "holds_write (W3_join k) = {Kthread_lock}"
| "holds_write W3_off = {Kthread_lock}"
| "holds_write W3_off1 = {Kthread_lock, Ongoing_lock}"
| "holds_write _ = {}"

fun holds_mode :: "mode_pt \<Rightarrow> hlock set" where
  "holds_mode (M3_conf1 m f) = {Kconfig_lock}"
| "holds_mode M3_kth = {Kconfig_lock}"
| "holds_mode M3_kth1 = {Kconfig_lock, Kthread_lock}"
| "holds_mode (M3_join k) = {Kconfig_lock, Kthread_lock}"
| "holds_mode _ = {}"

fun holds_store :: "store_pt \<Rightarrow> hlock set" where
  "holds_store (D3_mode1 m n) = {Kconfig_lock}"
| "holds_store (D3_freq1 f n) = {Kconfig_lock}"
| "holds_store _ = {}"

fun holds_enable :: "enable_pt \<Rightarrow> hlock set" where
  "holds_enable (E3_kth1 n) = {Kthread_lock}"
| "holds_enable (E3_join k n) = {Kthread_lock}"
| "holds_enable (E3_off1 n) = {Ongoing_lock}"
| "holds_enable (E3_conf1 n) = {Kconfig_lock}"
| "holds_enable (E3_on1 n) = {Ongoing_lock}"
| "holds_enable (E3_start n) = {Kconfig_lock}"
| "holds_enable (E3_start1 n) = {Kconfig_lock, Kthread_lock}"
| "holds_enable (E3_again n) = {Kconfig_lock}"
| "holds_enable (E3_again1 n) = {Kconfig_lock}"
| "holds_enable (E3_done1 e n) = {Kconfig_lock}"
| "holds_enable _ = {}"

fun holds_show :: "show_pt \<Rightarrow> hlock set" where
  "holds_show (A3_conf1 a) = {Kconfig_lock}"
| "holds_show A3_dist1 = {Cir_buf_lock}"
| "holds_show A3_dist2 = {Cir_buf_lock}"
| "holds_show (A3_dist3 k) = {Cir_buf_lock}"
| "holds_show _ = {}"

fun holds_send :: "send_pt \<Rightarrow> hlock set" where
  "holds_send S3_test1 = {Ongoing_lock}"
| "holds_send S3_pin1 = {Kconfig_lock}"
| "holds_send S3_lock1 = {Ongoing_lock}"
| "holds_send S3_out1 = {Ongoing_lock}"
| "holds_send _ = {}"

fun holds_isr :: "isr_pt \<Rightarrow> hlock set" where
  "holds_isr I3_test1 = {Ongoing_lock}"
| "holds_isr (I3_buf1 d) = {Cir_buf_lock}"
| "holds_isr (I3_buf2 d) = {Cir_buf_lock}"
| "holds_isr I3_end1 = {Ongoing_lock}"
| "holds_isr _ = {}"

fun holds3 :: "pt3 \<Rightarrow> hlock set" where
  "holds3 (In_read q) = holds_read q"
| "holds3 (In_write q) = holds_write q"
| "holds3 (In_mode q) = holds_mode q"
| "holds3 (In_store q) = holds_store q"
| "holds3 (In_enable q) = holds_enable q"
| "holds3 (In_show q) = holds_show q"
| "holds3 (In_send c r q) = holds_send q"
| "holds3 (In_isr q) = holds_isr q"
| "holds3 _ = {}"

text \<open>Where a caller of \<open>send\<close> goes on.\<close>

fun after_send3 :: "cont3 \<Rightarrow> pt3" where
  "after_send3 C3_read = In_read R3_spin"
| "after_send3 C3_write = Ret3 0 None"
| "after_send3 (C3_enable n) = In_enable (E3_done 1 n)"
| "after_send3 C3_thread = In_thread K3_sleep"

text \<open>
  \<open>send\<close> and \<open>do_send\<close>; \<open>r\<close> retries are left, \<open>n\<close> is \<open>counter\<close>. The trigger pin is read under \<open>kconfig_lock\<close>.
\<close>

fun send_act3 :: "u64 \<Rightarrow> cont3 \<Rightarrow> nat \<Rightarrow> send_pt \<Rightarrow> sys3 \<Rightarrow> (pt3 \<times> sys3) option" where
  "send_act3 now c r S3_test1 s =
     Some (if ongoing (dev s) then (after_send3 c, s) else (In_send c r S3_pin, set_dev (\<lambda>d. d\<lparr>ongoing := True\<rparr>) s))"
| "send_act3 now c r S3_pin1 s = Some (In_send c r (S3_high (trigger_pin (dev s))), s)"
| "send_act3 now c r (S3_high tp) s = Some (In_send c r (S3_low tp), set_dev (\<lambda>d. d\<lparr>edges := edges d @ [(tp, 1)]\<rparr>) s)"
| "send_act3 now c r (S3_low tp) s = Some (In_send c r S3_stamp, set_dev (\<lambda>d. d\<lparr>edges := edges d @ [(tp, 0)]\<rparr>) s)"
| "send_act3 now c r S3_stamp s =
     Some (In_send c r S3_lock, set_dev (\<lambda>d. d\<lparr>kstart := now\<rparr>) (s\<lparr>stamps := stamps s @ [now]\<rparr>))"
| "send_act3 now c r S3_lock1 s = Some (if ongoing (dev s) then In_send c r (S3_poll 1) else after_send3 c, s)"
| "send_act3 now c r (S3_poll n) s =
     Some (if \<not> ongoing (dev s) then after_send3 c else if n + 1 > 50000 then In_send c r S3_out else In_send c r (S3_poll (n + 1)), s)"
| "send_act3 now c r S3_out1 s =
     Some (if r = 0 then after_send3 c else In_send c (r - 1) S3_pin, set_dev (\<lambda>d. d\<lparr>ongoing := False\<rparr>) s)"
| "send_act3 now c r p s = None"

text \<open>\<open>hc_sr04_read\<close> and \<open>spin_ongoing\<close>; \<open>bad\<close>: \<open>copy_to_user\<close> fails.\<close>

fun read_act3 :: "bool \<Rightarrow> read_pt \<Rightarrow> sys3 \<Rightarrow> (pt3 \<times> sys3) option" where
  "read_act3 bad R3_mode1 s = Some (if mode (dev s) = ONE_SHOT then In_read R3_on else In_read R3_new, s)"
| "read_act3 bad R3_on1 s = Some (if \<not> ongoing (dev s) then In_send C3_read 5 S3_test else In_read R3_spin, s)"
| "read_act3 bad R3_spin s = Some (if ongoing (dev s) then In_read R3_loop else In_read R3_copy, s)"
| "read_act3 bad R3_loop s = Some (if ongoing (dev s) then In_read R3_loop else In_read R3_spin, s)"
| "read_act3 bad R3_new1 s = Some (if newest (dev s) \<noteq> - 1 then In_read R3_new2 else In_read R3_re, s)"
| "read_act3 bad R3_new2 s = Some (In_read (R3_new3 (newest (dev s))), s)"
| "read_act3 bad (R3_new3 k) s = Some (Ret3 0 (if bad then None else Some (slot k (dev s))), s)"
| "read_act3 bad R3_re1 s = Some (if newest (dev s) = - 1 then In_read R3_re else In_read R3_copy, s)"
| "read_act3 bad R3_copy1 s = Some (In_read (R3_copy2 (newest (dev s))), s)"
| "read_act3 bad (R3_copy2 k) s = Some (if bad then Ret3 (- EAGAIN) None else Ret3 0 (Some (slot k (dev s))), s)"
| "read_act3 bad p s = None"

text \<open>\<open>kthread_stop\<close> of the thread the pointer points to, up to waiting for its end.\<close>

definition ask_stop :: "sys3 \<Rightarrow> sys3" where
  "ask_stop s = s\<lparr>stopped := insert (Kth (started s)) (stopped s)\<rparr>"

fun write_act3 :: "write_pt \<Rightarrow> sys3 \<Rightarrow> (pt3 \<times> sys3) option" where
  "write_act3 (W3_mode1 a) s =
     Some (if mode (dev s) = ONE_SHOT then (if a \<noteq> 0 then In_write W3_clr else In_write W3_on) else In_write (W3_kth a), s)"
| "write_act3 W3_clr1 s = Some (In_write W3_clr2, set_dev (\<lambda>d. d\<lparr>cbuf := replicate NUM_DATA 0\<rparr>) s)"
| "write_act3 W3_clr2 s = Some (In_write W3_on, set_dev (\<lambda>d. d\<lparr>newest := - 1\<rparr>) (s\<lparr>since := []\<rparr>))"
| "write_act3 W3_on1 s = Some (if \<not> ongoing (dev s) then In_send C3_write 5 S3_test else Ret3 0 None, s)"
| "write_act3 (W3_kth1 a) s =
     (if a = 0
      then (if kthread (dev s) = None then Some (Ret3 0 None, s) else Some (In_write (W3_join (started s)), ask_stop s))
      else Some (if kthread (dev s) \<noteq> None then Ret3 0 None else In_write W3_run, s))"
| "write_act3 W3_run s = Some (Ret3 0 None, start_thread (In_thread K3_start) s)"
| "write_act3 (W3_join k) s =
     (if pc s (Kth k) \<noteq> Idle3 then None else Some (In_write W3_off, set_dev (\<lambda>d. d\<lparr>kthread := None\<rparr>) s))"
| "write_act3 W3_off1 s = Some (Ret3 0 None, set_dev (\<lambda>d. d\<lparr>ongoing := False\<rparr>) s)"
| "write_act3 p s = None"

text \<open>\<open>ioctl_SETMODE\<close>, after the mode was checked.\<close>

fun mode_act3 :: "mode_pt \<Rightarrow> sys3 \<Rightarrow> (pt3 \<times> sys3) option" where
  "mode_act3 (M3_conf1 m f) s = Some (In_mode M3_kth, set_dev (\<lambda>d. d\<lparr>mode := m, freq := f\<rparr>) s)"
| "mode_act3 M3_kth1 s =
     (if kthread (dev s) = None then Some (Ret3 0 None, s) else Some (In_mode (M3_join (started s)), ask_stop s))"
| "mode_act3 (M3_join k) s =
     (if pc s (Kth k) \<noteq> Idle3 then None
      else if mode (dev s) \<noteq> ONE_SHOT then Some (Ret3 0 None, start_thread (In_thread K3_start) s)
      else Some (Ret3 0 None, set_dev (\<lambda>d. d\<lparr>kthread := None\<rparr>) s))"
| "mode_act3 p s = None"

text \<open>\<open>mode_store\<close> and \<open>frequency_store\<close>, after scanning.\<close>

fun store_act :: "store_pt \<Rightarrow> sys3 \<Rightarrow> (pt3 \<times> sys3) option" where
  "store_act (D3_mode1 m n) s = Some (Ret3 n None, set_dev (\<lambda>d. d\<lparr>mode := m\<rparr>) s)"
| "store_act (D3_freq1 f n) s = Some (Ret3 n None, set_dev (\<lambda>d. d\<lparr>freq := f\<rparr>) s)"
| "store_act p s = None"

text \<open>\<open>enable_store\<close>, after scanning. The pointer to the thread is tested before any lock is taken.\<close>

fun enable_act :: "enable_pt \<Rightarrow> sys3 \<Rightarrow> (pt3 \<times> sys3) option" where
  "enable_act (E3_kth1 n) s =
     (if kthread (dev s) \<noteq> None then Some (In_enable (E3_join (started s) n), ask_stop s) else Some (In_enable (E3_off n), s))"
| "enable_act (E3_join k n) s =
     (if pc s (Kth k) \<noteq> Idle3 then None else Some (In_enable (E3_off n), set_dev (\<lambda>d. d\<lparr>kthread := None\<rparr>) s))"
| "enable_act (E3_off1 n) s = Some (In_enable (E3_done 0 n), set_dev (\<lambda>d. d\<lparr>ongoing := False\<rparr>) s)"
| "enable_act (E3_look n) s = Some (if kthread (dev s) \<noteq> None then Ret3 n None else In_enable (E3_conf n), s)"
| "enable_act (E3_conf1 n) s = Some (if mode (dev s) = ONE_SHOT then In_enable (E3_on n) else In_enable (E3_start n), s)"
| "enable_act (E3_on1 n) s = Some (if \<not> ongoing (dev s) then In_send (C3_enable n) 5 S3_test else In_enable (E3_done 1 n), s)"
| "enable_act (E3_start1 n) s = Some (In_enable (E3_again n), start_thread (In_thread K3_start) s)"
| "enable_act (E3_again1 n) s = Some (Ret3 n None, set_dev (\<lambda>d. d\<lparr>enable := 1\<rparr>) s)"
| "enable_act (E3_done1 e n) s = Some (Ret3 n None, set_dev (\<lambda>d. d\<lparr>enable := e\<rparr>) s)"
| "enable_act p s = None"

text \<open>The attributes that are printed.\<close>

fun conf_value :: "attr \<Rightarrow> sysfs_struct \<Rightarrow> s32" where
  "conf_value A_trigger d = word_of_int (trigger_pin d)"
| "conf_value A_echo d = word_of_int (echo_pin d)"
| "conf_value A_mode d = mode d"
| "conf_value A_frequency d = freq d"
| "conf_value A_enable d = enable d"

fun show_act :: "show_pt \<Rightarrow> sys3 \<Rightarrow> (pt3 \<times> sys3) option" where
  "show_act (A3_conf1 a) s = Some (Prints (conf_value a (dev s)), s)"
| "show_act A3_dist1 s = Some (if newest (dev s) = - 1 then Shows 0 else In_show A3_dist2, s)"
| "show_act A3_dist2 s = Some (In_show (A3_dist3 (newest (dev s))), s)"
| "show_act (A3_dist3 k) s = Some (Shows (slot k (dev s)), s)"
| "show_act p s = None"

text \<open>\<open>thread_function\<close> in thread \<open>w\<close>.\<close>

fun thread_act3 :: "who \<Rightarrow> thread_pt \<Rightarrow> sys3 \<Rightarrow> (pt3 \<times> sys3) option" where
  "thread_act3 w K3_start s =
     Some (if w \<in> stopped s then (Idle3, s)
      else if freq (dev s) = 0 then (In_thread K3_start, s\<lparr>hfault := Some DivideError\<rparr>)
      else (In_send C3_thread 3 S3_test, s))"
| "thread_act3 w K3_sleep s = Some (if w \<in> stopped s then Idle3 else In_send C3_thread 3 S3_test, s)"

text \<open>\<open>echo_recv_isr\<close>.\<close>

fun isr_act3 :: "u64 \<Rightarrow> isr_pt \<Rightarrow> sys3 \<Rightarrow> (pt3 \<times> sys3) option" where
  "isr_act3 now I3_test1 s = Some (if \<not> ongoing (dev s) then In_isr I3_end else In_isr I3_time, s)"
| "isr_act3 now I3_time s = Some (In_isr (I3_buf (distance_of (kstart (dev s)) now)), s)"
| "isr_act3 now (I3_buf1 d) s =
     Some (In_isr (I3_buf2 d), set_dev (\<lambda>x. x\<lparr>newest := (newest x + 1) mod int NUM_DATA\<rparr>) s)"
| "isr_act3 now (I3_buf2 d) s =
     Some (In_isr I3_end, set_dev (\<lambda>x. x\<lparr>cbuf := (cbuf x)[nat (newest x) := d]\<rparr>) (s\<lparr>since := since s @ [d], stored := stored s @ [d]\<rparr>))"
| "isr_act3 now I3_end1 s = Some (Idle3, set_dev (\<lambda>d. d\<lparr>ongoing := False\<rparr>) (s\<lparr>intr := None\<rparr>))"
| "isr_act3 now p s = None"

definition act3 :: "who \<Rightarrow> u64 \<Rightarrow> bool \<Rightarrow> pt3 \<Rightarrow> sys3 \<Rightarrow> (pt3 \<times> sys3) option" where
  "act3 w now bad p s =
     (case p of
        In_read q \<Rightarrow> read_act3 bad q s
      | In_write q \<Rightarrow> write_act3 q s
      | In_mode q \<Rightarrow> mode_act3 q s
      | In_store q \<Rightarrow> store_act q s
      | In_enable q \<Rightarrow> enable_act q s
      | In_show q \<Rightarrow> show_act q s
      | In_send c r q \<Rightarrow> send_act3 now c r q s
      | In_thread q \<Rightarrow> thread_act3 w q s
      | In_isr q \<Rightarrow> isr_act3 now q s
      | _ \<Rightarrow> None)"

text \<open>
  The calls, and what they do before the first lock: checking the mode, and scanning the text that is stored
  with its \<open>count\<close>.
\<close>

datatype hcall3 = Read3 | Write3 s32 | Set_mode3 s32 u32 | Show attr | Show_distance
  | Store_mode string int | Store_frequency string int | Store_enable string int

fun entry_pt3 :: "hcall3 \<Rightarrow> pt3" where
  "entry_pt3 Read3 = In_read R3_mode"
| "entry_pt3 (Write3 a) = In_write (W3_mode a)"
| "entry_pt3 (Set_mode3 m f) = (if m \<noteq> ONE_SHOT \<and> m \<noteq> PERIODIC then Ret3 (- EINVAL) None else In_mode (M3_conf m f))"
| "entry_pt3 (Show a) = In_show (A3_conf a)"
| "entry_pt3 Show_distance = In_show A3_dist"
| "entry_pt3 (Store_mode buf n) =
     (let m = (case sscanf_d buf of None \<Rightarrow> 0 | Some v \<Rightarrow> v) in
      if m \<noteq> ONE_SHOT \<and> m \<noteq> PERIODIC then Ret3 (- EINVAL) None
      else if sscanf_d buf = None then Ret3 0 None else In_store (D3_mode m n))"
| "entry_pt3 (Store_frequency buf n) =
     (case sscanf_d buf of None \<Rightarrow> Ret3 0 None | Some f \<Rightarrow> if f = 0 then Ret3 (- EINVAL) None else In_store (D3_freq f n))"
| "entry_pt3 (Store_enable buf n) =
     (case sscanf_d buf of
        None \<Rightarrow> Ret3 0 None
      | Some e \<Rightarrow> if e = 0 then In_enable (E3_kth n) else if e = 1 then In_enable (E3_look n) else Ret3 (- EINVAL) None)"

fun at_rest3 :: "pt3 \<Rightarrow> bool" where
  "at_rest3 Idle3 = True"
| "at_rest3 (Ret3 _ _) = True"
| "at_rest3 (Prints _) = True"
| "at_rest3 (Shows _) = True"
| "at_rest3 _ = False"

definition sysfs_code :: "(unit sysfs_struct_ext, pt3, hcall3) code" where
  "sysfs_code = \<lparr>acq_at = acq3, hold_at = holds3, act_at = act3, entry_at = entry_pt3, rest_at = at_rest3,
     idle_at = Idle3, thread_at = In_thread K3_start, irq_at = In_isr I3_test\<rparr>"

lemma sysfs_code_sel [simp]:
  "acq_at sysfs_code = acq3" "hold_at sysfs_code = holds3" "act_at sysfs_code = act3" "entry_at sysfs_code = entry_pt3"
  "rest_at sysfs_code = at_rest3" "idle_at sysfs_code = Idle3" "thread_at sysfs_code = In_thread K3_start" "irq_at sysfs_code = In_isr I3_test"
  by (simp_all add: sysfs_code_def)

section \<open>What is at a point\<close>

abbreviation (input) who_sends :: "cont3 \<Rightarrow> nat" where
  "who_sends c \<equiv> if c = C3_thread then 1 else 0"

fun kind3 :: "pt3 \<Rightarrow> nat" where
  "kind3 (In_send c r q) = who_sends c"
| "kind3 (In_thread q) = 1"
| "kind3 (In_isr q) = 2"
| "kind3 _ = 0"

fun measuring3 :: "pt3 \<Rightarrow> bool" where
  "measuring3 (In_send c r q) = (q \<noteq> S3_test \<and> q \<noteq> S3_test1)"
| "measuring3 _ = False"

fun shown3 :: "pt3 \<Rightarrow> s32 option" where
  "shown3 (Ret3 c v) = v"
| "shown3 (Shows x) = Some x"
| "shown3 _ = None"

fun to_store3 :: "pt3 \<Rightarrow> u32 option" where
  "to_store3 (In_isr (I3_buf d)) = Some d"
| "to_store3 (In_isr (I3_buf1 d)) = Some d"
| "to_store3 (In_isr (I3_buf2 d)) = Some d"
| "to_store3 _ = None"

fun blank3 :: "pt3 \<Rightarrow> s32 set" where
  "blank3 (Shows x) = {0}"
| "blank3 _ = {- 1}"

text \<open>
  What the sections of \<open>cir_buf_lock\<close> leave in memory half-way, and what is known of \<open>newest\<close> in them.
\<close>

fun half3 :: "pt3 \<Rightarrow> int \<times> s32 list \<Rightarrow> int \<times> s32 list" where
  "half3 (In_isr (I3_buf2 d)) R = ((fst R + 1) mod int NUM_DATA, snd R)"
| "half3 (In_write W3_clr2) R = (fst R, replicate NUM_DATA 0)"
| "half3 _ R = R"

fun seen3 :: "pt3 \<Rightarrow> int \<Rightarrow> bool" where
  "seen3 (In_read R3_new2) n = (n \<noteq> - 1)"
| "seen3 (In_read (R3_new3 k)) n = (n = k)"
| "seen3 (In_read (R3_copy2 k)) n = (n = k)"
| "seen3 (In_show A3_dist2) n = (n \<noteq> - 1)"
| "seen3 (In_show (A3_dist3 k)) n = (n = k \<and> k \<noteq> - 1)"
| "seen3 _ n = True"

fun joins3 :: "pt3 \<Rightarrow> nat option" where
  "joins3 (In_write (W3_join k)) = Some k"
| "joins3 (In_mode (M3_join k)) = Some k"
| "joins3 (In_enable (E3_join k n)) = Some k"
| "joins3 _ = None"

lemma after_simps3 [simp]:
  "kind3 (after_send3 c) = who_sends c" "holds3 (after_send3 c) = {}" "after_send3 c \<noteq> Idle3"
  "\<not> measuring3 (after_send3 c)" "shown3 (after_send3 c) = None" "to_store3 (after_send3 c) = None"
  "half3 (after_send3 c) R = R" "seen3 (after_send3 c) n"
  by (cases c; simp)+

text \<open>Taking lock \<open>l\<close> at \<open>p\<close>, to go on at \<open>p'\<close>.\<close>

definition take3 :: "pt3 \<Rightarrow> hlock \<Rightarrow> pt3 \<Rightarrow> bool" where
  "take3 p l p' \<longleftrightarrow> holds3 p' = insert l (holds3 p) \<and> kind3 p' = kind3 p \<and> measuring3 p' = measuring3 p \<and> shown3 p' = None
     \<and> to_store3 p' = to_store3 p \<and> p' \<noteq> Idle3 \<and> \<not> at_rest3 p \<and> half3 p' = half3 p \<and> seen3 p' = seen3 p"

lemma group_takes:
  "acq_read rq = Some (l, rq') \<Longrightarrow> take3 (In_read rq) l (In_read rq')"
  "acq_write wq = Some (l, wq') \<Longrightarrow> take3 (In_write wq) l (In_write wq')"
  "acq_mode mq = Some (l, mq') \<Longrightarrow> take3 (In_mode mq) l (In_mode mq')"
  "acq_store dq = Some (l, dq') \<Longrightarrow> take3 (In_store dq) l (In_store dq')"
  "acq_enable eq = Some (l, eq') \<Longrightarrow> take3 (In_enable eq) l (In_enable eq')"
  "acq_show aq = Some (l, aq') \<Longrightarrow> take3 (In_show aq) l (In_show aq')"
  "acq_send sq = Some (l, sq') \<Longrightarrow> take3 (In_send c r sq) l (In_send c r sq')"
  "acq_isr iq = Some (l, iq') \<Longrightarrow> take3 (In_isr iq) l (In_isr iq')"
  unfolding take3_def
  subgoal by (cases rq) auto
  subgoal by (cases wq) auto
  subgoal by (cases mq) auto
  subgoal by (cases dq) auto
  subgoal by (cases eq) auto
  subgoal by (cases aq) auto
  subgoal by (cases sq) auto
  subgoal by (cases iq) auto
  done

lemma acq_takes: "acq3 p = Some (l, p') \<Longrightarrow> take3 p l p'"
  by (cases p) (auto simp: apsnd_def map_prod_def dest!: group_takes)

text \<open>The laws of the machine, for a step from \<open>p\<close> in state \<open>s\<close> to \<open>p'\<close> in state \<open>s'\<close>.\<close>

definition control3 :: "pt3 \<Rightarrow> sys3 \<Rightarrow> pt3 \<Rightarrow> sys3 \<Rightarrow> bool" where
  "control3 p s p' s' \<longleftrightarrow> own s' = own s \<and> holds3 p' \<subseteq> holds3 p \<and> (p' = Idle3 \<or> kind3 p' = kind3 p) \<and> \<not> at_rest3 p
     \<and> (pc s' = pc s \<and> started s' = started s
        \<or> kind3 p = 0 \<and> pc s' = (pc s)(Kth (Suc (started s)) := In_thread K3_start) \<and> started s' = Suc (started s))
     \<and> (intr s' = intr s \<and> \<not> (kind3 p = 2 \<and> p' = Idle3) \<or> intr s' = None \<and> kind3 p = 2 \<and> p' = Idle3)
     \<and> (ongoing (dev s') \<longrightarrow> measuring3 p' \<or> ongoing (dev s) \<and> \<not> measuring3 p)"

definition data3 :: "pt3 \<Rightarrow> sys3 \<Rightarrow> pt3 \<Rightarrow> sys3 \<Rightarrow> bool" where
  "data3 p s p' s' \<longleftrightarrow>
     (Cir_buf_lock \<notin> holds3 p \<longrightarrow> ring_of (dev s') = ring_of (dev s) \<and> since s' = since s \<and> stored s' = stored s)
     \<and> (\<forall>R. Cir_buf_lock \<in> holds3 p \<longrightarrow> ring_of (dev s) = half3 p R \<longrightarrow>
          (\<exists>R'. ring_of (dev s') = half3 p' R' \<and> ring_moves (to_store3 p) R s R' s'))
     \<and> (kstart (dev s') = kstart (dev s) \<and> stamps s' = stamps s \<or> stamps s' = stamps s @ [kstart (dev s')])"

definition values3 :: "pt3 \<Rightarrow> sys3 \<Rightarrow> pt3 \<Rightarrow> sys3 \<Rightarrow> bool" where
  "values3 p s p' s' \<longleftrightarrow>
     (seen3 p (newest (dev s)) \<longrightarrow> seen3 p' (newest (dev s')))
     \<and> (\<forall>x. shown3 p' = Some x \<longrightarrow> seen3 p (newest (dev s)) \<longrightarrow>
          Cir_buf_lock \<in> holds3 p \<and> (\<forall>R. half3 p R = R) \<and> newest (dev s) \<noteq> - 1 \<and> x = sample (dev s) \<or> x \<in> blank3 p')
     \<and> (\<forall>d. to_store3 p' = Some d \<longrightarrow> to_store3 p = Some d \<or> (\<exists>t. d = distance_of (kstart (dev s)) t))"

text \<open>Away from the sections of \<open>cir_buf_lock\<close> nothing is known of the ring.\<close>

lemma no_ring_lock3: "Cir_buf_lock \<notin> holds3 p \<Longrightarrow> half3 p R = R \<and> seen3 p n"
proof (cases p)
  case (In_read q) then show "Cir_buf_lock \<notin> holds3 p \<Longrightarrow> ?thesis" by (cases q) auto
next
  case (In_write q) then show "Cir_buf_lock \<notin> holds3 p \<Longrightarrow> ?thesis" by (cases q) auto
next
  case (In_show q) then show "Cir_buf_lock \<notin> holds3 p \<Longrightarrow> ?thesis" by (cases q) auto
next
  case (In_isr q) then show "Cir_buf_lock \<notin> holds3 p \<Longrightarrow> ?thesis" by (cases q) auto
qed simp_all

definition laws3 :: "pt3 \<Rightarrow> sys3 \<Rightarrow> pt3 \<Rightarrow> sys3 \<Rightarrow> bool" where
  "laws3 p s p' s' \<longleftrightarrow> control3 p s p' s' \<and> data3 p s p' s' \<and> values3 p s p' s'"

lemma ring_of_enable [simp]: "ring_of ((d :: sysfs_struct)\<lparr>enable := e\<rparr>) = ring_of d"
  by (simp add: ring_of_def)

lemmas law_defs = laws3_def control3_def data3_def values3_def start_thread_def ask_stop_def

lemmas ring_defs = ring_of_def ring_moves_def push_ring_def slot_def sample_def prod_eq_iff

lemma send_laws: "send_act3 now c r q s = Some (p', s') \<Longrightarrow> laws3 (In_send c r q) s p' s'"
  by (cases q) (auto simp: law_defs split: if_splits)

lemma read_laws: "read_act3 bad q s = Some (p', s') \<Longrightarrow> laws3 (In_read q) s p' s'"
  by (cases q) (auto simp: law_defs ring_defs split: if_splits)

lemma write_laws: "write_act3 q s = Some (p', s') \<Longrightarrow> laws3 (In_write q) s p' s'"
  by (cases q) (auto simp: law_defs ring_defs split: if_splits)

lemma mode_laws: "mode_act3 q s = Some (p', s') \<Longrightarrow> laws3 (In_mode q) s p' s'"
  by (cases q) (auto simp: law_defs split: if_splits)

lemma store_laws: "store_act q s = Some (p', s') \<Longrightarrow> laws3 (In_store q) s p' s'"
  by (cases q) (auto simp: law_defs split: if_splits)

lemma enable_laws: "enable_act q s = Some (p', s') \<Longrightarrow> laws3 (In_enable q) s p' s'"
  by (cases q) (auto simp: law_defs split: if_splits)

lemma show_laws: "show_act q s = Some (p', s') \<Longrightarrow> laws3 (In_show q) s p' s'"
  by (cases q) (auto simp: law_defs ring_defs split: if_splits)

lemma thread_laws: "thread_act3 w q s = Some (p', s') \<Longrightarrow> laws3 (In_thread q) s p' s'"
  by (cases q) (auto simp: law_defs split: if_splits)

lemma isr_laws: "isr_act3 now q s = Some (p', s') \<Longrightarrow> laws3 (In_isr q) s p' s'"
  by (cases q) (auto simp: law_defs ring_defs split: if_splits intro: exI [of _ "- 1"])

lemma act3_laws: "act3 w now bad p s = Some (p', s') \<Longrightarrow> laws3 p s p' s'"
  by (cases p) (simp_all add: act3_def send_laws read_laws write_laws mode_laws store_laws enable_laws show_laws thread_laws isr_laws)

interpretation sfc: sensor_code sysfs_code kind3 measuring3 shown3 to_store3 blank3 half3 seen3
proof (unfold_locales, unfold sysfs_code_sel)
  show "holds3 (entry_pt3 op) = {}" "kind3 (entry_pt3 op) = 0" "entry_pt3 op \<noteq> Idle3" "shown3 (entry_pt3 op) = None"
    "to_store3 (entry_pt3 op) = None" for op by (cases op; auto simp: Let_def split: option.splits)+
  show "at_rest3 p \<Longrightarrow> holds3 p = {} \<and> \<not> measuring3 p \<and> to_store3 p = None" for p by (cases p) simp_all
  fix w now bad p s p' s'
  assume "act3 w now bad p s = Some (p', s')"
  note laws = act3_laws [OF this, unfolded laws3_def control3_def data3_def values3_def]
  show "own s' = own s \<and> holds3 p' \<subseteq> holds3 p \<and> (p' = Idle3 \<or> kind3 p' = kind3 p) \<and> \<not> at_rest3 p"
    "pc s' = pc s \<and> started s' = started s
      \<or> kind3 p = 0 \<and> pc s' = (pc s)(Kth (Suc (started s)) := In_thread K3_start) \<and> started s' = Suc (started s)"
    "intr s' = intr s \<and> \<not> (kind3 p = 2 \<and> p' = Idle3) \<or> intr s' = None \<and> kind3 p = 2 \<and> p' = Idle3"
    "ongoing (dev s') \<Longrightarrow> measuring3 p' \<or> ongoing (dev s) \<and> \<not> measuring3 p"
    "Cir_buf_lock \<notin> holds3 p \<Longrightarrow> ring_of (dev s') = ring_of (dev s) \<and> since s' = since s \<and> stored s' = stored s"
    "kstart (dev s') = kstart (dev s) \<and> stamps s' = stamps s \<or> stamps s' = stamps s @ [kstart (dev s')]"
    "seen3 p (newest (dev s)) \<Longrightarrow> seen3 p' (newest (dev s'))"
    using laws by blast+
  show "Cir_buf_lock \<in> holds3 p \<Longrightarrow> ring_of (dev s) = half3 p R \<Longrightarrow>
      \<exists>R'. ring_of (dev s') = half3 p' R' \<and> ring_moves (to_store3 p) R s R' s'" for R
    using laws by blast
  show "shown3 p' = Some x \<Longrightarrow> seen3 p (newest (dev s)) \<Longrightarrow>
      Cir_buf_lock \<in> holds3 p \<and> (\<forall>R. half3 p R = R) \<and> newest (dev s) \<noteq> - 1 \<and> x = sample (dev s) \<or> x \<in> blank3 p'"
    "to_store3 p' = Some d \<Longrightarrow> to_store3 p = Some d \<or> (\<exists>t. d = distance_of (kstart (dev s)) t)" for x d
    using laws by blast+
qed (use acq_takes [unfolded take3_def] no_ring_lock3 in simp_all)

end
