(* ===== verification/HCSR_Sysfs_Race_Proofs.thy ===== *)
theory HCSR_Sysfs_Race_Proofs
  imports HCSR_Sysfs_Race HCSR_Sysfs_Proofs Sensor_Measure
begin

text \<open>
  What the interleaved device of \<open>HCSR_Sysfs_Race\<close> guarantees: locks, flag, ring and values under
  every interleaving, the end of every measurement, and when its threads can and cannot block each other. Unlike
  the first driver it holds \<open>kconfig_lock\<close> while it waits for other things, and takes that lock in the
  middle of a measurement; which of its calls hang because of this is stated here too.
\<close>

abbreviation steps3 :: "bool \<Rightarrow> sys3 \<Rightarrow> sys3 \<Rightarrow> bool" where
  "steps3 \<equiv> ssteps sysfs_code"

abbreviation runs3 :: "bool \<Rightarrow> who option list \<Rightarrow> sys3 \<Rightarrow> sys3 \<Rightarrow> bool" where
  "runs3 \<equiv> sruns sysfs_code"

section \<open>A measurement ends\<close>

fun sending3 :: "cont3 \<Rightarrow> pt3 \<Rightarrow> bool" where
  "sending3 c (In_send c' r q) = (c' = c)"
| "sending3 c _ = False"

text \<open>How many steps of its own a thread still has in \<open>send\<close>, at most.\<close>

fun attempt_left :: "send_pt \<Rightarrow> nat" where
  "attempt_left S3_test = 50011"
| "attempt_left S3_test1 = 50010"
| "attempt_left S3_pin = 50009"
| "attempt_left S3_pin1 = 50008"
| "attempt_left (S3_high tp) = 50007"
| "attempt_left (S3_low tp) = 50006"
| "attempt_left S3_stamp = 50005"
| "attempt_left S3_lock = 50004"
| "attempt_left S3_lock1 = 50003"
| "attempt_left (S3_poll n) = 3 + (50000 - n)"
| "attempt_left S3_out = 2"
| "attempt_left S3_out1 = 1"

fun send_left3 :: "pt3 \<Rightarrow> nat" where
  "send_left3 (In_send c r q) = 50009 * r + attempt_left q"
| "send_left3 _ = 0"

lemma attempt_acq: "acq_send q = Some (l, q') \<Longrightarrow> attempt_left q' < attempt_left q"
  by (cases q) auto

lemma attempt_act:
  "send_act3 now c r q s = Some (p', s') \<Longrightarrow>
   (\<exists>r' q'. p' = In_send c r' q' \<and> 50009 * r' + attempt_left q' < 50009 * r + attempt_left q) \<or> p' = after_send3 c"
  by (cases q) (auto simp: gr0_conv_Suc split: if_splits)

interpretation sfd: sensor_send sysfs_code kind3 measuring3 shown3 to_store3 blank3 half3 seen3 sending3 send_left3 after_send3
proof (unfold_locales, unfold sysfs_code_sel)
  show "sending3 c p' \<and> send_left3 p' < send_left3 p" if "acq3 p = Some (l, p')" "sending3 c p" for p l p' c
    using that by (cases p) (auto dest: attempt_acq)
  show "sending3 c p' \<and> send_left3 p' < send_left3 p \<or> p' = after_send3 c"
    if "act3 w now bad p s = Some (p', s')" "sending3 c p" for w now bad p s p' s' c
    using that by (cases p) (auto simp: act3_def dest!: attempt_act)
  have "0 < attempt_left q" for q by (cases q) simp_all
  then show "0 < send_left3 p \<and> \<not> at_rest3 p" if "sending3 c p" for c p using that by (cases p) simp_all
qed

section \<open>Who waits for whom\<close>

text \<open>
  The points at which \<open>kconfig_lock\<close> is held while something else is awaited: \<open>kthread_lock\<close>, the end of
  the sampling thread, or \<open>kconfig_lock\<close> itself.
\<close>

fun nests :: "pt3 \<Rightarrow> bool" where
  "nests (In_mode M3_kth) = True"
| "nests (In_mode M3_kth1) = True"
| "nests (In_mode (M3_join k)) = True"
| "nests (In_enable (E3_start n)) = True"
| "nests (In_enable (E3_start1 n)) = True"
| "nests (In_enable (E3_again n)) = True"
| "nests _ = False"

definition level3 :: "who \<Rightarrow> pt3 \<Rightarrow> nat" where
  "level3 w p =
     (if Ongoing_lock \<in> holds3 p \<or> Cir_buf_lock \<in> holds3 p then 0
      else if w = Handler then 1
      else if Kthread_lock \<in> holds3 p then 4
      else if Kconfig_lock \<in> holds3 p then 2
      else case map_option fst (acq3 p) of
          Some Kthread_lock \<Rightarrow> 5
        | Some Kconfig_lock \<Rightarrow> 3
        | _ \<Rightarrow> 2)"

text \<open>What can be held where a lock is taken, and what can be held together.\<close>

lemma lock_places:
  assumes "\<not> nests p"
  shows "(\<forall>l p'. acq3 p = Some (l, p') \<longrightarrow>
      l \<in> {Kconfig_lock, Kthread_lock} \<and> holds3 p = {} \<and> kind3 p \<noteq> 2 \<or> l \<in> {Ongoing_lock, Cir_buf_lock} \<and> holds3 p \<subseteq> {Kthread_lock})
    \<and> (Kconfig_lock \<in> holds3 p \<longrightarrow> holds3 p = {Kconfig_lock}) \<and> (Kthread_lock \<in> holds3 p \<longrightarrow> kind3 p = 0)
    \<and> (Kconfig_lock \<in> holds3 p \<longrightarrow> kind3 p \<noteq> 2) \<and> (\<forall>p'. acq3 p = Some (Kthread_lock, p') \<longrightarrow> kind3 p = 0)"
proof (cases p)
  case (In_read q) then show ?thesis by (cases q) auto
next
  case (In_write q) then show ?thesis by (cases q) auto
next
  case (In_mode q) then show ?thesis using assms by (cases q) auto
next
  case (In_store q) then show ?thesis by (cases q) auto
next
  case (In_enable q) then show ?thesis using assms by (cases q) auto
next
  case (In_show q) then show ?thesis by (cases q) auto
next
  case (In_send c r q) then show ?thesis by (cases q) auto
next
  case (In_isr q) then show ?thesis by (cases q) auto
qed auto

lemma level3_lock:
  assumes "\<not> nests p" and "\<not> nests p'" and "kind3 p = role w" and "kind3 p' = role w'" and a: "acq3 p = Some (l, q)"
    and l: "l \<in> holds3 p'"
  shows "level3 w' p' < level3 w p"
proof -
  have p: "l \<in> {Kconfig_lock, Kthread_lock} \<and> holds3 p = {} \<and> w \<noteq> Handler \<or> l \<in> {Ongoing_lock, Cir_buf_lock} \<and> holds3 p \<subseteq> {Kthread_lock}"
    using lock_places [OF assms(1)] a assms(3) by auto
  have p': "l = Kconfig_lock \<Longrightarrow> holds3 p' = {Kconfig_lock} \<and> w' \<noteq> Handler" "l = Kthread_lock \<Longrightarrow> w' \<noteq> Handler \<and> Kthread_lock \<in> holds3 p'"
    using lock_places [OF assms(2)] l assms(4) by auto
  show ?thesis using p p' l a by (cases l) (auto simp: level3_def split: option.splits hlock.splits)
qed

lemma joins3_frame: "joins3 p = Some k \<Longrightarrow> Kthread_lock \<in> holds3 p \<and> acq3 p = None \<and> \<not> at_rest3 p \<and> kind3 p = 0
    \<and> Ongoing_lock \<notin> holds3 p \<and> Cir_buf_lock \<notin> holds3 p"
  by (cases p rule: joins3.cases) auto

lemma level3_join:
  assumes "\<not> nests p'" and "joins3 p = Some k" and "kind3 p = role w" and "kind3 p' = 1"
  shows "level3 (Kth k') p' < level3 w p"
proof -
  have "level3 (Kth k') p' \<le> 3"
    using lock_places [OF assms(1)] assms(4) by (auto simp: level3_def split: option.splits hlock.splits)
  moreover have "w \<noteq> Handler" using joins3_frame [OF assms(2)] assms(3) by auto
  ultimately show ?thesis using joins3_frame [OF assms(2)] by (simp add: level3_def)
qed

text \<open>A point that waits neither for a lock nor for a thread has a next step.\<close>

lemma group_total:
  "acq_read rq = None \<Longrightarrow> read_act3 bad rq s \<noteq> None"
  "acq_write wq = None \<Longrightarrow> (\<And>k. wq = W3_join k \<Longrightarrow> pc s (Kth k) = Idle3) \<Longrightarrow> write_act3 wq s \<noteq> None"
  "acq_mode mq = None \<Longrightarrow> (\<And>k. mq = M3_join k \<Longrightarrow> pc s (Kth k) = Idle3) \<Longrightarrow> mode_act3 mq s \<noteq> None"
  "acq_store dq = None \<Longrightarrow> store_act dq s \<noteq> None"
  "acq_enable eq = None \<Longrightarrow> (\<And>k n. eq = E3_join k n \<Longrightarrow> pc s (Kth k) = Idle3) \<Longrightarrow> enable_act eq s \<noteq> None"
  "acq_show aq = None \<Longrightarrow> show_act aq s \<noteq> None"
  "acq_send sq = None \<Longrightarrow> send_act3 now c r sq s \<noteq> None"
  "thread_act3 w tq s \<noteq> None"
  "acq_isr iq = None \<Longrightarrow> isr_act3 now iq s \<noteq> None"
  subgoal by (cases rq) auto
  subgoal by (cases wq) auto
  subgoal by (cases mq) auto
  subgoal by (cases dq) auto
  subgoal by (cases eq) auto
  subgoal by (cases aq) auto
  subgoal by (cases sq) auto
  subgoal by (cases tq) auto
  subgoal by (cases iq) auto
  done

lemma act3_total:
  assumes "acq3 p = None" and "\<not> at_rest3 p" and "\<And>k. joins3 p = Some k \<Longrightarrow> pc s (Kth k) = Idle3"
  shows "act3 w now bad p s \<noteq> None"
  using assms by (cases p) (simp_all add: act3_def group_total)

interpretation sfo: sensor_order sysfs_code kind3 measuring3 shown3 to_store3 blank3 half3 seen3 joins3 "\<lambda>p. \<not> nests p" level3
proof (unfold_locales, unfold sysfs_code_sel)
  show "joins3 p = Some k \<Longrightarrow> acq3 p = None" "joins3 p = Some k \<Longrightarrow> \<not> at_rest3 p" for p k by (simp_all add: joins3_frame)
  show "joins3 p = Some k \<Longrightarrow> pc s (Kth k) \<noteq> Idle3 \<Longrightarrow> act3 w now bad p s = None" for p k s w now bad
    by (cases p rule: joins3.cases) (auto simp: act3_def)
  show "kind3 p = 1 \<Longrightarrow> \<not> at_rest3 p" "kind3 p = 2 \<Longrightarrow> \<not> at_rest3 p" for p by (cases p; simp)+
  show "role w \<noteq> 2 \<Longrightarrow> Ongoing_lock \<notin> holds3 p \<Longrightarrow> Cir_buf_lock \<notin> holds3 p \<Longrightarrow> level3 Handler p' < level3 w p" for w p p'
    by (cases w) (auto simp: level3_def split: option.splits hlock.splits)
  show "\<not> nests p' \<Longrightarrow> joins3 p = Some k \<Longrightarrow> kind3 p = role w \<Longrightarrow> kind3 p' = 1 \<Longrightarrow> level3 (Kth k) p' < level3 w p" for p p' k w
    by (rule level3_join)
qed (fact act3_total level3_lock)+

section \<open>Enabling in periodic mode\<close>

text \<open>In the periodic branch of \<open>enable_store\<close>, from where \<open>kconfig_lock\<close> is held on.\<close>

definition enabling :: "int \<Rightarrow> pt3 \<Rightarrow> bool" where
  "enabling c p \<longleftrightarrow> p \<in> In_enable ` {E3_start c, E3_start1 c, E3_again c}"

lemma enabling_holds: "enabling c p \<Longrightarrow> Kconfig_lock \<in> holds3 p \<and> \<not> at_rest3 p"
  by (auto simp: enabling_def)

lemma enabling_act: "enabling c p \<Longrightarrow> act3 w now bad p s = Some (p', s') \<Longrightarrow> enabling c p'"
  by (auto simp: enabling_def act3_def)

lemma enabling_step:
  assumes l: "sfc.lock_inv s" and r: "sfc.role_inv m s" and e: "enabling c (pc s w)" and st: "sstep sysfs_code m x s s'"
  shows "enabling c (pc s' w)" and "acq3 (pc s v) = Some (Kconfig_lock, q) \<Longrightarrow> pc s' v = pc s v"
proof -
  have k: "own s Kconfig_lock = Some w" using l enabling_holds [OF e] by (simp add: sfc.lock_inv_def)
  have stay: "x \<noteq> Some u \<Longrightarrow> \<not> at_rest3 (pc s u) \<Longrightarrow> pc s' u = pc s u" for u using sfc.others_stay [OF r st] by simp
  show "enabling c (pc s' w)"
  proof (cases "x = Some w")
    case True
    with st obtain now bad where "sexec sysfs_code now bad w s = Some s'" by (auto elim: sstep.cases)
    then show ?thesis
    proof (cases rule: sexec_cases)
      case (Take l p)
      with e k show ?thesis by (auto simp: enabling_def)
    next
      case (Act p s1)
      with enabling_act [OF e] show ?thesis by simp
    qed
  qed (use stay enabling_holds e in simp)
  assume q: "acq3 (pc s v) = Some (Kconfig_lock, q)"
  have "x \<noteq> Some v" using st q k by (auto simp: sexec_def elim!: sstep.cases split: if_splits)
  moreover have "\<not> at_rest3 (pc s v)" using acq_takes [OF q] by (simp add: take3_def)
  ultimately show "pc s' v = pc s v" by (rule stay)
qed

lemma enabling_forever:
  assumes "steps3 m s s'" and "sfc.lock_inv s" and "sfc.role_inv m s" and "enabling c (pc s w)"
  shows "sfc.lock_inv s' \<and> sfc.role_inv m s' \<and> enabling c (pc s' w)
    \<and> (\<forall>v q. acq3 (pc s v) = Some (Kconfig_lock, q) \<longrightarrow> pc s' v = pc s v)"
  using assms(1)
proof (induction rule: rtranclp_induct)
  case base
  with assms show ?case by simp
next
  case (step s1 s2)
  then obtain x where x: "sstep sysfs_code m x s1 s2" by blast
  from step.IH enabling_step [OF _ _ _ x, of c w] sfc.lock_step [OF _ _ x] sfc.role_step [OF _ x]
  show ?case by (metis (no_types, lifting))
qed

section \<open>Runs\<close>

lemma fresh_dev_new: "new_dev fresh_dev"
  by (simp add: new_dev_def fresh_dev_def init_hcsr_struct3_def zero_hcsr3_def)

lemma scan_samples: "sscanf_d ''1'' = Some 1" "sscanf_d ''5'' = Some 5"
  by (simp_all add: sscanf_d_def isspace_def isdigit_def digits_val_def digit_val_def)

lemmas run3_simps = may_interrupt_def replicate_numeral_Cons sexec_def act3_def move_def start_thread_def ask_stop_def hsys_of_def
  fresh_dev_def init_hcsr_struct3_def zero_hcsr3_def sample_def slot_def scan_samples

text \<open>A one-shot read whose pulse is answered after 5.8 milliseconds, and the attribute \<open>distance\<close> after it.\<close>

definition read_start3 :: "hcall3 hevent list" where
  "read_start3 = E_call 0 Read3 # replicate 4 (E_run (User 0) 0)"

definition read_rest3 :: "hcall3 hevent list" where
  "read_rest3 = replicate 9 (E_run (User 0) 0) @ [E_int None] @ replicate 8 (E_run Handler 5800000) @ replicate 5 (E_run (User 0) 0)"

lemma read_reached3:
  "\<exists>s s' s2. hrun sysfs_code True read_start3 (hsys_of sysfs_code fresh_dev) = Some s \<and> pc s (User 0) = In_send C3_read 5 S3_test
     \<and> hrun sysfs_code True read_rest3 s = Some s' \<and> pc s' (User 0) = Ret3 0 (Some 1000)
     \<and> hrun sysfs_code True (E_call 1 Show_distance # replicate 4 (E_run (User 1) 0)) s' = Some s2
     \<and> pc s2 (User 1) = Shows 1000"
  by (simp add: read_start3_def read_rest3_def run3_simps distance_of_def push_sample_def next_slot_def cong: if_cong)

lemma read_start_quiet3:
  "\<exists>s. hrun sysfs_code True read_start3 (hsys_of sysfs_code fresh_dev) = Some s \<and> pc s (User 0) = In_send C3_read 5 S3_test
     \<and> quiet sysfs_code s \<and> dev s = fresh_dev"
  by (simp add: read_start3_def run3_simps quiet_def cong: if_cong)

text \<open>The handler waits on one processor for a reader on another.\<close>

lemma wait_reached3:
  "\<exists>s. hrun sysfs_code True (read_start3 @ [E_run (User 0) 0, E_int None]) (hsys_of sysfs_code fresh_dev) = Some s
     \<and> pc s Handler = In_isr I3_test \<and> hfault s = None \<and> own s Ongoing_lock = Some (User 0)
     \<and> pc s (User 0) = In_send C3_read 5 S3_test1 \<and> (\<forall>w. w \<noteq> User 0 \<longrightarrow> w \<noteq> Handler \<longrightarrow> pc s w = Idle3)"
  by (simp add: read_start3_def run3_simps cong: if_cong)

text \<open>Periodic mode with frequency 5.\<close>

definition periodic_run :: "hcall3 hevent list" where
  "periodic_run = [E_call 0 (Store_mode ''1'' 1), E_run (User 0) 0, E_run (User 0) 0,
     E_call 0 (Store_frequency ''5'' 1), E_run (User 0) 0, E_run (User 0) 0]"

text \<open>Enabling, while somebody starts to read.\<close>

definition enable_run :: "hcall3 hevent list" where
  "enable_run = periodic_run @ [E_call 0 (Store_enable ''1'' 1)] @ replicate 3 (E_run (User 0) 0) @ [E_call 1 Read3]"

lemma enable_reached:
  "\<exists>s s'. hrun sysfs_code True enable_run (hsys_of sysfs_code fresh_dev) = Some s \<and> pc s (User 0) = In_enable (E3_start 1)
     \<and> pc s (User 1) = In_read R3_mode \<and> hrun sysfs_code True [E_run (User 0) 0, E_run (User 0) 0] s = Some s'
     \<and> pc s' (User 0) = In_enable (E3_again 1) \<and> pc s' (Kth 1) = In_thread K3_start"
  by (simp add: enable_run_def periodic_run_def run3_simps cong: if_cong)

text \<open>The sampling thread is about to send when the mode is set.\<close>

definition sampling_run :: "hcall3 hevent list" where
  "sampling_run = periodic_run @ [E_call 0 (Write3 1)] @ replicate 5 (E_run (User 0) 0) @ replicate 3 (E_run (Kth 1) 0)"

definition set_mode_run :: "hcall3 hevent list" where
  "set_mode_run = sampling_run @ [E_call 0 (Set_mode3 0 0)] @ replicate 4 (E_run (User 0) 0)"

lemma set_mode_reached:
  "\<exists>s. hrun sysfs_code True set_mode_run (hsys_of sysfs_code fresh_dev) = Some s \<and> pc s (User 0) = In_mode (M3_join 1)
     \<and> pc s (Kth 1) = In_send C3_thread 3 S3_pin"
  by (simp add: set_mode_run_def sampling_run_def periodic_run_def run3_simps cong: if_cong)

text \<open>It is about to send when it is stopped by a write, while somebody sets the mode.\<close>

definition cycle_run :: "hcall3 hevent list" where
  "cycle_run = sampling_run @ [E_call 0 (Write3 0)] @ replicate 4 (E_run (User 0) 0)
     @ [E_call 1 (Set_mode3 1 5)] @ replicate 2 (E_run (User 1) 0)"

lemma cycle_reached:
  "\<exists>s. hrun sysfs_code True cycle_run (hsys_of sysfs_code fresh_dev) = Some s \<and> pc s (User 0) = In_write (W3_join 1)
     \<and> pc s (Kth 1) = In_send C3_thread 3 S3_pin \<and> pc s (User 1) = In_mode M3_kth"
  by (simp add: cycle_run_def sampling_run_def periodic_run_def run3_simps cong: if_cong)

text \<open>A write starts a thread after \<open>enable_store\<close> has seen that there is none.\<close>

definition second_run :: "hcall3 hevent list" where
  "second_run = periodic_run @ [E_call 0 (Store_enable ''1'' 1), E_run (User 0) 0, E_call 1 (Write3 1)]
     @ replicate 5 (E_run (User 1) 0) @ replicate 4 (E_run (User 0) 0)"

lemma second_reached:
  "\<exists>s. hrun sysfs_code True second_run (hsys_of sysfs_code fresh_dev) = Some s \<and> pc s (Kth 1) = In_thread K3_start
     \<and> pc s (Kth 2) = In_thread K3_start"
  by (simp add: second_run_def periodic_run_def run3_simps cong: if_cong)

section \<open>The sequential driver\<close>

lemmas quiet_simps3 = may_interrupt_def quiet_def sexec_def act3_def move_def replicate_numeral_Cons

lemma run_flag_up3:
  assumes "quiet sysfs_code s" and "pc s w = In_send c r S3_test" and "w \<noteq> Handler"
  shows "\<exists>s'. hrun sysfs_code m [E_run w 0, E_run w 0] s = Some s' \<and> quiet sysfs_code s'
    \<and> (if ongoing (dev s) then pc s' w = after_send3 c \<and> dev s' = dev s
       else pc s' w = In_send c r S3_pin \<and> dev s' = (dev s)\<lparr>ongoing := True\<rparr>)"
  using assms by (auto simp: quiet_simps3 cong: if_cong)

lemma run_pulse3:
  assumes "quiet sysfs_code s" and "pc s w = In_send c r S3_pin" and "w \<noteq> Handler"
  shows "\<exists>s'. hrun sysfs_code m (replicate 7 (E_run w t)) s = Some s' \<and> quiet sysfs_code s'
    \<and> pc s' w = (if ongoing (dev s) then In_send c r (S3_poll 1) else after_send3 c) \<and> dev s' = pulse t (dev s)"
  using assms by (auto simp: quiet_simps3 pulse_def cong: if_cong)

lemma run_echo3:
  assumes "quiet sysfs_code s" and "ongoing (dev s)" and "w \<noteq> Handler"
  shows "\<exists>s'. hrun sysfs_code m (E_int None # replicate 8 (E_run Handler now)) s = Some s' \<and> quiet sysfs_code s'
    \<and> pc s' w = pc s w \<and> dev s' = recorded now (dev s)"
  using assms by (auto simp: quiet_simps3 recorded_def push_sample_def next_slot_def cong: if_cong)

lemma run_poll3:
  assumes "quiet sysfs_code s" and "pc s w = In_send c r (S3_poll n)"
  shows "ongoing (dev s) \<Longrightarrow> n < 50000 \<Longrightarrow>
      hrun sysfs_code m [E_run w 0] s = Some (s\<lparr>pc := (pc s)(w := In_send c r (S3_poll (Suc n)))\<rparr>)"
    and "\<not> ongoing (dev s) \<Longrightarrow> w \<noteq> Handler \<Longrightarrow>
      \<exists>s'. hrun sysfs_code m [E_run w 0] s = Some s' \<and> quiet sysfs_code s' \<and> pc s' w = after_send3 c \<and> dev s' = dev s"
  using assms by (auto simp: quiet_simps3 cong: if_cong)

lemma run_time_out3:
  assumes "quiet sysfs_code s" and "ongoing (dev s)" and "pc s w = In_send c (Suc r) (S3_poll 50000)" and "w \<noteq> Handler"
  shows "\<exists>s'. hrun sysfs_code m [E_run w 0, E_run w 0, E_run w 0] s = Some s' \<and> quiet sysfs_code s' \<and> pc s' w = In_send c r S3_pin
    \<and> dev s' = (dev s)\<lparr>ongoing := False\<rparr>"
  using assms by (auto simp: quiet_simps3 cong: if_cong)

interpretation sme: measurement sysfs_code "\<lambda>c r. In_send c r S3_test" "\<lambda>c r. In_send c r S3_pin"
  "\<lambda>c r n. In_send c r (S3_poll n)" after_send3
proof
  fix s w c r n m now t
  assume q: "quiet sysfs_code s"
  show "pc s w = In_send c r S3_test \<Longrightarrow> w \<noteq> Handler \<Longrightarrow> \<exists>s'. steps3 m s s' \<and> quiet sysfs_code s' \<and>
      (if ongoing (dev s) then pc s' w = after_send3 c \<and> dev s' = dev s
       else pc s' w = In_send c r S3_pin \<and> dev s' = (dev s)\<lparr>ongoing := True\<rparr>)"
    using run_flag_up3 [OF q] hrun_steps by blast
  show "pc s w = In_send c r S3_pin \<Longrightarrow> w \<noteq> Handler \<Longrightarrow> \<exists>s'. steps3 m s s' \<and> quiet sysfs_code s' \<and>
      pc s' w = (if ongoing (dev s) then In_send c r (S3_poll 1) else after_send3 c) \<and> dev s' = pulse t (dev s)"
    using run_pulse3 [OF q] hrun_steps by blast
  show "ongoing (dev s) \<Longrightarrow> w \<noteq> Handler \<Longrightarrow> \<exists>s'. steps3 m s s' \<and> quiet sysfs_code s' \<and> pc s' w = pc s w
      \<and> dev s' = recorded now (dev s)"
    using run_echo3 [OF q] hrun_steps by blast
  show "ongoing (dev s) \<Longrightarrow> pc s w = In_send c r (S3_poll n) \<Longrightarrow> n < 50000 \<Longrightarrow>
      steps3 m s (s\<lparr>pc := (pc s)(w := In_send c r (S3_poll (Suc n)))\<rparr>)"
    using run_poll3(1) [OF q] hrun_steps by blast
  show "\<not> ongoing (dev s) \<Longrightarrow> pc s w = In_send c r (S3_poll n) \<Longrightarrow> w \<noteq> Handler \<Longrightarrow>
      \<exists>s'. steps3 m s s' \<and> quiet sysfs_code s' \<and> pc s' w = after_send3 c \<and> dev s' = dev s"
    using run_poll3(2) [OF q] hrun_steps by blast
  show "ongoing (dev s) \<Longrightarrow> pc s w = In_send c (Suc r) (S3_poll 50000) \<Longrightarrow> w \<noteq> Handler \<Longrightarrow>
      \<exists>s'. steps3 m s s' \<and> quiet sysfs_code s' \<and> pc s' w = In_send c r S3_pin \<and> dev s' = (dev s)\<lparr>ongoing := False\<rparr>"
    using run_time_out3 [OF q] hrun_steps by blast
qed

text \<open>
  After \<open>n\<close> has called \<open>op\<close> in state \<open>s\<close>, the call can come to its end at \<open>p\<close> with the device \<open>d\<close>.
\<close>

definition can_end :: "bool \<Rightarrow> nat \<Rightarrow> hcall3 \<Rightarrow> sys3 \<Rightarrow> pt3 \<Rightarrow> sysfs_struct \<Rightarrow> bool" where
  "can_end m n op s p d \<longleftrightarrow> (\<exists>s1 s'. sstep sysfs_code m None s s1 \<and> pc s1 (User n) = entry_pt3 op \<and> steps3 m s1 s'
     \<and> quiet sysfs_code s' \<and> at_rest3 p \<and> pc s' (User n) = p \<and> dev s' = d)"

lemma can_endI:
  assumes "quiet sysfs_code s" and "at_rest3 (pc s (User n))"
    and "hrun sysfs_code m es (s\<lparr>pc := (pc s)(User n := entry_pt3 op)\<rparr>) = Some s'"
    and "quiet sysfs_code s' \<and> at_rest3 p \<and> pc s' (User n) = p \<and> dev s' = d"
  shows "can_end m n op s p d"
proof -
  have "sstep sysfs_code m None s (s\<lparr>pc := (pc s)(User n := entry_pt3 op)\<rparr>)"
    using sstep.Call [of s sysfs_code n m op] assms(1,2) by (simp add: quiet_def)
  with hrun_steps [OF assms(3)] assms(4) show ?thesis unfolding can_end_def by fastforce
qed

text \<open>Calls with at most one section.\<close>

lemma short_calls:
  assumes q: "quiet sysfs_code s" and r: "at_rest3 (pc s (User n))"
  shows "entry_pt3 op = Ret3 v None \<Longrightarrow> can_end m n op s (Ret3 v None) (dev s)"
    and "entry_pt3 op = In_store (D3_mode x k) \<Longrightarrow> can_end m n op s (Ret3 k None) ((dev s)\<lparr>mode := x\<rparr>)"
    and "entry_pt3 op = In_store (D3_freq f k) \<Longrightarrow> can_end m n op s (Ret3 k None) ((dev s)\<lparr>freq := f\<rparr>)"
    and "can_end m n (Show a) s (Prints (conf_value a (dev s))) (dev s)"
    and "can_end m n Show_distance s
      (Shows (if newest (dev s) = - 1 then 0 else cbuf (dev s) ! nat (newest (dev s)))) (dev s)"
proof -
  let ?es = "[E_run (User n) 0, E_run (User n) 0]"
  show "entry_pt3 op = Ret3 v None \<Longrightarrow> can_end m n op s (Ret3 v None) (dev s)"
    by (rule can_endI [OF q r, where es = "[]" and s' = "s\<lparr>pc := (pc s)(User n := Ret3 v None)\<rparr>"]) (use q in \<open>auto simp: quiet_simps3\<close>)
  show "entry_pt3 op = In_store (D3_mode x k) \<Longrightarrow> can_end m n op s (Ret3 k None) ((dev s)\<lparr>mode := x\<rparr>)"
    by (rule can_endI [OF q r, where es = ?es]) (use q in \<open>auto simp: quiet_simps3\<close>)
  show "entry_pt3 op = In_store (D3_freq f k) \<Longrightarrow> can_end m n op s (Ret3 k None) ((dev s)\<lparr>freq := f\<rparr>)"
    by (rule can_endI [OF q r, where es = ?es]) (use q in \<open>auto simp: quiet_simps3\<close>)
  show "can_end m n (Show a) s (Prints (conf_value a (dev s))) (dev s)"
    by (rule can_endI [OF q r, where es = ?es]) (use q in \<open>auto simp: quiet_simps3\<close>)
  show "can_end m n Show_distance s
      (Shows (if newest (dev s) = - 1 then 0 else cbuf (dev s) ! nat (newest (dev s)))) (dev s)"
  proof (cases "newest (dev s) = - 1")
    case True
    then show ?thesis by (intro can_endI [OF q r, where es = ?es]) (use q in \<open>auto simp: quiet_simps3\<close>)
  next
    case False
    then show ?thesis
      by (intro can_endI [OF q r, where es = "replicate 4 (E_run (User n) 0)"]) (use q in \<open>auto simp: quiet_simps3 slot_def\<close>)
  qed
qed

text \<open>The routine that prints an attribute of the configuration.\<close>

fun attr_show :: "attr \<Rightarrow> string \<Rightarrow> (int \<times> string, sysfs_struct) cmd" where
  "attr_show A_trigger = trigger_show"
| "attr_show A_echo = echo_show"
| "attr_show A_mode = mode_show"
| "attr_show A_frequency = frequency_show"
| "attr_show A_enable = enable_show"

lemma attr_show_run: "held d = {} \<Longrightarrow> attr_show a buf d = Ret (snprintf 10 (fmt_d (conf_value a d)) buf) d"
  by (cases a) (simp_all add: trigger_show_def echo_show_def mode_show_def frequency_show_def enable_show_def run_simps held_same_hc)

lemma distance_show_run:
  "held d = {} \<Longrightarrow> distance_show buf d = Ret (snprintf 10 (fmt_d (if newest d = - 1 then 0 else cbuf d ! nat (newest d))) buf) d"
  by (simp add: distance_show_def run_simps held_same_hc)

text \<open>What \<open>mode_store\<close> and \<open>frequency_store\<close> return is decided where their calls enter the driver.\<close>

lemma mode_store_entry:
  assumes "held d = {}" and "mode_store buf k d = Ret v d'"
  shows "entry_pt3 (Store_mode buf k) = Ret3 v None \<and> d' = d
    \<or> (\<exists>m. entry_pt3 (Store_mode buf k) = In_store (D3_mode m k) \<and> v = k \<and> d' = d\<lparr>mode := m\<rparr>)"
  using assms by (auto simp: mode_store_def Let_def run_simps held_same_hc split: if_splits option.splits)

lemma frequency_store_entry:
  assumes "held d = {}" and "frequency_store buf k d = Ret v d'"
  shows "entry_pt3 (Store_frequency buf k) = Ret3 v None \<and> d' = d
    \<or> (\<exists>f. entry_pt3 (Store_frequency buf k) = In_store (D3_freq f k) \<and> v = k \<and> d' = d\<lparr>freq := f\<rparr>)"
  using assms by (auto simp: frequency_store_def run_simps held_same_hc split: if_splits option.splits)

section \<open>Properties\<close>

text \<open>
  (C11) What holds of a device of the second driver under every interleaving of readers, writers, mode changes,
  attributes, sampling threads and the echo interrupt. No two of them are in sections of the same lock. While
  the measurement flag is set somebody is measuring. The accesses to the ring are steps of their own; while nobody is
  in a section of \<open>cir_buf_lock\<close>, the ring is exactly the distances stored since it was last
  cleared. A read delivers a distance that was stored, or -1 from an empty ring; the attribute
  \<open>distance\<close> shows one that was stored, or 0 from an empty ring. Every stored distance was computed from the time of
  some pulse (or 0 before the first).
\<close>

theorem sysfs_race_safe:
  assumes "steps3 masked (hsys_of sysfs_code d) s" and "new_dev d"
  shows "(\<forall>l w w'. l \<in> holds3 (pc s w) \<longrightarrow> l \<in> holds3 (pc s w') \<longrightarrow> w = w')
    \<and> (ongoing (dev s) \<longrightarrow> (\<exists>w. measuring3 (pc s w)))
    \<and> ((\<forall>w. Cir_buf_lock \<notin> holds3 (pc s w)) \<longrightarrow>
         newest (dev s) = (if since s = [] then - 1 else (int (length (since s)) - 1) mod 5)
         \<and> (\<forall>j. j < length (since s) \<longrightarrow> j < 5 \<longrightarrow> cbuf (dev s) ! ((length (since s) - Suc j) mod 5) = rev (since s) ! j))
    \<and> (\<forall>w c x. pc s w = Ret3 c (Some x) \<longrightarrow> x = - 1 \<or> x \<in> set (stored s))
    \<and> (\<forall>w x. pc s w = Shows x \<longrightarrow> x = 0 \<or> x \<in> set (stored s))
    \<and> (\<forall>x \<in> set (stored s). \<exists>ks \<in> insert 0 (set (stamps s)). \<exists>now. x = distance_of ks now)"
proof -
  have l: "sfc.lock_inv s" and f: "sfc.flag_inv s" and dt: "sfc.data_inv s"
    using sfc.invs_reachable [OF assms] by blast+
  have "newest (dev s) = (if since s = [] then - 1 else (int (length (since s)) - 1) mod 5)
      \<and> (\<forall>j. j < length (since s) \<longrightarrow> j < 5 \<longrightarrow> cbuf (dev s) ! ((length (since s) - Suc j) mod 5) = rev (since s) ! j)"
    if "\<forall>w. Cir_buf_lock \<notin> holds3 (pc s w)"
    using ring_contents [OF assms(2) sfc.ring_settled [OF assms]] that by simp
  moreover have "x = - 1 \<or> x \<in> set (stored s)" if "pc s w = Ret3 c (Some x)" for w c x
    using sfc.shown_stored [OF assms, of w x] that by simp
  moreover have "x = 0 \<or> x \<in> set (stored s)" if "pc s w = Shows x" for w x
    using sfc.shown_stored [OF assms, of w x] that by simp
  ultimately show ?thesis using sfc.exclusion [OF l] f dt
    by (simp add: sfc.flag_inv_def sfc.data_inv_def from_pulse_def)
qed

theorem sysfs_race_safe_witness:
  "\<exists>s. steps3 True (hsys_of sysfs_code fresh_dev) s \<and> pc s (User 1) = Shows 1000 \<and> 1000 \<in> set (stored s)"
proof -
  obtain s s' s2 where s: "hrun sysfs_code True read_start3 (hsys_of sysfs_code fresh_dev) = Some s"
    "hrun sysfs_code True read_rest3 s = Some s'"
    "hrun sysfs_code True (E_call 1 Show_distance # replicate 4 (E_run (User 1) 0)) s' = Some s2"
    and v: "pc s2 (User 1) = Shows 1000" using read_reached3 by blast
  have "steps3 True (hsys_of sysfs_code fresh_dev) s2"
    using hrun_steps [OF s(1)] hrun_steps [OF s(2)] hrun_steps [OF s(3)] by (meson rtranclp_trans)
  moreover from sysfs_race_safe [OF this fresh_dev_new] v have "(1000 :: s32) = 0 \<or> 1000 \<in> set (stored s2)" by blast
  ultimately show ?thesis using v by auto
qed

text \<open>
  In this driver, too, a measurement ends: whatever everybody else does, a thread that has entered \<open>send\<close> with \<open>r\<close>
  retries has left it, for the place its caller goes on at, before it has taken \<open>50009 * r + 50011\<close> steps.
\<close>

lemma sysfs_race_send_ends:
  assumes "steps3 masked (hsys_of sysfs_code d) s" and "new_dev d" and "pc s w = In_send c r S3_test" and "runs3 masked xs s s'"
  shows "count_list xs (Some w) < 50009 * r + 50011
    \<or> (\<exists>ys zs s1. xs = ys @ zs \<and> runs3 masked ys s s1 \<and> runs3 masked zs s1 s' \<and> pc s1 w = after_send3 c)"
  using sfd.send_ends_reachable [OF assms(1,2) _ assms(4), of c w] assms(3) by simp

lemma sysfs_race_send_ends_example:
  "\<exists>s s'. steps3 True (hsys_of sysfs_code fresh_dev) s \<and> pc s (User 0) = In_send C3_read 5 S3_test
     \<and> pc s' (User 0) = Ret3 0 (Some 1000) \<and> runs3 True (map event_of read_rest3) s s'
     \<and> (count_list (map event_of read_rest3) (Some (User 0)) < 300056
        \<or> (\<exists>ys zs s1. map event_of read_rest3 = ys @ zs \<and> runs3 True ys s s1 \<and> runs3 True zs s1 s' \<and> pc s1 (User 0) = In_read R3_spin))"
proof -
  obtain s s' where s: "hrun sysfs_code True read_start3 (hsys_of sysfs_code fresh_dev) = Some s"
    "hrun sysfs_code True read_rest3 s = Some s'" "pc s (User 0) = In_send C3_read 5 S3_test"
    "pc s' (User 0) = Ret3 0 (Some 1000)" using read_reached3 by blast
  from sysfs_race_send_ends [OF hrun_steps [OF s(1)] fresh_dev_new s(3) hrun_sruns [OF s(2)]]
    hrun_steps [OF s(1)] hrun_sruns [OF s(2)] s(3,4) show ?thesis
    unfolding after_send3.simps by (intro exI [of _ s] exI [of _ s'] conjI) simp_all
qed

text \<open>
  (C12) As long as interrupts are off while a lock of the handler is held, which the plain \<open>spin_lock\<close> of this driver does
  not see to, and nobody holds \<open>kconfig_lock\<close> while waiting for something else, nobody is blocked for good. In a state
  reached with interrupts off on processors whose thread holds a lock of the handler, and where nobody is in the part
  of \<open>ioctl_SETMODE\<close> that stops the sampling thread or in the periodic branch of \<open>enable_store\<close>, everybody
  who is in a call, in a sampling thread or in the handler either can take a step or waits, through a chain of lock holders,
  interrupted threads and threads to be joined, for somebody who can.
\<close>

theorem sysfs_race_no_deadlock:
  assumes "steps3 True (hsys_of sysfs_code d) s" and "new_dev d" and "hfault s = None" and "\<forall>w. \<not> nests (pc s w)"
    and "\<not> at_rest3 (pc s w)"
  shows "\<exists>w'. (waits_on sysfs_code joins3 s)\<^sup>*\<^sup>* w w' \<and> can_step sysfs_code s w'"
  using sfo.waits_end [OF _ _ assms(3)] sfc.invs_reachable [OF assms(1,2)] assms(4,5) by simp

theorem sysfs_race_no_deadlock_witness:
  "\<exists>s. steps3 True (hsys_of sysfs_code fresh_dev) s \<and> waits_on sysfs_code joins3 s Handler (User 0)
     \<and> (\<exists>w'. (waits_on sysfs_code joins3 s)\<^sup>*\<^sup>* Handler w' \<and> can_step sysfs_code s w')"
proof -
  obtain s where s: "hrun sysfs_code True (read_start3 @ [E_run (User 0) 0, E_int None]) (hsys_of sysfs_code fresh_dev) = Some s"
    "pc s Handler = In_isr I3_test" "hfault s = None" "own s Ongoing_lock = Some (User 0)"
    "pc s (User 0) = In_send C3_read 5 S3_test1" "\<forall>w. w \<noteq> User 0 \<longrightarrow> w \<noteq> Handler \<longrightarrow> pc s w = Idle3"
    using wait_reached3 by blast
  have "\<not> nests (pc s w)" for w using s(2,5,6) by (cases "w = User 0"; cases "w = Handler") auto
  moreover have "waits_on sysfs_code joins3 s Handler (User 0)" using s(2,4) by (simp add: waits_on_def)
  ultimately show ?thesis
    using sysfs_race_no_deadlock [OF hrun_steps [OF s(1)] fresh_dev_new s(3), of Handler] hrun_steps [OF s(1)] s(2) by auto
qed

text \<open>
  (C13) Enabling a device in periodic mode makes it unusable on a kernel whose spin locks spin, that is one for several
  processors or with debugging of locks. (On the board of \<open>kernel_run.log\<close>, with one processor, they
  compile to nothing, and the call returns, as the log shows and the next lemma proves.) Once \<open>enable_store\<close> has taken \<open>kconfig_lock\<close> in
  its periodic branch it never returns: it keeps the lock for good, and goes no further than the point where it
  takes it a second time. Whoever waits for \<open>kconfig_lock\<close> then waits for ever: a read or write that was
  called, every attribute of the configuration, and each sampling thread that is about to send.
\<close>

theorem sysfs_enable_hangs:
  assumes "steps3 masked (hsys_of sysfs_code d) s" and "new_dev d" and "pc s w = In_enable (E3_start c)" and "steps3 masked s s'"
  shows "pc s' w \<in> In_enable ` {E3_start c, E3_start1 c, E3_again c} \<and> own s' Kconfig_lock = Some w
    \<and> (\<forall>v q. acq3 (pc s v) = Some (Kconfig_lock, q) \<longrightarrow> pc s' v = pc s v)"
proof -
  have "enabling c (pc s w)" using assms(3) by (simp add: enabling_def)
  from enabling_forever [OF assms(4) _ _ this] sfc.invs_reachable [OF assms(1,2)]
  have "sfc.lock_inv s'" and e: "enabling c (pc s' w)"
    and "\<forall>v q. acq3 (pc s v) = Some (Kconfig_lock, q) \<longrightarrow> pc s' v = pc s v" by blast+
  then show ?thesis using enabling_holds [OF e] e unfolding sfc.lock_inv_def enabling_def by auto
qed

theorem sysfs_enable_hangs_witness:
  "\<exists>s s'. steps3 True (hsys_of sysfs_code fresh_dev) s \<and> pc s (User 0) = In_enable (E3_start 1) \<and> pc s (User 1) = In_read R3_mode
     \<and> steps3 True s s' \<and> pc s' (User 0) = In_enable (E3_again 1) \<and> own s' Kconfig_lock = Some (User 0)
     \<and> pc s' (User 1) = In_read R3_mode"
proof -
  obtain s s' where s: "hrun sysfs_code True enable_run (hsys_of sysfs_code fresh_dev) = Some s"
    "pc s (User 0) = In_enable (E3_start 1)" "pc s (User 1) = In_read R3_mode"
    "hrun sysfs_code True [E_run (User 0) 0, E_run (User 0) 0] s = Some s'" "pc s' (User 0) = In_enable (E3_again 1)"
    using enable_reached by blast
  from sysfs_enable_hangs [OF hrun_steps [OF s(1)] fresh_dev_new s(2) hrun_steps [OF s(4)]]
  have "own s' Kconfig_lock = Some (User 0)" "pc s' (User 1) = pc s (User 1)" using s(3) by auto
  with s hrun_steps [OF s(1)] hrun_steps [OF s(4)] show ?thesis by auto
qed

text \<open>
  On a kernel for one processor the same call works. \<open>enable_store\<close> of a text that scans as 1, on a device in periodic mode
  without a sampling thread, runs through and returns \<open>count\<close>, with \<open>enable\<close> set and a sampling thread started, as
  \<open>kernel_run.log\<close> shows it on the board. The same seven steps cannot be taken when the locks spin, however free they all
  were before: five can, and the sixth, the second \<open>spin_lock\<close> of \<open>kconfig_lock\<close>, cannot.
\<close>

lemma sysfs_enable_uniprocessor:
  assumes "sscanf_d buf = Some 1" and "at_rest3 (pc s (User n))" and "hfault s = None" and "intr s = None" and "own s = (\<lambda>_. None)"
    and "kthread (dev s) = None" and "mode (dev s) \<noteq> ONE_SHOT"
  shows "(\<exists>s'. hrun (up_code sysfs_code) masked (E_call n (Store_enable buf c) # replicate 7 (E_run (User n) t)) s = Some s'
      \<and> pc s' (User n) = Ret3 c None \<and> dev s' = (dev s)\<lparr>kthread := Some (freq (dev s)), enable := 1\<rparr>
      \<and> pc s' (Kth (Suc (started s))) = In_thread K3_start)
    \<and> (\<exists>s'. hrun sysfs_code masked (E_call n (Store_enable buf c) # replicate 5 (E_run (User n) t)) s = Some s'
      \<and> pc s' (User n) = In_enable (E3_again c) \<and> sexec sysfs_code t bad (User n) s' = None)"
  using assms by (simp add: replicate_numeral_Cons sexec_def act3_def move_def start_thread_def cong: if_cong)

lemma sysfs_enable_uniprocessor_example:
  "\<exists>s'. hrun (up_code sysfs_code) True (E_call 0 (Store_enable ''1'' 2) # replicate 7 (E_run (User 0) 9))
      (hsys_of sysfs_code (fresh_dev\<lparr>mode := PERIODIC, freq := 5\<rparr>)) = Some s'
    \<and> pc s' (User 0) = Ret3 2 None \<and> kthread (dev s') = Some 5 \<and> enable (dev s') = 1"
proof -
  let ?s = "hsys_of sysfs_code (fresh_dev\<lparr>mode := PERIODIC, freq := 5\<rparr>)"
  have "at_rest3 (pc ?s (User 0))" "hfault ?s = None" "intr ?s = None" "own ?s = (\<lambda>_. None)" "kthread (dev ?s) = None"
    "mode (dev ?s) \<noteq> ONE_SHOT" "freq (dev ?s) = 5"
    by (simp_all add: hsys_of_def fresh_dev_def init_hcsr_struct3_def zero_hcsr3_def)
  note s = this
  from sysfs_enable_uniprocessor [OF scan_samples(1) s(1-6), of True 2 9 False] obtain s' where
    "hrun (up_code sysfs_code) True (E_call 0 (Store_enable ''1'' 2) # replicate 7 (E_run (User 0) 9)) ?s = Some s'"
    "pc s' (User 0) = Ret3 2 None" "dev s' = (dev ?s)\<lparr>kthread := Some (freq (dev ?s)), enable := 1\<rparr>" by blast
  with s(7) show ?thesis by (intro exI [of _ s']) simp
qed

text \<open>
  (C14) Setting the mode can hang a device, too. \<open>ioctl_SETMODE\<close> waits for the end of the sampling thread with \<open>kconfig_lock\<close>
  held; if the thread is at the point where it takes that lock to read the trigger pin, neither of them ever moves again.
\<close>

theorem sysfs_set_mode_hangs:
  assumes "steps3 masked (hsys_of sysfs_code d) s" and "new_dev d" and "pc s w = In_mode (M3_join k)"
    and "pc s (Kth k) = In_send c r S3_pin" and "steps3 masked s s'"
  shows "pc s' w = In_mode (M3_join k) \<and> pc s' (Kth k) = In_send c r S3_pin"
proof -
  have inv: "sfc.lock_inv s" "sfc.role_inv masked s" using sfc.invs_reachable [OF assms(1,2)] by blast+
  have "own s Kconfig_lock = Some w" using inv(1) assms(3) by (simp add: sfc.lock_inv_def)
  then have "\<forall>v \<in> {w, Kth k}. \<exists>v' \<in> {w, Kth k}. waits_on sysfs_code joins3 s v v'"
    using assms(3,4) by (auto simp: waits_on_def)
  from sfo.cycle_forever [OF assms(5) inv this] assms(3,4) show ?thesis by auto
qed

theorem sysfs_set_mode_hangs_witness:
  "\<exists>s. steps3 True (hsys_of sysfs_code fresh_dev) s \<and> pc s (User 0) = In_mode (M3_join 1) \<and> pc s (Kth 1) = In_send C3_thread 3 S3_pin
     \<and> {s'. steps3 True s s'} \<subseteq> {s'. pc s' (User 0) = In_mode (M3_join 1) \<and> pc s' (Kth 1) = In_send C3_thread 3 S3_pin}"
proof -
  obtain s where s: "hrun sysfs_code True set_mode_run (hsys_of sysfs_code fresh_dev) = Some s" "pc s (User 0) = In_mode (M3_join 1)"
    "pc s (Kth 1) = In_send C3_thread 3 S3_pin" using set_mode_reached by blast
  from sysfs_set_mode_hangs [OF hrun_steps [OF s(1)] fresh_dev_new s(2,3)] hrun_steps [OF s(1)] s(2,3) show ?thesis by blast
qed

text \<open>
  Stopping the thread with a write, or with \<open>enable\<close>, holds only \<open>kthread_lock\<close>, but can end in a
  deadlock of three: the writer waits for the thread, the thread for \<open>kconfig_lock\<close>, and \<open>ioctl_SETMODE\<close>, which holds that, for
  \<open>kthread_lock\<close>.
\<close>

lemma sysfs_stop_cycle:
  "\<exists>s. steps3 True (hsys_of sysfs_code fresh_dev) s \<and> pc s (User 0) = In_write (W3_join 1)
     \<and> {s'. steps3 True s s'} \<subseteq> {s'. pc s' (User 0) = In_write (W3_join 1) \<and> pc s' (Kth 1) = In_send C3_thread 3 S3_pin
          \<and> pc s' (User 1) = In_mode M3_kth}"
proof -
  obtain s where s: "hrun sysfs_code True cycle_run (hsys_of sysfs_code fresh_dev) = Some s" "pc s (User 0) = In_write (W3_join 1)"
    "pc s (Kth 1) = In_send C3_thread 3 S3_pin" "pc s (User 1) = In_mode M3_kth" using cycle_reached by blast
  let ?D = "{User 0, User 1, Kth 1}"
  have inv: "sfc.lock_inv s" "sfc.role_inv True s" using sfc.invs_reachable [OF hrun_steps [OF s(1)] fresh_dev_new] by blast+
  then have "own s Kconfig_lock = Some (User 1)" "own s Kthread_lock = Some (User 0)"
    using s by (simp_all add: sfc.lock_inv_def)
  then have "waits_on sysfs_code joins3 s (User 0) (Kth 1)" "waits_on sysfs_code joins3 s (User 1) (User 0)"
    "waits_on sysfs_code joins3 s (Kth 1) (User 1)" using s(2-4) by (simp_all add: waits_on_def)
  then have D: "\<forall>v \<in> ?D. \<exists>v' \<in> ?D. waits_on sysfs_code joins3 s v v'" by (simp only: ball_simps bex_simps) simp
  have act: "\<forall>v \<in> ?D. \<not> rest_at sysfs_code (pc s v)" using s(2-4) by simp
  have "pc s' (User 0) = In_write (W3_join 1) \<and> pc s' (Kth 1) = In_send C3_thread 3 S3_pin \<and> pc s' (User 1) = In_mode M3_kth"
    if "steps3 True s s'" for s'
  proof -
    have "\<forall>v \<in> ?D. pc s' v = pc s v" using sfo.cycle_forever [OF that inv D act] by (elim conjE)
    with s(2-4) show ?thesis by simp
  qed
  with s(2) hrun_steps [OF s(1)] show ?thesis by blast
qed

text \<open>
  \<open>enable_store\<close> tests the pointer to the sampling thread before it takes a lock, and starts a thread without a second
  look. A write that starts one in between leaves two threads, and the pointer to the first is lost.
\<close>

lemma sysfs_two_threads:
  "\<exists>s. steps3 True (hsys_of sysfs_code fresh_dev) s \<and> pc s (Kth 1) \<noteq> Idle3 \<and> pc s (Kth 2) \<noteq> Idle3"
proof -
  obtain s where s: "hrun sysfs_code True second_run (hsys_of sysfs_code fresh_dev) = Some s" "pc s (Kth 1) = In_thread K3_start"
    "pc s (Kth 2) = In_thread K3_start" using second_reached by blast
  from hrun_steps [OF s(1)] s(2,3) show ?thesis by auto
qed

text \<open>
  Every outcome of the sequential measurement of the second driver is a behaviour of the device with everything
  interleaved. When nobody holds a lock, whatever \<open>send\<close> of \<open>HCSR_Sysfs\<close> returns and leaves behind for some times of
  pulses and echoes, a thread that enters \<open>send\<close> here can leave it with the same device.
\<close>

lemma sysfs_race_covers_send:
  assumes "quiet sysfs_code s" and "held (dev s) = {}" and "pc s w = In_send c (Suc r) S3_test" and "w \<noteq> Handler"
    and "send3 atts (Suc r) (dev s) = Ret v d'"
  shows "v = 0 \<and> (\<exists>s'. steps3 masked s s' \<and> quiet sysfs_code s' \<and> pc s' w = after_send3 c \<and> dev s' = d')"
  using sme.send_covered [OF assms(1,3,4,2), of atts masked] send3_eq [OF assms(2)] assms(5) by auto

lemma sysfs_race_covers_send_example:
  "\<exists>s s'. steps3 True (hsys_of sysfs_code fresh_dev) s \<and> steps3 True s s' \<and> pc s' (User 0) = In_read R3_spin
     \<and> dev s' = pulse 1000 (pulse 1000 (dev s))"
proof -
  obtain s where s: "hrun sysfs_code True read_start3 (hsys_of sysfs_code fresh_dev) = Some s" "pc s (User 0) = In_send C3_read 5 S3_test"
    "quiet sysfs_code s" "dev s = fresh_dev" using read_start_quiet3 by blast
  have h: "held fresh_dev = {}" "\<not> ongoing fresh_dev" by (simp_all add: fresh_dev_def init_hcsr_struct3_def zero_hcsr3_def)
  have "first_echo (\<lambda>_. None) = None" by (simp add: first_echo_def find_None_iff)
  then have "send3 no_echo (Suc 4) fresh_dev = Ret 0 (pulse 1000 (pulse 1000 fresh_dev))"
    using send_run [OF h(1), of no_echo 1000 "\<lambda>_. None" 1000 "\<lambda>_. None" 4] h send3_eq [OF h(1)] by (simp add: no_echo_def)
  with sysfs_race_covers_send [OF s(3), of "User 0" C3_read 4 no_echo] s h(1) hrun_steps [OF s(1)]
  show ?thesis by fastforce
qed

text \<open>
  The same for the attributes: when nobody holds a lock, calls of \<open>mode_store\<close>, \<open>frequency_store\<close>, the attributes of
  the configuration and \<open>distance\<close> can end with the result, the device and the printed number of the sequential routines of
  \<open>HCSR_Sysfs\<close>, malformed and rejected input included.
\<close>

lemma sysfs_race_covers_attributes:
  assumes "quiet sysfs_code s" and "held (dev s) = {}" and "at_rest3 (pc s (User n))"
  shows "(mode_store buf k (dev s) = Ret v d' \<longrightarrow> can_end masked n (Store_mode buf k) s (Ret3 v None) d')
    \<and> (frequency_store buf k (dev s) = Ret v d' \<longrightarrow> can_end masked n (Store_frequency buf k) s (Ret3 v None) d')
    \<and> (attr_show a buf (dev s) = Ret out d' \<longrightarrow>
         (\<exists>x. out = snprintf 10 (fmt_d x) buf \<and> can_end masked n (Show a) s (Prints x) d'))
    \<and> (distance_show buf (dev s) = Ret out d' \<longrightarrow>
         (\<exists>x. out = snprintf 10 (fmt_d x) buf \<and> can_end masked n Show_distance s (Shows x) d'))"
proof (intro impI conjI)
  note short = short_calls [OF assms(1,3)]
  show "can_end masked n (Store_mode buf k) s (Ret3 v None) d'" if "mode_store buf k (dev s) = Ret v d'"
    using mode_store_entry [OF assms(2) that] short(1,2) by metis
  show "can_end masked n (Store_frequency buf k) s (Ret3 v None) d'" if "frequency_store buf k (dev s) = Ret v d'"
    using frequency_store_entry [OF assms(2) that] short(1,3) by metis
  show "\<exists>x. out = snprintf 10 (fmt_d x) buf \<and> can_end masked n (Show a) s (Prints x) d'" if "attr_show a buf (dev s) = Ret out d'"
    using that attr_show_run [OF assms(2)] short(4) by auto
  show "\<exists>x. out = snprintf 10 (fmt_d x) buf \<and> can_end masked n Show_distance s (Shows x) d'" if "distance_show buf (dev s) = Ret out d'"
    using that distance_show_run [OF assms(2)] short(5) by auto
qed

lemma sysfs_race_covers_attributes_example:
  "can_end True 0 (Store_mode ''1'' 2) (hsys_of sysfs_code fresh_dev) (Ret3 2 None) (fresh_dev\<lparr>mode := 1\<rparr>)
   \<and> can_end True 0 (Store_frequency ''x'' 2) (hsys_of sysfs_code fresh_dev) (Ret3 0 None) fresh_dev"
proof -
  let ?s = "hsys_of sysfs_code fresh_dev"
  have h: "quiet sysfs_code ?s" "held (dev ?s) = {}" "at_rest3 (pc ?s (User 0))"
    by (simp_all add: quiet_def hsys_of_def fresh_dev_def init_hcsr_struct3_def zero_hcsr3_def)
  have "sscanf_d ''x'' = None" by (simp add: sscanf_d_def isspace_def isdigit_def)
  then have "mode_store ''1'' 2 (dev ?s) = Ret 2 (fresh_dev\<lparr>mode := 1\<rparr>)" "frequency_store ''x'' 2 (dev ?s) = Ret 0 fresh_dev"
    using h(2) by (simp_all add: mode_store_def frequency_store_def scan_samples run_simps held_same_hc hsys_of_def)
  with sysfs_race_covers_attributes [OF h] show ?thesis by blast
qed

end
