(* ===== verification/HCSR_Test.thy ===== *)
theory HCSR_Test
  imports HCSR_Proofs
begin

text \<open>
  The program \<open>hc_sr04-test.c\<close> (the same file is \<open>HCSR-test.c\<close> of the platform driver) on
  top of the driver of \<open>HCSR_Driver\<close>: two devices, the main thread, a thread that blocks in
  a read, two threads that each use one device, and the sampling threads the driver starts
  for them. The functions of the program are straight-line and are given as lists of
  instructions; a machine runs the instructions of the user threads and the rounds of the
  sampling threads in any order.

  A call into the driver runs until it returns or sleeps, with the interrupts that arrive
  during it: the processor of the board (a Galileo) has one core, and the driver only waits
  by polling, except for the sleep in the loop at \<open>RECHECK_BUF\<close>. Pointers are 32 bits wide,
  so the casts of pointers to \<open>int\<close> and of \<open>&i\<close> to \<open>pthread_t *\<close> lose nothing.
\<close>

section \<open>The program\<close>

datatype uthread = U_main | U_read | U_A | U_B

text \<open>Where a read puts the four bytes: in the variable \<open>i\<close>, or in \<open>TMP\<close> to be printed.\<close>

datatype dest = Into_i | Show string

text \<open>
  A file descriptor is given as \<open>True\<close> for \<open>fdA\<close> and \<open>False\<close> for \<open>fdB\<close>. \<open>Recheck\<close> is not an
  instruction of the program: a thread whose read sleeps is there.
\<close>

datatype instr =
    Open_dev bool
  | Ioctl_pins bool "int \<times> int"
  | Ioctl_mode bool "s32 \<times> u32"
  | Assign s32
  | Write_i bool
  | Read_dev bool dest
  | Recheck bool dest
  | Perror string
  | Perror_if_ret string
  | Say_unblocked
  | Say_mode "s32 \<times> u32"
  | Sleep
  | Spawn bool uthread
  | Await uthread

text \<open>The macro \<open>PRINT\<close>: read and print the distance.\<close>

definition PRINT :: "string \<Rightarrow> bool \<Rightarrow> instr" where
  "PRINT name fd = Read_dev fd (Show name)"

definition readfunc :: "string \<Rightarrow> bool \<Rightarrow> instr list" where
  "readfunc name fd = [Assign 0, Read_dev fd Into_i, PRINT name fd, Say_unblocked]"

definition pfunction :: "string \<Rightarrow> bool \<Rightarrow> s32 \<times> u32 \<Rightarrow> instr list" where
  "pfunction name fd wm =
    [Assign 0,
     Say_mode wm,
     Ioctl_mode fd wm,
     Assign 1,
     Read_dev fd Into_i, PRINT name fd,
     Sleep,
     Assign 1,
     Write_i fd, PRINT name fd,
     Sleep,
     Assign 0,
     Write_i fd, PRINT name fd]"

abbreviation HCSR_1 :: string where "HCSR_1 \<equiv> ''HCSR_1''"
abbreviation HCSR_2 :: string where "HCSR_2 \<equiv> ''HCSR_2''"

definition pins_of :: "bool \<Rightarrow> int \<times> int" where
  "pins_of d = (if d then (6, 15) else (10, 1))"

text \<open>\<open>Spawn True u\<close> stores the identifier of the new thread in \<open>i\<close>.\<close>

definition main_instrs :: "instr list" where
  "main_instrs =
    [Assign 1,
     Open_dev True,
     Ioctl_pins True (pins_of True),
     Perror ''SETPIN'',
     Open_dev False,
     Ioctl_pins False (pins_of False),
     Perror ''SETPIN'',
     Ioctl_mode True (0, 7),
     Perror ''IOCTL'',
     Assign 0,
     Write_i True, PRINT HCSR_1 True,
     Write_i True, PRINT HCSR_1 True,
     Assign 1,
     Write_i True, PRINT HCSR_1 True,
     Read_dev True Into_i, PRINT HCSR_1 True,
     Read_dev True Into_i, PRINT HCSR_1 True,
     Ioctl_mode False (1, 7),
     Perror_if_ret ''SETMODE'',
     Spawn True U_read,
     Assign 1,
     Write_i False, PRINT HCSR_2 False,
     Sleep,
     Assign 0,
     Write_i False, PRINT HCSR_2 False,
     Ioctl_mode False (0, 7),
     Perror_if_ret ''SETMODE'',
     Assign 0,
     Assign 1,
     Write_i True, PRINT HCSR_1 True,
     Assign 1,
     Write_i False, PRINT HCSR_2 False,
     Spawn False U_A,
     Spawn False U_B,
     Await U_A,
     Await U_B]"

definition code_of :: "uthread \<Rightarrow> instr list" where
  "code_of u =
    (case u of
       U_main \<Rightarrow> main_instrs
     | U_read \<Rightarrow> readfunc HCSR_2 False
     | U_A \<Rightarrow> pfunction HCSR_1 True (1, 7)
     | U_B \<Rightarrow> pfunction HCSR_2 False (0, 7))"

section \<open>The machine\<close>

text \<open>A thread: the instructions still to run and its variables \<open>i\<close> and \<open>ret\<close>.\<close>

record uthr =
  todo :: "instr list"
  i_var :: s32
  ret_var :: int

datatype uline = Distance string s32 | Errno string | Unblocked | Mode_freq s32 u32

text \<open>\<open>printed\<close> is the standard output, each line with the thread that printed it.\<close>

record hcsys =
  modl :: hc_module
  fds :: "bool \<Rightarrow> bool option"
  thr :: "uthread \<Rightarrow> uthr option"
  printed :: "(uthread \<times> uline) list"
  dead :: "fault option"

text \<open>
  Around the program: the GPIO and interrupt subsystems, the minor numbers of the two device
  files, what \<open>pthread_create\<close> stores, and what uninitialised variables hold.
\<close>

record hcenv =
  genv :: gpio_env
  ienv :: irq_env
  minor_of :: "bool \<Rightarrow> int"
  tid_word :: s32
  junk :: s32

type_synonym echoes = "nat \<Rightarrow> u64 \<times> (nat \<Rightarrow> u64 option)"

definition hdev :: "bool \<Rightarrow> hc_module \<Rightarrow> hcsr_struct" where
  "hdev d m = (if d then hcA m else hcB m)"

definition put_dev :: "bool \<Rightarrow> hcsr_struct \<Rightarrow> hc_module \<Rightarrow> hc_module" where
  "put_dev d h m = (if d then m\<lparr>hcA := h, board := gpios h\<rparr> else m\<lparr>hcB := h, board := gpios h\<rparr>)"

text \<open>A call on one device of the module; the GPIOs are those of the board.\<close>

definition on_dev :: "bool \<Rightarrow> ('a, hcsr_struct) cmd \<Rightarrow> ('a, hc_module) cmd" where
  "on_dev d c m =
    (case c ((hdev d m)\<lparr>gpios := board m\<rparr>) of
       Ret a h \<Rightarrow> Ret a (put_dev d h m)
     | Oops e h \<Rightarrow> Oops e (put_dev d h m))"

definition put_thr :: "uthread \<Rightarrow> uthr \<Rightarrow> hcsys \<Rightarrow> hcsys" where
  "put_thr u t s = s\<lparr>thr := (thr s)(u \<mapsto> t)\<rparr>"

definition say :: "uthread \<Rightarrow> uline \<Rightarrow> hcsys \<Rightarrow> hcsys" where
  "say u l s = s\<lparr>printed := printed s @ [(u, l)]\<rparr>"

text \<open>A system call ends: with a value for its continuation, or in a kernel fault.\<close>

definition after :: "('a, hc_module) outcome \<Rightarrow> ('a \<Rightarrow> hcsys \<Rightarrow> hcsys option) \<Rightarrow> hcsys \<Rightarrow> hcsys option" where
  "after r k s =
    (case r of
       Ret a m \<Rightarrow> k a (s\<lparr>modl := m\<rparr>)
     | Oops e m \<Rightarrow> Some (s\<lparr>modl := m, dead := Some e\<rparr>))"

text \<open>The return value of \<open>ioctl\<close> in user space.\<close>

definition libc :: "int \<Rightarrow> int" where
  "libc r = (if r < 0 then - 1 else r)"

definition ioctl_dev ::
  "hcenv \<Rightarrow> bool \<Rightarrow> u32 \<Rightarrow> int \<times> int \<Rightarrow> s32 \<times> u32 \<Rightarrow> uthread \<Rightarrow> uthr \<Rightarrow> hcsys \<Rightarrow> hcsys option" where
  "ioctl_dev env fd req pins wm u t s =
    (case fds s fd of
       None \<Rightarrow> Some (put_thr u (t\<lparr>ret_var := - 1\<rparr>) s)
     | Some d \<Rightarrow>
         after (on_dev d (hc_sr04_ioctl (genv env) (ienv env) req 0 pins wm) (modl s))
           (\<lambda>r s. Some (put_thr u (t\<lparr>ret_var := libc r\<rparr>) s)) s)"

text \<open>The memory a read is given, and what is done with it afterwards.\<close>

fun read_mem :: "hcenv \<Rightarrow> dest \<Rightarrow> uthr \<Rightarrow> byte list" where
  "read_mem env Into_i t = le32 (i_var t)"
| "read_mem env (Show name) t = le32 (junk env)"

fun deliver :: "uthread \<Rightarrow> dest \<Rightarrow> byte list \<Rightarrow> uthr \<Rightarrow> hcsys \<Rightarrow> hcsys" where
  "deliver u Into_i um t s = put_thr u (t\<lparr>i_var := of_le32 um\<rparr>) s"
| "deliver u (Show name) um t s = say u (Distance name (of_le32 um)) (put_thr u t s)"

text \<open>A read that was woken up from its sleep: the code of \<open>hc_sr04_read\<close> from \<open>RECHECK_BUF\<close> on.\<close>

definition resume_read :: "byte list \<Rightarrow> (read_result \<times> byte list, hcsr_struct) cmd" where
  "resume_read um =
    bnd (recheck_buf []) (\<lambda>fin.
      if \<not> fin then ret (Blocked, um)
      else bnd (copy_sample 0 um) (\<lambda>um'. ret (Done 0, um')))"

text \<open>
  One instruction of thread \<open>u\<close>; \<open>t\<close> is the thread with the instruction taken off. \<open>a\<close> are the
  echoes of the measurement, should the instruction start one. \<open>None\<close>: the thread waits.
\<close>

fun run_instr :: "hcenv \<Rightarrow> echoes \<Rightarrow> uthread \<Rightarrow> instr \<Rightarrow> uthr \<Rightarrow> hcsys \<Rightarrow> hcsys option" where
  "run_instr env a u (Open_dev fd) t s =
     after (hc_sr04_open (minor_of env fd) (modl s))
       (\<lambda>(_, d) s. Some (put_thr u t (s\<lparr>fds := (fds s)(fd \<mapsto> d)\<rparr>))) s"
| "run_instr env a u (Ioctl_pins fd pins) t s = ioctl_dev env fd SETPINS pins (0, 0) u t s"
| "run_instr env a u (Ioctl_mode fd wm) t s = ioctl_dev env fd SETMODE (0, 0) wm u t s"
| "run_instr env a u (Assign v) t s = Some (put_thr u (t\<lparr>i_var := v\<rparr>) s)"
| "run_instr env a u (Write_i fd) t s =
     (case fds s fd of
        None \<Rightarrow> Some (put_thr u t s)
      | Some d \<Rightarrow>
          after (on_dev d (hc_sr04_write a 0 (le32 (i_var t))) (modl s)) (\<lambda>_ s. Some (put_thr u t s)) s)"
| "run_instr env a u (Read_dev fd dst) t s =
     (case fds s fd of
        None \<Rightarrow> Some (deliver u dst (read_mem env dst t) t s)
      | Some d \<Rightarrow>
          after (on_dev d (hc_sr04_read a [] 0 (read_mem env dst t)) (modl s))
            (\<lambda>(r, um) s.
               if r = Blocked then Some (put_thr u (t\<lparr>todo := Recheck fd dst # todo t\<rparr>) s)
               else Some (deliver u dst um t s)) s)"
| "run_instr env a u (Recheck fd dst) t s =
     (case fds s fd of
        None \<Rightarrow> None
      | Some d \<Rightarrow>
          after (on_dev d (resume_read (read_mem env dst t)) (modl s))
            (\<lambda>(r, um) s. if r = Blocked then None else Some (deliver u dst um t s)) s)"
| "run_instr env a u (Perror msg) t s = Some (say u (Errno msg) (put_thr u t s))"
| "run_instr env a u (Perror_if_ret msg) t s =
     Some (if ret_var t \<noteq> 0 then say u (Errno msg) (put_thr u t s) else put_thr u t s)"
| "run_instr env a u Say_unblocked t s = Some (say u Unblocked (put_thr u t s))"
| "run_instr env a u (Say_mode wm) t s = Some (say u (Mode_freq (fst wm) (snd wm)) (put_thr u t s))"
| "run_instr env a u Sleep t s = Some (put_thr u t s)"
| "run_instr env a u (Spawn into_i c) t s =
     Some (put_thr c \<lparr>todo = code_of c, i_var = junk env, ret_var = 0\<rparr>
       (put_thr u (if into_i then t\<lparr>i_var := tid_word env\<rparr> else t) s))"
| "run_instr env a u (Await c) t s =
     (case thr s c of
        None \<Rightarrow> None
      | Some tc \<Rightarrow> if todo tc = [] then Some (put_thr u t s) else None)"

text \<open>The end of \<open>main\<close> ends the program with all its threads.\<close>

definition over :: "hcsys \<Rightarrow> bool" where
  "over s \<longleftrightarrow> (case thr s U_main of None \<Rightarrow> True | Some t \<Rightarrow> todo t = [])"

definition user_exec :: "hcenv \<Rightarrow> echoes \<Rightarrow> uthread \<Rightarrow> hcsys \<Rightarrow> hcsys option" where
  "user_exec env a u s =
    (if dead s \<noteq> None \<or> over s then None
     else case thr s u of
        None \<Rightarrow> None
      | Some t \<Rightarrow>
          (case todo t of [] \<Rightarrow> None | op # ops \<Rightarrow> run_instr env a u op (t\<lparr>todo := ops\<rparr>) s))"

text \<open>One round of the sampling thread of a device, if it has one.\<close>

definition sampler_exec :: "echoes \<Rightarrow> bool \<Rightarrow> hcsys \<Rightarrow> hcsys option" where
  "sampler_exec a d s =
    (if dead s \<noteq> None then None
     else case kthread (hdev d (modl s)) of
        None \<Rightarrow> None
      | Some f \<Rightarrow> after (on_dev d (thread_function [a]) (modl s)) (\<lambda>_ s. Some s) s)"

datatype actor = User uthread | Sampler bool

fun actor_exec :: "hcenv \<Rightarrow> actor \<times> echoes \<Rightarrow> hcsys \<Rightarrow> hcsys option" where
  "actor_exec env (User u, a) s = user_exec env a u s"
| "actor_exec env (Sampler d, a) s = sampler_exec a d s"

fun run_sched :: "hcenv \<Rightarrow> (actor \<times> echoes) list \<Rightarrow> hcsys \<Rightarrow> hcsys option" where
  "run_sched env [] s = Some s"
| "run_sched env (x # xs) s =
     (case actor_exec env x s of None \<Rightarrow> None | Some s' \<Rightarrow> run_sched env xs s')"

text \<open>The program starts after the module was loaded on a board with no GPIO in use.\<close>

definition loaded_module :: "hcenv \<Rightarrow> hc_module" where
  "loaded_module env =
     state_of (hc_sr04_init 0 0 (minor_of env True) (minor_of env False)
       \<lparr>hcA = zero_hcsr, hcB = zero_hcsr, hcsr_list = [],
        board = \<lparr>requested = {}, dirs = (\<lambda>_. None), bad_free = []\<rparr>\<rparr>)"

definition hc_start :: "hcenv \<Rightarrow> hcsys" where
  "hc_start env =
    \<lparr>modl = loaded_module env, fds = (\<lambda>_. None),
     thr = [U_main \<mapsto> \<lparr>todo = main_instrs, i_var = junk env, ret_var = 0\<rparr>],
     printed = [], dead = None\<rparr>"

section \<open>What one thread knows of a device\<close>

text \<open>
  A device is driven by one thread at a time, \<open>main\<close> first and the thread created for it
  later. What this thread knows: whether the file is open and the pins are set, mode and
  frequency, whether a sampling thread runs, whether a sample is there for sure, and the
  value of its variable \<open>i\<close>, if known.
\<close>

record know =
  kopen :: bool
  kconf :: bool
  kmode :: s32
  kfreq :: u32
  krun :: bool
  ksamp :: bool
  kival :: "s32 option"

definition dev_ok :: "s32 set \<Rightarrow> know \<Rightarrow> hcsr_struct \<Rightarrow> bool" where
  "dev_ok D K h \<longleftrightarrow> held h = {} \<and> \<not> ongoing h \<and> ring_ok h \<and> irq_done h = kconf K
     \<and> mode h = kmode K \<and> freq h = kfreq K \<and> (kmode K \<noteq> 0 \<longrightarrow> kfreq K \<noteq> 0)
     \<and> kthread h = (if krun K then Some (kfreq K) else None) \<and> (krun K \<longrightarrow> kmode K \<noteq> 0)
     \<and> (ksamp K \<longrightarrow> newest h \<noteq> - 1) \<and> (newest h \<noteq> - 1 \<longrightarrow> sample h \<in> D)"

definition wiring :: "hcsr_struct \<Rightarrow> int \<times> int \<times> bool \<times> int \<times> int set \<times> int list" where
  "wiring h = (trigger_pin h, echo_pin h, irq_done h, echo_isr_number h, irqs h, bad_irq h)"

text \<open>A measurement whose first pulse is answered, with a distance of \<open>D\<close>.\<close>

definition answers :: "s32 set \<Rightarrow> echoes \<Rightarrow> bool" where
  "answers D a \<longleftrightarrow> (\<exists>d \<in> D. round_distance a = Some d)"

lemma dev_ok_gpios [simp]: "dev_ok D K (h\<lparr>gpios := g\<rparr>) = dev_ok D K h"
  by (simp add: dev_ok_def ring_ok_def sample_def)

lemma wiring_gpios [simp]: "wiring (h\<lparr>gpios := g\<rparr>) = wiring h"
  by (simp add: wiring_def)

text \<open>What is kept by every call that does not set the pins.\<close>

definition same_setup :: "hcsr_struct \<Rightarrow> hcsr_struct \<Rightarrow> bool" where
  "same_setup h h' \<longleftrightarrow> wiring h' = wiring h \<and> gpios h' = gpios h"

lemma same_setup_refl [simp]: "same_setup h h"
  by (simp add: same_setup_def)

lemma send_answered:
  assumes "dev_ok D K h" and "answers D a"
  shows "\<exists>h'. send a (Suc r) h = Ret 0 h' \<and> dev_ok D (K\<lparr>ksamp := True\<rparr>) h' \<and> same_setup h h'
    \<and> newest h' \<noteq> - 1"
proof -
  let ?s0 = "fst (a 0)" and ?ev = "snd (a 0)"
  obtain d where d: "d \<in> D" "round_distance a = Some d" using assms(2) by (auto simp: answers_def)
  then obtain k where k: "first_echo ?ev = Some k" "d = distance_of ?s0 (the (?ev k))"
    by (auto simp: round_distance_def case_prod_beta)
  let ?h = "recorded (the (?ev k)) (pulse ?s0 h)"
  have h: "held h = {}" "\<not> ongoing h" "ring_ok h" using assms(1) by (simp_all add: dev_ok_def)
  have run: "send a (Suc r) h = Ret 0 ?h"
    using send_run [OF h(1), of a ?s0 ?ev "fst (a 1)" "snd (a 1)" r] h(2) k(1) by simp
  have ring: "ring_ok (pulse ?s0 h)" using h(3) by (simp add: ring_ok_def)
  have s: "sample ?h = d" using sample_push [OF ring] by (simp add: recorded_def k(2))
  have n: "newest ?h \<noteq> - 1" and r: "ring_ok ?h"
    using cirb.push_invar [OF ring] by (auto simp: recorded_def push_sample_def ring_ok_def)
  have "dev_ok D (K\<lparr>ksamp := True\<rparr>) ?h"
    using assms(1) d(1) s n r by (auto simp: dev_ok_def recorded_def pulse_def push_sample_def)
  moreover have "same_setup h ?h"
    by (simp add: same_setup_def wiring_def recorded_def pulse_def push_sample_def)
  ultimately show ?thesis using run n by blast
qed

lemma dev_ok_clear:
  assumes "dev_ok D K h"
  shows "dev_ok D (K\<lparr>ksamp := False\<rparr>) (h\<lparr>cbuf := replicate NUM_DATA 0, newest := - 1\<rparr>)"
  using assms by (auto simp: dev_ok_def ring_ok_def)

lemma dev_ok_samp: "dev_ok D (K\<lparr>ksamp := True\<rparr>) h \<Longrightarrow> dev_ok D K h"
  by (auto simp: dev_ok_def)

lemma write_answered:
  assumes "dev_ok D K h" and "answers D a"
  shows "\<exists>h'. hc_sr04_write a 0 (le32 v) h = Ret 0 h' \<and> same_setup h h'
    \<and> dev_ok D (if kmode K = 0 then K\<lparr>ksamp := True\<rparr> else K\<lparr>krun := (v \<noteq> 0)\<rparr>) h'"
proof (cases "kmode K = 0")
  case True
  let ?c = "if v \<noteq> 0 then h\<lparr>cbuf := replicate NUM_DATA 0, newest := - 1\<rparr> else h"
  let ?K = "if v \<noteq> 0 then K\<lparr>ksamp := False\<rparr> else K"
  have h: "held h = {}" "\<not> ongoing h" "mode h = 0" using assms(1) True by (simp_all add: dev_ok_def)
  have c: "dev_ok D ?K ?c" using assms(1) dev_ok_clear [OF assms(1)] by auto
  obtain h' where h': "send a 5 ?c = Ret 0 h'" "dev_ok D (?K\<lparr>ksamp := True\<rparr>) h'" "same_setup ?c h'"
    using send_answered [OF c assms(2), of 4] by auto
  have "hc_sr04_write a 0 (le32 v) h = Ret 0 h'"
    using h h'(1) by (simp add: hc_sr04_write_def run_simps held_same_hc split: if_splits)
  moreover have "same_setup h h'" using h'(3) by (auto simp: same_setup_def wiring_def split: if_splits)
  moreover have "dev_ok D (K\<lparr>ksamp := True\<rparr>) h'" using h'(2) by (simp split: if_splits)
  ultimately show ?thesis using True by auto
next
  case False
  let ?t = "kthread h"
  let ?h = "if v = 0 then (if ?t = None then h else h\<lparr>kthread := None, ongoing := False\<rparr>)
    else if ?t \<noteq> None then h else h\<lparr>kthread := Some (freq h)\<rparr>"
  have h: "held h = {}" "mode h \<noteq> 0" using assms(1) False by (simp_all add: dev_ok_def)
  have "hc_sr04_write a 0 (le32 v) h = Ret 0 ?h"
    using h by (auto simp: hc_sr04_write_def run_simps kthread_run_def intro!: hcsr_struct.equality)
  moreover have "same_setup h ?h" by (auto simp: same_setup_def wiring_def)
  moreover have "dev_ok D (K\<lparr>krun := (v \<noteq> 0)\<rparr>) ?h"
    using assms(1) False by (auto simp: dev_ok_def ring_ok_def sample_def split: if_splits)
  ultimately show ?thesis using False by auto
qed

lemma read_answered:
  assumes "dev_ok D K h" and "answers D a" and "length um = 4"
  shows "\<exists>r um' h'. hc_sr04_read a [] 0 um h = Ret (r, um') h' \<and> same_setup h h' \<and> dev_ok D K h'
    \<and> (if r = Blocked then h' = h \<and> kmode K \<noteq> 0 \<and> newest h = - 1
       else dev_ok D (K\<lparr>ksamp := True\<rparr>) h' \<and> of_le32 um' \<in> D)"
proof (cases "kmode K = 0")
  case True
  have h: "held h = {}" "\<not> ongoing h" "mode h = 0" using assms(1) True by (simp_all add: dev_ok_def)
  obtain h' where h': "send a 5 h = Ret 0 h'" "dev_ok D (K\<lparr>ksamp := True\<rparr>) h'" "same_setup h h'"
    using send_answered [OF assms(1,2), of 4] by auto
  have i: "held h' = {}" "\<not> ongoing h'" "sample h' \<in> D" using h'(2) by (simp_all add: dev_ok_def)
  have "of_le32 (copy_to_user 0 (le32 (sample h')) 0 um) = sample h'"
    using assms(3) by (simp add: copy_to_user_def)
  with read_one_shot_run [OF h(1,3,2) h'(1) i(1,2), of "[]" 0 um] h' i(3) dev_ok_samp [OF h'(2)]
  show ?thesis by auto
next
  case False
  have h: "held h = {}" "mode h \<noteq> 0" using assms(1) False by (simp_all add: dev_ok_def)
  show ?thesis
  proof (cases "newest h = - 1")
    case True
    then have "hc_sr04_read a [] 0 um h = Ret (Blocked, um) h"
      using h by (simp add: hc_sr04_read_def run_simps recheck_buf.simps held_same_hc)
    then show ?thesis using True False assms(1) by auto
  next
    case n: False
    have "of_le32 (copy_to_user 0 (le32 (sample h)) 0 um) = sample h"
      using assms(3) by (simp add: copy_to_user_def)
    moreover have "dev_ok D (K\<lparr>ksamp := True\<rparr>) h" "sample h \<in> D"
      using assms(1) n by (simp_all add: dev_ok_def)
    ultimately show ?thesis using read_periodic_run [OF h n, of a "[]" 0 um] assms(1) by auto
  qed
qed

lemma resume_answered:
  assumes "dev_ok D K h" and "length um = 4"
  shows "\<exists>um'. resume_read um h = Ret (if newest h = - 1 then Blocked else Done 0, um') h
    \<and> (newest h \<noteq> - 1 \<longrightarrow> dev_ok D (K\<lparr>ksamp := True\<rparr>) h \<and> of_le32 um' \<in> D)"
proof -
  have h: "held h = {}" using assms(1) by (simp add: dev_ok_def)
  have "of_le32 (copy_to_user 0 (le32 (sample h)) 0 um) = sample h"
    using assms(2) by (simp add: copy_to_user_def)
  then show ?thesis
    using assms(1) h
    by (auto simp: resume_read_def run_simps recheck_buf.simps copy_sample_run held_same_hc dev_ok_def)
qed

lemma setmode_answered:
  assumes "dev_ok D K h" and "m = 0 \<or> m = 1" and "f \<noteq> 0"
  shows "\<exists>h'. hc_sr04_ioctl ge ie SETMODE 0 p (m, f) h = Ret 0 h' \<and> same_setup h h'
    \<and> dev_ok D (K\<lparr>kmode := m, kfreq := f, krun := (krun K \<and> m \<noteq> 0)\<rparr>) h'"
proof -
  let ?h = "h\<lparr>mode := m, freq := f, kthread := (if kthread h = None \<or> m = 0 then None else Some f)\<rparr>"
  have h: "held h = {}" using assms(1) by (simp add: dev_ok_def)
  have "SETMODE \<noteq> SETPINS" by (simp add: SETMODE_def SETPINS_def IOC_def)
  then have "hc_sr04_ioctl ge ie SETMODE 0 p (m, f) h = Ret 0 ?h"
    using h assms(2)
    by (auto simp: hc_sr04_ioctl_def ioctl_SETMODE_def run_simps kthread_run_def intro!: hcsr_struct.equality)
  moreover have "same_setup h ?h" by (simp add: same_setup_def wiring_def)
  moreover have "dev_ok D (K\<lparr>kmode := m, kfreq := f, krun := (krun K \<and> m \<noteq> 0)\<rparr>) ?h"
    using assms by (auto simp: dev_ok_def ring_ok_def sample_def split: if_splits)
  ultimately show ?thesis by blast
qed

section \<open>The pins\<close>

definition gpios_for :: "bool \<Rightarrow> int set" where
  "gpios_for d = set (pin_gpios True (fst (pins_of d))) \<union> set (pin_gpios False (snd (pins_of d)))"

lemma gpios_for_sets:
  "gpios_for True = {6, 36, 15, 42, 43}" "gpios_for False = {10, 26, 74, 1, 20, 21, 68}"
  by (auto simp: gpios_for_def pins_of_def gpios_of_pins)

text \<open>The kernel grants both pairs of pins and their interrupt lines.\<close>

definition board_ok :: "hcenv \<Rightarrow> bool" where
  "board_ok env \<longleftrightarrow> minor_of env True \<noteq> minor_of env False
     \<and> grantable (genv env) (ienv env) (pins_of True) {}
     \<and> grantable (genv env) (ienv env) (pins_of False) {}"

lemma board_ok_grantable:
  assumes "board_ok env" and "X \<inter> gpios_for d = {}"
  shows "grantable (genv env) (ienv env) (pins_of d) X"
  using assms by (cases d) (auto simp: board_ok_def grantable_def gpios_for_def)

text \<open>A device holds its interrupt line, or has never been configured; the board's GPIOs in use.\<close>

definition dev_wired :: "bool \<Rightarrow> hcsr_struct \<Rightarrow> bool" where
  "dev_wired d h \<longleftrightarrow> (if irq_done h
     then (trigger_pin h, echo_pin h) = pins_of d \<and> irqs h = {echo_isr_number h}
     else trigger_pin h = 0 \<and> echo_pin h = 0 \<and> irqs h = {}) \<and> bad_irq h = []"

definition wired :: "hc_module \<Rightarrow> bool" where
  "wired m \<longleftrightarrow> dev_wired True (hcA m) \<and> dev_wired False (hcB m)
     \<and> requested (board m) = (if irq_done (hcA m) then gpios_for True else {})
         \<union> (if irq_done (hcB m) then gpios_for False else {})"

lemma hdev_put [simp]: "hdev d (put_dev d' h m) = (if d = d' then h else hdev d m)"
  by (simp add: hdev_def put_dev_def)

lemma list_put [simp]: "hcsr_list (put_dev d h m) = hcsr_list m"
  by (simp add: put_dev_def)

lemma board_put [simp]: "board (put_dev d h m) = gpios h"
  by (simp add: put_dev_def)

lemma wired_keep:
  assumes "wired m" and "same_setup ((hdev d m)\<lparr>gpios := board m\<rparr>) h"
  shows "wired (put_dev d h m)"
  using assms
  by (cases d) (auto simp: wired_def same_setup_def wiring_def dev_wired_def hdev_def put_dev_def)

lemma fresh_unconfigured:
  assumes "\<not> irq_done h" and "trigger_pin h = 0" and "echo_pin h = 0"
  shows "requested (gpios (unconfigured p h)) = requested (gpios h) - {0, 18, 19, 66}"
    and "irqs (unconfigured p h) = irqs h" and "bad_irq (unconfigured p h) = bad_irq h"
  using assms by (auto simp: unconfigured_sel freeTrig_eq freeEcho_eq gpios_of_pins free_always gpio_free_def)

text \<open>The fields \<open>SETPINS\<close> does not touch.\<close>

definition sensor_view ::
  "hcsr_struct \<Rightarrow> hlock set \<times> bool \<times> s32 list \<times> int \<times> s32 \<times> u32 \<times> u32 option" where
  "sensor_view h = (held h, ongoing h, cbuf h, newest h, mode h, freq h, kthread h)"

lemma dev_ok_view:
  "dev_ok D K h \<Longrightarrow> sensor_view h' = sensor_view h \<Longrightarrow> dev_ok D (K\<lparr>kconf := irq_done h'\<rparr>) h'"
  by (auto simp: dev_ok_def sensor_view_def ring_ok_def sample_def)

lemma unconfigured_view: "sensor_view (unconfigured p h) = sensor_view h"
  by (simp add: sensor_view_def unconfigured_def free_irq_def free_gpio_def run_simps)

lemma setpins_view:
  assumes "held h = {}" and "ioctl_SETPINs ge ie 0 p h = Ret 0 h'"
  shows "sensor_view h' = sensor_view h \<and> irq_done h'"
proof -
  let ?u = "unconfigured p h"
  obtain r1 g1 where g1: "setTrig ge (fst p) (gpios ?u) = (r1, g1)" by (cases "setTrig ge (fst p) (gpios ?u)")
  obtain r2 g2 where g2: "setEcho ge (snd p) g1 = (r2, g2)" by (cases "setEcho ge (snd p) g1")
  show ?thesis
    using assms(2) unconfigured_view [of p h] assms(1)
    by (auto simp: setpins_run [OF assms(1)] run_simps on_gpio_def g1 g2 set_ISR_def setpins_error_def
        sensor_view_def unconfigured_sel(3,5) split: if_splits)
qed

lemma setpins_board:
  assumes env: "board_ok env" and w: "wired m" and ok: "dev_ok D K (hdev d m)" and n: "\<not> kconf K"
  shows "\<exists>h. on_dev d (hc_sr04_ioctl (genv env) (ienv env) SETPINS 0 (pins_of d) wm) m = Ret 0 (put_dev d h m)
    \<and> dev_ok D (K\<lparr>kconf := True\<rparr>) h \<and> wired (put_dev d h m)"
proof -
  let ?h = "(hdev d m)\<lparr>gpios := board m\<rparr>"
  have h: "held ?h = {}" "\<not> irq_done ?h" using ok n by (auto simp: dev_ok_def)
  then have p: "trigger_pin ?h = 0" "echo_pin ?h = 0" "irqs ?h = {}" "bad_irq ?h = []"
    using w by (cases d; auto simp: wired_def dev_wired_def hdev_def)+
  note u = fresh_unconfigured [OF h(2) p(1,2), of "pins_of d"]
  have b: "requested (board m) \<inter> gpios_for d = {}" "requested (board m) - {0, 18, 19, 66} = requested (board m)"
    using w h(2) by (cases d; auto simp: wired_def hdev_def gpios_for_sets split: if_splits)+
  have rq: "requested (gpios (unconfigured (pins_of d) ?h)) = requested (board m)"
    using u(1) b(2) by simp
  have gr: "grantable (genv env) (ienv env) (pins_of d) (requested (gpios (unconfigured (pins_of d) ?h)))"
    unfolding rq using board_ok_grantable [OF env b(1)] .
  have irq: "irqs (unconfigured (pins_of d) ?h) = {}" using u(2) p(3) by simp
  obtain h' where h': "ioctl_SETPINs (genv env) (ienv env) 0 (pins_of d) ?h = Ret 0 h'" "configured h'"
    "trigger_pin h' = fst (pins_of d)" "echo_pin h' = snd (pins_of d)"
    "requested (gpios h') = requested (board m) \<union> dev_gpios h'"
    "bad_irq h' = []"
    using setpins_ok [OF h(1) gr irq] unfolding rq u(3) p(4) by blast
  note v = setpins_view [OF h(1) h'(1)]
  have "dev_ok D (K\<lparr>kconf := True\<rparr>) h'" using dev_ok_view [of D K ?h h'] v ok by simp
  moreover have "wired (put_dev d h' m)"
    using w h' h(2)
    by (cases d) (auto simp: wired_def dev_wired_def hdev_def put_dev_def configured_def dev_gpios_def
        gpios_for_def)
  ultimately show ?thesis using h'(1) by (auto simp: on_dev_def hc_sr04_ioctl_def)
qed

section \<open>Checking the instructions of a thread\<close>

definition child :: "bool \<Rightarrow> uthread" where
  "child d = (if d then U_A else U_B)"

fun touches :: "bool \<Rightarrow> instr \<Rightarrow> bool" where
  "touches d (Open_dev fd) = (fd = d)"
| "touches d (Ioctl_pins fd _) = (fd = d)"
| "touches d (Ioctl_mode fd _) = (fd = d)"
| "touches d (Write_i fd) = (fd = d)"
| "touches d (Read_dev fd _) = (fd = d)"
| "touches d (Recheck fd _) = (fd = d)"
| "touches d (Spawn _ c) = (c = child d)"
| "touches d _ = False"

text \<open>
  What is known of device \<open>d\<close> after an instruction, \<open>None\<close> if the instruction could fail or
  wait for ever. A read in periodic mode may wait when a sampling thread runs.
\<close>

fun k_after :: "bool \<Rightarrow> instr \<Rightarrow> know \<Rightarrow> know option" where
  "k_after d (Open_dev fd) K = Some (if fd = d then K\<lparr>kopen := True\<rparr> else K)"
| "k_after d (Ioctl_pins fd p) K =
     (if fd \<noteq> d then Some K
      else if kopen K \<and> \<not> kconf K \<and> p = pins_of d then Some (K\<lparr>kconf := True\<rparr>) else None)"
| "k_after d (Ioctl_mode fd wm) K =
     (if fd \<noteq> d then Some K
      else if kopen K \<and> (fst wm = 0 \<or> fst wm = 1) \<and> snd wm \<noteq> 0
      then Some (K\<lparr>kmode := fst wm, kfreq := snd wm, krun := (krun K \<and> fst wm \<noteq> 0)\<rparr>) else None)"
| "k_after d (Write_i fd) K =
     (if fd \<noteq> d then Some K
      else if \<not> kopen K then None
      else case kival K of
          None \<Rightarrow> None
        | Some v \<Rightarrow> Some (if kmode K = 0 then K\<lparr>ksamp := True\<rparr> else K\<lparr>krun := (v \<noteq> 0)\<rparr>))"
| "k_after d (Read_dev fd _) K =
     (if fd \<noteq> d then Some K
      else if kopen K \<and> (kmode K = 0 \<or> ksamp K \<or> krun K) then Some (K\<lparr>ksamp := True\<rparr>) else None)"
| "k_after d (Recheck fd _) K =
     (if fd \<noteq> d then Some K
      else if kopen K \<and> (ksamp K \<or> krun K) then Some (K\<lparr>ksamp := True\<rparr>) else None)"
| "k_after d (Spawn _ c) K =
     (if c = child d \<or> c = U_read \<and> \<not> d \<and> \<not> kopen K then None else Some K)"
| "k_after d _ K = Some K"

fun i_after :: "instr \<Rightarrow> s32 option \<Rightarrow> s32 option" where
  "i_after (Assign v) i = Some v"
| "i_after (Read_dev _ Into_i) i = None"
| "i_after (Recheck _ Into_i) i = None"
| "i_after (Spawn into_i _) i = (if into_i then None else i)"
| "i_after _ i = i"

definition instr_after :: "bool \<Rightarrow> instr \<Rightarrow> know \<Rightarrow> know option" where
  "instr_after d op K = map_option (\<lambda>K'. K'\<lparr>kival := i_after op (kival K)\<rparr>) (k_after d op K)"

text \<open>
  The thread of device \<open>d\<close> runs to its end and leaves the device set up, with a sample, no
  sampling thread and its final mode; the main thread hands the device over to that thread
  and does not use it any more.
\<close>

definition aloof :: "bool \<Rightarrow> instr list \<Rightarrow> bool" where
  "aloof d ops \<longleftrightarrow> (\<forall>op \<in> set ops. \<not> touches d op)"

fun chk :: "bool \<Rightarrow> instr list \<Rightarrow> know \<Rightarrow> bool" where
  "chk d [] K = (kopen K \<and> kconf K \<and> ksamp K \<and> \<not> krun K \<and> kmode K = (if d then 1 else 0))"
| "chk d (op # ops) K = (case instr_after d op K of None \<Rightarrow> False | Some K' \<Rightarrow> chk d ops K')"

fun chk_main :: "bool \<Rightarrow> instr list \<Rightarrow> know \<Rightarrow> bool" where
  "chk_main d [] K = False"
| "chk_main d (op # ops) K =
     (if op = Spawn False (child d) then aloof d ops \<and> chk d (code_of (child d)) (K\<lparr>kival := None\<rparr>)
      else case instr_after d op K of None \<Rightarrow> False | Some K' \<Rightarrow> chk_main d ops K')"

text \<open>What is known of a device that was just loaded, and that the program passes.\<close>

definition know0 :: know where
  "know0 = \<lparr>kopen = False, kconf = False, kmode = 0, kfreq = 0, krun = False, ksamp = False, kival = None\<rparr>"

lemma program_checks: "chk_main d main_instrs know0"
  by (cases d)
     (simp_all add: main_instrs_def know0_def instr_after_def PRINT_def child_def aloof_def code_of_def
       pfunction_def pins_of_def)

lemma children_checks:
  "aloof (\<not> d) (code_of (child d))" "aloof True (code_of U_read)" "child d \<noteq> U_main" "child d \<noteq> U_read"
  "child d \<noteq> child (\<not> d)"
  by (cases d; simp add: aloof_def child_def code_of_def pfunction_def readfunc_def PRINT_def)+

end
