(* ===== verification/HCSR_Test_Step.thy ===== *)
theory HCSR_Test_Step
  imports HCSR_Test
begin

text \<open>
  One instruction of \<open>hc_sr04-test.c\<close>, run by one thread on the two devices of \<open>HCSR_Test\<close>:
  the state it leaves, what it prints, and that what the thread knew of a device is turned
  into what \<open>instr_after\<close> says.
\<close>

section \<open>One instruction\<close>

definition sys_ok :: "hcenv \<Rightarrow> hcsys \<Rightarrow> bool" where
  "sys_ok env s \<longleftrightarrow> dead s = None \<and> wired (modl s) \<and> (\<forall>d. fds s d = None \<or> fds s d = Some d)
     \<and> hcsr_list (modl s) = [(minor_of env False, False), (minor_of env True, True)]"

definition knows :: "s32 set \<Rightarrow> bool \<Rightarrow> know \<Rightarrow> hcsys \<Rightarrow> uthr \<Rightarrow> bool" where
  "knows D d K s t \<longleftrightarrow> dev_ok D K (hdev d (modl s)) \<and> (kopen K \<longrightarrow> fds s d = Some d)
     \<and> (\<forall>v. kival K = Some v \<longrightarrow> i_var t = v)"

lemma dev_ok_other [simp]:
  "dev_ok D (K\<lparr>kopen := b\<rparr>) h = dev_ok D K h" "dev_ok D (K\<lparr>kival := i\<rparr>) h = dev_ok D K h"
  by (simp_all add: dev_ok_def)

lemma thread_lookup [simp]:
  "thr (put_thr u t s) = (thr s)(u \<mapsto> t)" "thr (say u l s) = thr s"
  "modl (put_thr u t s) = modl s" "modl (say u l s) = modl s"
  "fds (put_thr u t s) = fds s" "fds (say u l s) = fds s"
  "dead (put_thr u t s) = dead s" "dead (say u l s) = dead s"
  "printed (put_thr u t s) = printed s" "printed (say u l s) = printed s @ [(u, l)]"
  by (simp_all add: put_thr_def say_def)

lemma deliver_simps [simp]:
  "modl (deliver u dst um t s) = modl s" "fds (deliver u dst um t s) = fds s" "dead (deliver u dst um t s) = dead s"
  "thr (deliver u dst um t s) = (thr s)(u \<mapsto> if dst = Into_i then t\<lparr>i_var := of_le32 um\<rparr> else t)"
  by (cases dst; simp)+

text \<open>The calls, on a device of the module.\<close>

lemma on_dev_keep:
  assumes "wired m" and "c ((hdev d m)\<lparr>gpios := board m\<rparr>) = Ret a h"
    and "same_setup ((hdev d m)\<lparr>gpios := board m\<rparr>) h"
  shows "on_dev d c m = Ret a (put_dev d h m)" and "wired (put_dev d h m)"
  using assms wired_keep [OF assms(1,3)] by (simp_all add: on_dev_def)

lemma length_read_mem [simp]: "length (read_mem env dst t) = 4"
  by (cases dst) simp_all

lemma run_write:
  assumes a: "answers D a" and s: "sys_ok env s" and k: "knows D d K s t" and o: "kopen K"
  shows "\<exists>h. run_instr env a u (Write_i d) t s = Some (put_thr u t (s\<lparr>modl := put_dev d h (modl s)\<rparr>))
     \<and> wired (put_dev d h (modl s))
     \<and> dev_ok D (if kmode K = 0 then K\<lparr>ksamp := True\<rparr> else K\<lparr>krun := (i_var t \<noteq> 0)\<rparr>) h"
proof -
  let ?h = "(hdev d (modl s))\<lparr>gpios := board (modl s)\<rparr>"
  have ok: "dev_ok D K ?h" and w: "wired (modl s)" and f: "fds s d = Some d"
    using s k o by (simp_all add: knows_def sys_ok_def)
  obtain h where h: "hc_sr04_write a 0 (le32 (i_var t)) ?h = Ret 0 h" "same_setup ?h h"
    "dev_ok D (if kmode K = 0 then K\<lparr>ksamp := True\<rparr> else K\<lparr>krun := (i_var t \<noteq> 0)\<rparr>) h"
    using write_answered [OF ok a] by blast
  from on_dev_keep [where c = "hc_sr04_write a 0 (le32 (i_var t))", OF w h(1,2)] h(3) f show ?thesis by (auto simp: after_def)
qed

lemma run_mode:
  assumes s: "sys_ok env s" and k: "knows D d K s t" and o: "kopen K"
    and "fst wm = 0 \<or> fst wm = 1" and "snd wm \<noteq> 0"
  shows "\<exists>h. run_instr env a u (Ioctl_mode d wm) t s =
      Some (put_thr u (t\<lparr>ret_var := 0\<rparr>) (s\<lparr>modl := put_dev d h (modl s)\<rparr>))
     \<and> wired (put_dev d h (modl s))
     \<and> dev_ok D (K\<lparr>kmode := fst wm, kfreq := snd wm, krun := (krun K \<and> fst wm \<noteq> 0)\<rparr>) h"
proof -
  let ?h = "(hdev d (modl s))\<lparr>gpios := board (modl s)\<rparr>"
  have ok: "dev_ok D K ?h" and w: "wired (modl s)" and f: "fds s d = Some d"
    using s k o by (simp_all add: knows_def sys_ok_def)
  obtain h where h: "hc_sr04_ioctl (genv env) (ienv env) SETMODE 0 (0, 0) wm ?h = Ret 0 h" "same_setup ?h h"
    "dev_ok D (K\<lparr>kmode := fst wm, kfreq := snd wm, krun := (krun K \<and> fst wm \<noteq> 0)\<rparr>) h"
    using setmode_answered [OF ok assms(4,5), of "genv env" "ienv env" "(0, 0)"] by auto
  from on_dev_keep [where c = "hc_sr04_ioctl (genv env) (ienv env) SETMODE 0 (0, 0) wm", OF w h(1,2)] h(3) f show ?thesis by (auto simp: ioctl_dev_def after_def libc_def)
qed

lemma run_pins:
  assumes env: "board_ok env" and s: "sys_ok env s" and k: "knows D d K s t" and o: "kopen K"
    and n: "\<not> kconf K"
  shows "\<exists>h. run_instr env a u (Ioctl_pins d (pins_of d)) t s =
      Some (put_thr u (t\<lparr>ret_var := 0\<rparr>) (s\<lparr>modl := put_dev d h (modl s)\<rparr>))
     \<and> wired (put_dev d h (modl s)) \<and> dev_ok D (K\<lparr>kconf := True\<rparr>) h"
proof -
  have ok: "dev_ok D K (hdev d (modl s))" and w: "wired (modl s)" and f: "fds s d = Some d"
    using s k o by (simp_all add: knows_def sys_ok_def)
  from setpins_board [OF env w ok n, of "(0, 0)"] f show ?thesis
    by (auto simp: ioctl_dev_def after_def libc_def)
qed

lemma run_read:
  assumes a: "answers D a" and s: "sys_ok env s" and k: "knows D d K s t" and o: "kopen K"
  shows "\<exists>h. wired (put_dev d h (modl s)) \<and> dev_ok D K h
     \<and> (run_instr env a u (Read_dev d dst) t s =
          Some (put_thr u (t\<lparr>todo := Recheck d dst # todo t\<rparr>) (s\<lparr>modl := put_dev d h (modl s)\<rparr>))
        \<and> kmode K \<noteq> 0 \<and> \<not> ksamp K
      \<or> (\<exists>um. run_instr env a u (Read_dev d dst) t s = Some (deliver u dst um t (s\<lparr>modl := put_dev d h (modl s)\<rparr>))
        \<and> of_le32 um \<in> D \<and> dev_ok D (K\<lparr>ksamp := True\<rparr>) h))"
proof -
  let ?h = "(hdev d (modl s))\<lparr>gpios := board (modl s)\<rparr>"
  have ok: "dev_ok D K ?h" and w: "wired (modl s)" and f: "fds s d = Some d"
    using s k o by (simp_all add: knows_def sys_ok_def)
  obtain r um h where h: "hc_sr04_read a [] 0 (read_mem env dst t) ?h = Ret (r, um) h" "same_setup ?h h"
    "dev_ok D K h" and r: "if r = Blocked then h = ?h \<and> kmode K \<noteq> 0 \<and> newest ?h = - 1
       else dev_ok D (K\<lparr>ksamp := True\<rparr>) h \<and> of_le32 um \<in> D"
    using read_answered [OF ok a, of "read_mem env dst t"] by auto
  have "r = Blocked \<Longrightarrow> \<not> ksamp K" using r ok by (auto simp: dev_ok_def)
  with on_dev_keep [where c = "hc_sr04_read a [] 0 (read_mem env dst t)", OF w h(1,2)] h(3) r f show ?thesis
    by (intro exI [of _ h]) (auto simp: after_def split: if_splits)
qed

lemma run_recheck:
  assumes s: "sys_ok env s" and k: "knows D d K s t" and o: "kopen K"
  shows "if newest (hdev d (modl s)) = - 1 then run_instr env a u (Recheck d dst) t s = None
   else \<exists>h um. run_instr env a u (Recheck d dst) t s = Some (deliver u dst um t (s\<lparr>modl := put_dev d h (modl s)\<rparr>))
        \<and> wired (put_dev d h (modl s)) \<and> of_le32 um \<in> D \<and> dev_ok D (K\<lparr>ksamp := True\<rparr>) h"
proof -
  let ?h = "(hdev d (modl s))\<lparr>gpios := board (modl s)\<rparr>"
  have ok: "dev_ok D K ?h" and w: "wired (modl s)" and f: "fds s d = Some d"
    using s k o by (simp_all add: knows_def sys_ok_def)
  obtain um where um: "resume_read (read_mem env dst t) ?h = Ret (if newest ?h = - 1 then Blocked else Done 0, um) ?h"
    "newest ?h \<noteq> - 1 \<longrightarrow> dev_ok D (K\<lparr>ksamp := True\<rparr>) ?h \<and> of_le32 um \<in> D"
    using resume_answered [OF ok, of "read_mem env dst t"] by auto
  from on_dev_keep [where c = "resume_read (read_mem env dst t)", OF w um(1)] um(2) f show ?thesis
    by (auto simp: after_def intro!: exI [of _ ?h] exI [of _ um])
qed

lemma run_open:
  assumes "board_ok env" and "sys_ok env s"
  shows "run_instr env a u (Open_dev fd) t s = Some (put_thr u t (s\<lparr>fds := (fds s)(fd \<mapsto> fd)\<rparr>))"
  using assms
  by (cases fd) (auto simp: sys_ok_def board_ok_def hc_sr04_open_def get_curr_hcsr_def after_def)

text \<open>The lines an instruction prints when all calls succeed, without the distances.\<close>

fun shape :: "uline \<Rightarrow> uline" where
  "shape (Distance name v) = Distance name 0"
| "shape l = l"

fun promised :: "instr \<Rightarrow> uline list" where
  "promised (Read_dev _ (Show name)) = [Distance name 0]"
| "promised (Recheck _ (Show name)) = [Distance name 0]"
| "promised (Perror msg) = [Errno msg]"
| "promised Say_unblocked = [Unblocked]"
| "promised (Say_mode wm) = [Mode_freq (fst wm) (snd wm)]"
| "promised _ = []"

abbreviation promised_all :: "instr list \<Rightarrow> uline list" where
  "promised_all ops \<equiv> concat (map promised ops)"

text \<open>
  The thread \<open>u\<close>, at the instruction \<open>op\<close>, goes on: nothing but the devices the instruction
  uses and the thread itself has changed, and it has printed what was promised.
\<close>

definition goes_ahead :: "s32 set \<Rightarrow> uthread \<Rightarrow> instr \<Rightarrow> uthr \<Rightarrow> hcsys \<Rightarrow> hcsys \<Rightarrow> bool" where
  "goes_ahead D u op t s s' \<longleftrightarrow>
     (\<forall>d. \<not> touches d op \<longrightarrow> hdev d (modl s') = hdev d (modl s) \<and> fds s' d = fds s d)
     \<and> (\<exists>t' ls. thr s' = (thr s)(u \<mapsto> t') \<and> ret_var t' = 0
         \<and> (todo t' = todo t \<or> (\<exists>fd dst. op = Read_dev fd dst \<and> todo t' = Recheck fd dst # todo t))
         \<and> printed s' = printed s @ map (Pair u) ls
         \<and> map shape ls @ promised_all (todo t') = promised_all (op # todo t)
         \<and> (\<forall>name v. Distance name v \<in> set ls \<longrightarrow> v \<in> D))"

lemma goes_aheadI:
  assumes "\<And>d. \<not> touches d op \<Longrightarrow> hdev d (modl s') = hdev d (modl s) \<and> fds s' d = fds s d"
    and "thr s' = (thr s)(u \<mapsto> t')" and "ret_var t' = 0"
    and "todo t' = todo t \<or> (\<exists>fd dst. op = Read_dev fd dst \<and> todo t' = Recheck fd dst # todo t)"
    and "printed s' = printed s @ map (Pair u) ls"
    and "map shape ls @ promised_all (todo t') = promised_all (op # todo t)"
    and "\<And>name v. Distance name v \<in> set ls \<Longrightarrow> v \<in> D"
  shows "goes_ahead D u op t s s'"
  unfolding goes_ahead_def using assms by blast

lemma deliver_ahead:
  assumes "of_le32 um \<in> D" and "ret_var t = 0" and "op = Read_dev d dst \<or> op = Recheck d dst"
  shows "goes_ahead D u op t s (deliver u dst um t (s\<lparr>modl := put_dev d h (modl s)\<rparr>))"
proof (rule goes_aheadI [where t' = "if dst = Into_i then t\<lparr>i_var := of_le32 um\<rparr> else t"
      and ls = "case dst of Into_i \<Rightarrow> [] | Show name \<Rightarrow> [Distance name (of_le32 um)]"])
  show "printed (deliver u dst um t (s\<lparr>modl := put_dev d h (modl s)\<rparr>)) =
      printed s @ map (Pair u) (case dst of Into_i \<Rightarrow> [] | Show name \<Rightarrow> [Distance name (of_le32 um)])"
    by (cases dst) simp_all
qed (use assms in \<open>cases dst; auto\<close>)+

text \<open>A thread may use a device: it knows the instruction is safe, or it only reads.\<close>

definition may_use :: "s32 set \<Rightarrow> bool \<Rightarrow> instr \<Rightarrow> hcsys \<Rightarrow> uthr \<Rightarrow> bool" where
  "may_use D d op s t \<longleftrightarrow> (\<exists>K. knows D d K s t \<and>
     (k_after d op K \<noteq> None \<or> kopen K \<and> (\<exists>dst. op = Read_dev d dst \<or> op = Recheck d dst)))"

lemma sys_ok_put:
  assumes "sys_ok env s" and "wired (put_dev d h (modl s))" and "modl s' = put_dev d h (modl s)"
    and "fds s' = fds s" and "dead s' = dead s"
  shows "sys_ok env s'"
  using assms by (simp add: sys_ok_def)

lemma read_effect:
  assumes a: "answers D a" and s: "sys_ok env s" and r0: "ret_var t = 0"
    and use: "\<And>d. touches d op \<Longrightarrow> may_use D d op s t" and run: "run_instr env a u op t s = Some s'"
    and Read_dev: "op = Read_dev d dst"
  shows "sys_ok env s' \<and> goes_ahead D u op t s s'"
proof -
  from Read_dev use [of d] obtain K where K: "knows D d K s t" "kopen K"
    by (auto simp: may_use_def split: if_splits)
  from run_read [OF a s K, of u dst] run Read_dev obtain h where w: "wired (put_dev d h (modl s))" and
    "s' = put_thr u (t\<lparr>todo := Recheck d dst # todo t\<rparr>) (s\<lparr>modl := put_dev d h (modl s)\<rparr>)
     \<or> (\<exists>um. s' = deliver u dst um t (s\<lparr>modl := put_dev d h (modl s)\<rparr>) \<and> of_le32 um \<in> D)"
    by auto
  then show ?thesis
  proof (elim disjE exE conjE)
    assume s': "s' = put_thr u (t\<lparr>todo := Recheck d dst # todo t\<rparr>) (s\<lparr>modl := put_dev d h (modl s)\<rparr>)"
    have "goes_ahead D u op t s s'"
      by (rule goes_aheadI [where t' = "t\<lparr>todo := Recheck d dst # todo t\<rparr>" and ls = "[]"])
         (cases dst; auto simp: s' Read_dev r0)+
    then show ?thesis using sys_ok_put [OF s w, of s'] by (simp add: s')
  next
    fix um
    assume s': "s' = deliver u dst um t (s\<lparr>modl := put_dev d h (modl s)\<rparr>)" and um: "of_le32 um \<in> D"
    show ?thesis
      using deliver_ahead [OF um r0, of op d dst u s h] sys_ok_put [OF s w, of s'] by (simp add: s' Read_dev)
  qed
qed

lemma recheck_effect:
  assumes a: "answers D a" and s: "sys_ok env s" and r0: "ret_var t = 0"
    and use: "\<And>d. touches d op \<Longrightarrow> may_use D d op s t" and run: "run_instr env a u op t s = Some s'"
    and Recheck: "op = Recheck d dst"
  shows "sys_ok env s' \<and> goes_ahead D u op t s s'"
proof -
  from Recheck use [of d] obtain K where K: "knows D d K s t" "kopen K"
    by (auto simp: may_use_def split: if_splits)
  from run_recheck [OF s K, of a u dst] run Recheck obtain h um where
    s': "s' = deliver u dst um t (s\<lparr>modl := put_dev d h (modl s)\<rparr>)" "of_le32 um \<in> D"
    and w: "wired (put_dev d h (modl s))" by (auto split: if_splits)
  show ?thesis
    using deliver_ahead [OF s'(2) r0, of op d dst u s h] sys_ok_put [OF s w, of s'] by (simp add: s' Recheck)
qed

lemma run_effect:
  assumes env: "board_ok env" and a: "answers D a" and s: "sys_ok env s" and r0: "ret_var t = 0"
    and use: "\<And>d. touches d op \<Longrightarrow> may_use D d op s t" and sp: "\<And>b c. op \<noteq> Spawn b c"
    and run: "run_instr env a u op t s = Some s'"
  shows "sys_ok env s' \<and> goes_ahead D u op t s s'"
proof (cases op)
  case (Open_dev fd)
  with run_open [OF env s] run have s': "s' = put_thr u t (s\<lparr>fds := (fds s)(fd \<mapsto> fd)\<rparr>)" by simp
  have "goes_ahead D u op t s s'"
    by (rule goes_aheadI [where t' = t and ls = "[]"]) (auto simp: s' Open_dev r0)
  then show ?thesis using s by (simp add: s' sys_ok_def)
next
  case (Ioctl_pins d p)
  with use [of d] obtain K where K: "knows D d K s t" "kopen K" "\<not> kconf K" "p = pins_of d"
    by (auto simp: may_use_def split: if_splits)
  obtain h where s': "s' = put_thr u (t\<lparr>ret_var := 0\<rparr>) (s\<lparr>modl := put_dev d h (modl s)\<rparr>)"
    "wired (put_dev d h (modl s))"
    using run_pins [OF env s K(1,2,3), of a u] run by (auto simp: Ioctl_pins K(4))
  have "goes_ahead D u op t s s'"
    by (rule goes_aheadI [where t' = "t\<lparr>ret_var := 0\<rparr>" and ls = "[]"]) (auto simp: s' Ioctl_pins)
  then show ?thesis using sys_ok_put [OF s s'(2), of s'] by (simp add: s')
next
  case (Ioctl_mode d wm)
  with use [of d] obtain K where K: "knows D d K s t" "kopen K" "fst wm = 0 \<or> fst wm = 1" "snd wm \<noteq> 0"
    by (auto simp: may_use_def split: if_splits)
  obtain h where s': "s' = put_thr u (t\<lparr>ret_var := 0\<rparr>) (s\<lparr>modl := put_dev d h (modl s)\<rparr>)"
    "wired (put_dev d h (modl s))"
    using run_mode [OF s K, of a u] run by (auto simp: Ioctl_mode)
  have "goes_ahead D u op t s s'"
    by (rule goes_aheadI [where t' = "t\<lparr>ret_var := 0\<rparr>" and ls = "[]"]) (auto simp: s' Ioctl_mode)
  then show ?thesis using sys_ok_put [OF s s'(2), of s'] by (simp add: s')
next
  case (Write_i d)
  with use [of d] obtain K where K: "knows D d K s t" "kopen K"
    by (auto simp: may_use_def split: if_splits)
  obtain h where s': "s' = put_thr u t (s\<lparr>modl := put_dev d h (modl s)\<rparr>)" "wired (put_dev d h (modl s))"
    using run_write [OF a s K, of u] run by (auto simp: Write_i)
  have "goes_ahead D u op t s s'"
    by (rule goes_aheadI [where t' = t and ls = "[]"]) (auto simp: s' Write_i r0)
  then show ?thesis using sys_ok_put [OF s s'(2), of s'] by (simp add: s')
next
  case (Read_dev d dst)
  show ?thesis by (rule read_effect [OF a s r0 _ run Read_dev]) (rule use)
next
  case (Recheck d dst)
  show ?thesis by (rule recheck_effect [OF a s r0 _ run Recheck]) (rule use)
next
  case (Spawn b c)
  with sp show ?thesis by blast
next
  case (Assign v)
  have "goes_ahead D u op t s s'"
    by (rule goes_aheadI [where t' = "t\<lparr>i_var := v\<rparr>" and ls = "[]"]) (use run in \<open>auto simp: Assign r0\<close>)
  then show ?thesis using s run by (auto simp: sys_ok_def Assign)
next
  case (Await c)
  have s': "s' = put_thr u t s" using run by (auto simp: Await split: option.splits if_splits)
  have "goes_ahead D u op t s s'"
    by (rule goes_aheadI [where t' = t and ls = "[]"]) (auto simp: s' Await r0)
  then show ?thesis using s by (simp add: s' sys_ok_def)
qed (use s run r0 in \<open>auto simp: sys_ok_def intro!: goes_aheadI [where t' = t and ls = "promised op"]\<close>)

text \<open>The variable \<open>i\<close> after an instruction.\<close>

lemma run_i_var:
  assumes "run_instr env a u op t s = Some s'" and "dead s' = None" and "thr s' u = Some t'"
    and "\<And>b c. op \<noteq> Spawn b c"
  shows "if todo t' = todo t then \<forall>v. i_after op (Some (i_var t)) = Some v \<longrightarrow> i_var t' = v
    else i_var t' = i_var t"
proof (cases op)
  case (Read_dev fd dst)
  with assms show ?thesis
    by (cases dst) (auto simp: after_def split: option.splits outcome.splits prod.splits if_splits)
next
  case (Recheck fd dst)
  with assms show ?thesis
    by (cases dst) (auto simp: after_def split: option.splits outcome.splits prod.splits if_splits)
qed (use assms in \<open>auto simp: after_def ioctl_dev_def split: option.splits outcome.splits prod.splits if_splits\<close>)

lemma i_after_mono: "i_after op None = Some v \<Longrightarrow> i_after op i = Some v"
  by (cases "(op, i)" rule: i_after.cases) (auto split: if_splits)

text \<open>What is known of device \<open>d\<close> itself after an instruction that uses it.\<close>

definition dev_after :: "s32 set \<Rightarrow> bool \<Rightarrow> instr \<Rightarrow> know \<Rightarrow> hcsys \<Rightarrow> uthr \<Rightarrow> uthr \<Rightarrow> bool" where
  "dev_after D d op K s' t t' \<longleftrightarrow>
     (if todo t' = todo t
      then \<exists>K'. k_after d op K = Some K' \<and> dev_ok D K' (hdev d (modl s')) \<and> (kopen K' \<longrightarrow> fds s' d = Some d)
      else dev_ok D K (hdev d (modl s')) \<and> kopen K \<and> fds s' d = Some d \<and> (krun K \<or> ksamp K))"

lemma dev_afterI:
  "todo t' = todo t \<Longrightarrow> k_after d op K = Some K' \<Longrightarrow> dev_ok D K' (hdev d (modl s')) \<Longrightarrow>
    (kopen K' \<Longrightarrow> fds s' d = Some d) \<Longrightarrow> dev_after D d op K s' t t'"
  by (simp add: dev_after_def)

lemma run_dev_after:
  assumes env: "board_ok env" and a: "answers D a" and s: "sys_ok env s" and k: "knows D d K s t"
    and t: "touches d op" "\<And>b c. op \<noteq> Spawn b c" and k': "k_after d op K \<noteq> None"
    and run: "run_instr env a u op t s = Some s'" and t': "thr s' u = Some t'"
  shows "dev_after D d op K s' t t'"
proof -
  consider (o) "op = Open_dev d" | (c) "kopen K" "op \<noteq> Open_dev d" using t k' by (cases op) (auto split: if_splits)
  then show ?thesis
  proof cases
    case o
    with run_open [OF env s, of a u d t] run t' k show ?thesis
      by (intro dev_afterI [of t' t d op K]) (auto simp: knows_def)
  next
    case c
    have f: "fds s d = Some d" using k c(1) by (simp add: knows_def)
    show ?thesis
    proof (cases op)
      case (Ioctl_pins fd p)
      with t k' have p: "fd = d" "\<not> kconf K" "p = pins_of d" by (auto split: if_splits)
      from run_pins [OF env s k c(1) p(2), of a u] run t' c f show ?thesis
        by (intro dev_afterI [of t' t d op K "K\<lparr>kconf := True\<rparr>"]) (auto simp: Ioctl_pins p)
    next
      case (Ioctl_mode fd wm)
      with t k' have p: "fd = d" "fst wm = 0 \<or> fst wm = 1" "snd wm \<noteq> 0" by (auto split: if_splits)
      from run_mode [OF s k c(1) p(2,3), of a u] run t' c f show ?thesis
        by (intro dev_afterI [of t' t d op K
              "K\<lparr>kmode := fst wm, kfreq := snd wm, krun := (krun K \<and> fst wm \<noteq> 0)\<rparr>"])
           (auto simp: Ioctl_mode p)
    next
      case (Write_i fd)
      with t k' obtain v where p: "fd = d" "kival K = Some v" by (auto split: if_splits option.splits)
      have v: "i_var t = v" using k p(2) by (simp add: knows_def)
      from run_write [OF a s k c(1), of u] run t' c f show ?thesis
        by (intro dev_afterI [of t' t d op K "if kmode K = 0 then K\<lparr>ksamp := True\<rparr> else K\<lparr>krun := (i_var t \<noteq> 0)\<rparr>"])
           (auto simp: Write_i p v [symmetric])
    next
      case (Read_dev fd dst)
      with t k' have p: "fd = d" "kmode K = 0 \<or> ksamp K \<or> krun K" by (auto split: if_splits)
      from run_read [OF a s k c(1), of u dst] run t' c f p show ?thesis
        by (cases dst) (auto simp: Read_dev dev_after_def)
    next
      case (Recheck fd dst)
      with t k' have p: "fd = d" by (auto split: if_splits)
      from run_recheck [OF s k c(1), of a u dst] run t' c f p k' show ?thesis
        by (intro dev_afterI [of t' t d op K "K\<lparr>ksamp := True\<rparr>"]) (auto simp: Recheck split: if_splits)
    qed (use t c in \<open>auto simp: \<close>)
  qed
qed

lemma run_knows:
  assumes env: "board_ok env" and a: "answers D a" and s: "sys_ok env s" and k: "knows D d K s t"
    and sp: "\<And>b c. op \<noteq> Spawn b c" and k': "instr_after d op K = Some K'"
    and run: "run_instr env a u op t s = Some s'" and alive: "dead s' = None"
    and go: "goes_ahead D u op t s s'"
  shows "\<exists>t'. thr s' u = Some t' \<and>
    (if todo t' = todo t then knows D d K' s' t'
     else knows D d K s' t' \<and> (\<exists>fd dst. op = Read_dev fd dst \<and> todo t' = Recheck fd dst # todo t
       \<and> instr_after d (Recheck fd dst) K = Some K'))"
proof -
  obtain t' where t': "thr s' u = Some t'" "todo t' = todo t \<or>
      (\<exists>fd dst. op = Read_dev fd dst \<and> todo t' = Recheck fd dst # todo t)"
    using go by (auto simp: goes_ahead_def)
  note i = run_i_var [OF run alive t'(1) sp]
  have iK: "kival K = None \<or> kival K = Some (i_var t)" using k by (cases "kival K") (auto simp: knows_def)
  have i': "i_after op (kival K) = Some v \<Longrightarrow> i_after op (Some (i_var t)) = Some v" for v
    using iK i_after_mono [of op v] by auto
  obtain K0 where K0: "k_after d op K = Some K0" "K' = K0\<lparr>kival := i_after op (kival K)\<rparr>"
    using k' by (auto simp: instr_after_def)
  have af: "dev_after D d op K s' t t'"  if "touches d op"
    using run_dev_after [OF env a s k that sp _ run t'(1)] K0(1) by simp
  have same: "K0 = K" "hdev d (modl s') = hdev d (modl s)" "fds s' d = fds s d" if "\<not> touches d op"
    using that K0(1) go by (cases op; auto simp: goes_ahead_def split: if_splits)+
  show ?thesis
  proof (cases "todo t' = todo t")
    case True
    with i i' have iv: "\<forall>v. i_after op (kival K) = Some v \<longrightarrow> i_var t' = v" by simp
    have "knows D d K' s' t'"
      using iv af same k K0 True by (cases "touches d op") (auto simp: knows_def dev_after_def)
    with True t' show ?thesis by auto
  next
    case False
    then obtain fd dst where op: "op = Read_dev fd dst" "todo t' = Recheck fd dst # todo t" using t'(2) by auto
    have "knows D d K s' t'"
      using False i af same k iK by (cases "touches d op") (auto simp: knows_def dev_after_def)
    moreover have "instr_after d (Recheck fd dst) K = Some K'"
      using False af K0 op by (cases "fd = d"; cases dst) (auto simp: instr_after_def dev_after_def split: if_splits)
    ultimately show ?thesis using False op t'(1) by auto
  qed
qed

end
