(* ===== verification/HCSR_Test_Proofs.thy ===== *)
theory HCSR_Test_Proofs
  imports HCSR_Test_Step
begin

text \<open>
  The whole of \<open>hc_sr04-test.c\<close>: an invariant that types every state the program reaches,
  kept by the user threads and by the sampling threads, that the program is never stuck for
  good and ends after a bounded number of instructions, and what it prints and leaves behind.
\<close>

section \<open>The invariant\<close>

definition lines_of :: "uthread \<Rightarrow> hcsys \<Rightarrow> uline list" where
  "lines_of u s = map snd (filter (\<lambda>x. fst x = u) (printed s))"

fun spawns :: "instr \<Rightarrow> uthread list" where
  "spawns (Spawn _ c) = [c]"
| "spawns _ = []"

abbreviation spawns_all :: "instr list \<Rightarrow> uthread list" where
  "spawns_all ops \<equiv> concat (map spawns ops)"

fun reader_instr :: "instr \<Rightarrow> bool" where
  "reader_instr (Read_dev fd _) = (\<not> fd)"
| "reader_instr (Recheck fd _) = (\<not> fd)"
| "reader_instr (Assign _) = True"
| "reader_instr Say_unblocked = True"
| "reader_instr _ = False"

text \<open>Each thread has printed what its code promises, and has still to print the rest.\<close>

definition on_script :: "uthread \<Rightarrow> hcsys \<Rightarrow> bool" where
  "on_script u s \<longleftrightarrow>
     (case thr s u of
        None \<Rightarrow> lines_of u s = []
      | Some t \<Rightarrow> ret_var t = 0 \<and> map shape (lines_of u s) @ promised_all (todo t) = promised_all (code_of u))"


text \<open>Which thread uses which device, and which threads are still to be created or joined.\<close>

fun awaits_ok :: "uthread set \<Rightarrow> instr list \<Rightarrow> bool" where
  "awaits_ok E [] = True"
| "awaits_ok E (Await c # ops) = (c \<in> E \<and> c \<in> {U_A, U_B} \<and> awaits_ok E ops)"
| "awaits_ok E (Spawn _ c # ops) = awaits_ok (insert c E) ops"
| "awaits_ok E (_ # ops) = awaits_ok E ops"

definition main_role :: "hcsys \<Rightarrow> uthr \<Rightarrow> bool" where
  "main_role s t \<longleftrightarrow> (\<exists>k. spawns_all (todo t) = drop k [U_read, U_A, U_B]) \<and> (\<forall>c \<in> set (spawns_all (todo t)). thr s c = None)
     \<and> awaits_ok {c. thr s c \<noteq> None} (todo t)
     \<and> (\<forall>d. (thr s (child d) \<noteq> None \<longrightarrow> aloof d (todo t))
          \<and> (Await (child d) \<in> set (todo t) \<or> (\<exists>tc. thr s (child d) = Some tc \<and> todo tc = [])))"

definition reader_role :: "hcsys \<Rightarrow> uthr \<Rightarrow> bool" where
  "reader_role s t \<longleftrightarrow> fds s False = Some False \<and> (\<forall>op \<in> set (todo t). reader_instr op)"








lemma child_simps [simp]:
  "child d \<noteq> U_main" "U_main \<noteq> child d" "child d \<noteq> U_read" "U_read \<noteq> child d" "child d = child d' \<longleftrightarrow> d = d'"
  by (auto simp: child_def)



section \<open>Steps of the user threads\<close>

















section \<open>Rounds of the sampling threads\<close>

lemma module_irrelevant [simp]:
  "on_script u (s\<lparr>modl := m\<rparr>) = on_script u s"
  "main_role (s\<lparr>modl := m\<rparr>) t = main_role s t" "reader_role (s\<lparr>modl := m\<rparr>) t = reader_role s t"
  by (simp_all add: on_script_def lines_of_def main_role_def reader_role_def split: option.split)




section \<open>Progress\<close>


text \<open>
  A thread that drives a device is only ever held up by an empty buffer, and then the sampling
  thread of the device is running.
\<close>






section \<open>How long the program runs\<close>










section \<open>The end of the program\<close>



section \<open>Properties\<close>













end
