(* ===== verification/Spec2Isabelle.thy ===== *)
theory Spec2Isabelle
  imports Ht530_Test Barrier_Main Barrier_Race Mprobe_Test HCSR_Platform HCSR_Race_Proofs HCSR_Sysfs_Race_Proofs HCSR_Test_Proofs
begin

text \<open>
  \<^bold>\<open>Verified models of the Linux kernel drivers of this repository.\<close>

  The repository holds five drivers and one set of system calls. They do not call
  each other; each is a state machine driven by system calls of user programs, by
  interrupts and by kernel threads. The programs that exercise the drivers are modelled on
  top of them. The development has one group of theories per module, over a common prelude
  and a theory of interfaces.

  \<^bold>\<open>Common ground.\<close> \<open>Kernel_Prelude\<close>: machine words, error numbers, the outcome of a
  handler (\<open>Ret\<close> with the result, or \<open>Oops\<close> with a fault, both with the state reached), a
  small state monad, spin locks (taking a held lock is the fault \<open>SelfDeadlock\<close>, releasing
  one that is not held \<open>UnlockUnheld\<close>), \<open>copy_from_user\<close> and \<open>copy_to_user\<close> with a number of
  failing bytes, little-endian images, ioctl numbers, list and ring lemmas.
  \<open>Contracts\<close>: the interfaces as locales with what a client can conclude from them:
  \<open>kv_store\<close> (interpreted in \<open>Ht530\<close>), \<open>handle_table\<close> (in \<open>Barrier\<close>), \<open>ring_log\<close> (in
  \<open>Mprobe\<close> and \<open>HCSR_Proofs\<close>) and \<open>simulation\<close> (in \<open>Barrier_Wait\<close>,
  \<open>Barrier_Race\<close> and \<open>HCSR_Platform\<close>). The locales of the sensor machine (below) are
  interpreted for both sensor drivers. \<open>HCSR_Pins\<close> adds
  \<open>pin_setup\<close>, the contract of the loop bodies that set up a pin, interpreted for the three
  loops of the two sensor drivers; \<open>Barrier_Test\<close> adds \<open>round_service\<close>, what the test program
  needs of a barrier, interpreted for the driver as it is and for one without the window in
  which a wake-up is lost (an auxiliary of the proof of termination only).

  \<^bold>\<open>The hash-table driver\<close>, \<open>01_mprobe_debugger_and_generanl_driver_module/general_driver\<close>
  (\<open>ht530.c\<close>). \<open>Ht530\<close> has the table as a list of buckets, \<open>cur_size\<close>, and every file
  operation: \<open>ht530_write\<close> inserts, overwrites and deletes (data 0), \<open>ht530_read\<close> looks up,
  \<open>ht530_unlocked_ioctl\<close> dumps, \<open>ht530_init\<close> and \<open>ht530_exit\<close> acquire and release. Shown:
  a write changes the finite map the table stands for at one key only and keeps the table
  well formed; a read returns the last write; the dump is complete; unloading frees every
  node once; and the error paths (failed copies, over-long reads, \<open>HASH_DUMP\<close>, a failed
  load). The hash function is a parameter. \<open>Ht530_Test\<close>: the program \<open>ht530-test.c\<close>, four
  threads under three mutexes and the main thread, every access to something shared a step
  of its own; the bounds of its counters, that every schedule ends, and what is printed.

  \<^bold>\<open>The kprobe debugger\<close>, \<open>.../mprobe\<close> (\<open>mprobe.c\<close>). \<open>Mprobe\<close> has the handler that records
  the values of a local and a global variable in a ring of ten, reading the ring, and
  replacing the probe. Shown: a read delivers the last ten hits, each complete; at most
  the last probe is registered and no block is freed; what a fault under the lock and a
  request for address 0 lead to. Memory contents, the allocator and \<open>register_kprobe\<close>
  are parameters. \<open>Mprobe_Test\<close>: the programs \<open>mprobe-test1.c\<close> and \<open>mprobe-test2.c\<close>, which
  read load addresses from sysfs, set a probe, make the hash-table driver run into it and
  print the results: what several runs print, and where the printing loop is off on a
  32-bit machine.

  \<^bold>\<open>The first sensor driver\<close>, \<open>02_Concurrent_HC-SR04_miscdeivces\<close> (\<open>hc_sr04.c\<close>,
  \<open>hc_sr04_kernel.h\<close>, \<open>hw_setting.h\<close>). \<open>HCSR_Pins\<close>: the pin table and the loops that request,
  configure and free GPIOs. \<open>HCSR_Driver\<close>: the device structure, the echo interrupt, the
  polling loop, \<open>send\<close>, the sampling thread, the ioctls, read and write, load and unload.
  \<open>HCSR_Proofs\<close>: the outcome of a measurement in every case, the ring of five samples, what
  a reader gets, \<open>SETPINS\<close> exchanging exactly the GPIOs and the line of the device, the life
  of the thread, and the error paths that leave a device half configured.
  \<open>Sensor_Machine\<close>: a device on a multiprocessor, with any number of user threads, the
  sampling threads and the interrupt interleaved step by step and every spin lock with its holder,
  for any code given by its program points; each access to the ring of samples is a step, so that only
  \<open>cir_buf_lock\<close> keeps the readers and the handler apart; the locale \<open>sensor_code\<close> has the laws the steps of a
  driver keep and derives mutual exclusion, the meaning of the flag and of the ring, and which values calls
  deliver; \<open>sensor_send\<close> that a measurement ends; \<open>sensor_waits\<close> that threads which wait for
  each other do so for ever; \<open>sensor_order\<close> that an order of the points excludes it.
  \<open>Sensor_Measure\<close>: the locale \<open>measurement\<close>, by which the outcomes of the sequential measurement are
  found again in the machine. \<open>HCSR_Race\<close> and \<open>HCSR_Race_Proofs\<close>: readers, writers, mode changes, the sampling thread
  and the interrupt of this driver as such code. Shown besides what the locales give: that there
  is never more than one sampling thread, that there is no deadlock if interrupts are off while a lock
  of the handler is held, and three races, one of them a deadlock with interrupts on.
  \<open>HCSR_Test\<close>: the program \<open>hc_sr04-test.c\<close> as lists of instructions for its four threads, a
  machine that runs them together with the sampling threads, and a check of the instructions
  of each thread that keeps track of what is known of a device. \<open>HCSR_Test_Step\<close>: that the
  check is right for one instruction. \<open>HCSR_Test_Proofs\<close>: that every state the program
  reaches passes the check, and from it, when every pulse is answered, that no call faults and each device is driven by one
  thread, that the program ends, what it prints and what it leaves behind.

  \<^bold>\<open>The second sensor driver\<close>, \<open>03_Concurrent_HC-SR04_SYSFS_Platform_Drivers\<close> (\<open>hc_sr04.h\<close>,
  \<open>hc_sr04_kernel.h\<close>, \<open>HCSR_driver.c\<close>, \<open>HCSR.c\<close>). Its device structure extends that of the
  first driver, whose definitions take any extension, so routines with the same text are
  shared; those that differ carry the suffix 3. \<open>Sysfs_Text\<close>: printing and scanning of
  numbers. \<open>HCSR_Sysfs\<close>: the routines that differ and the attributes \<open>trigger\<close>, \<open>echo\<close>,
  \<open>mode\<close>, \<open>frequency\<close>, \<open>enable\<close>, \<open>distance\<close>. \<open>HCSR_Sysfs_Proofs\<close>: agreement with the first
  driver, agreement of the attributes with the ioctl, store and show as a round trip, and
  the calls that hang. \<open>HCSR_Sysfs_Race\<close> and \<open>HCSR_Sysfs_Race_Proofs\<close>: one device with its file operations,
  attributes, sampling threads and interrupt interleaved, as code for \<open>Sensor_Machine\<close>; what the locales
  give, and the deadlocks of this driver: enabling in periodic mode and setting the mode hang the device for good,
  stopping the thread may, and a second sampling thread may be started. The first of these deadlocks needs locks that
  spin: for the kernel of one processor (\<open>up_code\<close>) the call is shown to return, as in \<open>kernel_run.log\<close>. \<open>HCSR_Platform\<close>: creating, binding, unbinding and using the two
  devices as a step relation that simulates an abstract sharing of one class, with an
  invariant over all histories in which the kernel grants what a probe asks for and calls return, and what a
  refused probe leads to.

  \<^bold>\<open>The barrier driver\<close>, \<open>04_barrier_driver_module\<close> (\<open>eosi_barrier.c\<close>). \<open>Barrier\<close>: the
  registry of barriers per process and the three operations as sequential calls up to
  their return or first sleep. \<open>Barrier_Wait\<close>: one barrier and any number of threads, with
  the critical sections and the steps of \<open>sleep_here\<close> interleaved in any order
  (\<open>bact\<close>), proved to simulate an abstract cyclic barrier; from it, round safety, the
  meaning of the 64-bit total, draining of an open round, and the lost wake-up.
  \<open>Barrier_Race\<close>: the whole driver with any number of threads of any number of processes in
  its operations at once, on a heap in which blocks are allocated and freed: a careful use is
  free of faults and simulates a table of barriers with atomic operations, while an
  unlucky \<open>barrier_init\<close> is refused, and a careless use runs into freed blocks, be it only for the
  log line a call prints after it has given the lock back.
  \<open>Barrier_Test\<close> and \<open>Barrier_Test_Live\<close>: the threads of \<open>barrier_user_sys.c\<close> that synchronise
  a hundred times and the thread that creates, joins and destroys, on any barrier that offers
  rounds: the threads stay in step, the barrier is unused when it is destroyed, all threads
  end on schedules that do not interrupt a thread between unlock and queueing, and others can hang. \<open>Barrier_Main\<close>: the
  library calls, the two barriers of a process side by side, and the processes.

  \<^bold>\<open>The barrier system calls\<close>, \<open>04_barrier_driver_module/kern_backup\<close> (\<open>barrier.c\<close>).
  \<open>Barrier_Syscall\<close>: the loops of this version, proved equal to the iterated sections of
  the driver, and the three system calls, proved to agree with it where the id can be copied to the caller and
  up to the first sleep (for waiting, also for any wake-ups).

  \<^bold>\<open>Concurrency and the environment.\<close> A handler that takes locks runs its sections one
  after the other; what other threads and interrupts do at the points where a handler waits
  is an argument: the list of wake-ups or events, the function that says in which of the
  50000 polls an echo arrives, whether a thread that is stopped is about to send. For the
  barrier the sections of many threads are interleaved, and every access between two sections
  is a step of its own; a spin lock that is held keeps the other threads waiting;
  the same is done for one device of each sensor driver, with the interrupt on top of a thread (its
  pins stay as they are: \<open>SETPINS\<close> and storing \<open>trigger\<close> or \<open>echo\<close> are not interleaved). The test programs are machines whose
  threads take turns in any order: at every access to shared data for \<open>ht530-test.c\<close>, at every
  section of the barrier for \<open>barrier_user_sys.c\<close>, and at every system call for
  \<open>hc_sr04-test.c\<close>, where a call runs until it returns or sleeps, as on the one core of the
  board. Answers of the kernel
  (allocation, registration, GPIO and interrupt requests, failing copies) are arguments.
  Spin locks are those of a multiprocessor kernel; a uniprocessor build without preemption, such as that of the
  board of the logs, compiles them away, and a call that hangs in the model may return there (\<open>up_code\<close> of
  \<open>Sensor_Machine\<close> is that build).
  Log output is left out, but for the two lines of the barrier driver that read a barrier after its lock was given back.

  \<^bold>\<open>Bounds.\<close> Every loop of the models ends: by structure, by the poll bound of the code,
  or because the list of events is used up, in which case the result says so. The test
  programs end after at most 2946 steps (\<open>ht530-test.c\<close>), \<open>1620 * n + 14\<close> steps with \<open>n\<close> threads
  (\<open>barrier_user_sys.c\<close>, up to the freeing of the barrier, no thread interrupted between unlock and queueing) and 97 instructions (\<open>hc_sr04-test.c\<close>, every pulse
  answered); these numbers are theorems, no model is cut off at them. The barrier
  counts up to \<open>2 ^ 63\<close> threads, the flag bit of the total; ring sizes are those of the code.

  \<^bold>\<open>Not modelled.\<close> The kernel patch and the system-call table with
  its generated headers (no logic of their own), shell scripts, and the \<open>__EXTENNTION__\<close> variant of the
  first sensor driver, which is not compiled.
\<close>

end
